(* ===== verification/Prelude.thy ===== *)
theory Prelude
  imports Main "HOL-Library.Word"
begin

text \<open>
  Shared vocabulary of the development: machine integers, byte strings and their slices,
  big- and little-endian codecs, the result type of fallible operations, and the pieces of
  Rust's standard library that several components use (ASCII predicates, splitting,
  decimal parsing and printing, lossy UTF-8 decoding).

  Bytes are \<open>8 word\<close>. Protocol counters that wrap are words of their width. Offsets and
  sizes (\<open>u64\<close>, and \<open>usize\<close> on the 64-bit hosts the server targets) are \<open>nat\<close>, with
  every overflow check of the code written out against \<open>u64_lim\<close>. A Rust \<open>String\<close> is the
  byte list of its UTF-8 encoding.
\<close>

unbundle bit_operations_syntax

section \<open>Types\<close>

type_synonym u8 = "8 word"
type_synonym u16 = "16 word"
type_synonym u32 = "32 word"
type_synonym bytes = "u8 list"
type_synonym rstr = "u8 list"

text \<open>
  Results. A Rust \<open>io::Result\<close> is a sum whose left side is the kind of the failure.
  Two kinds are not values of \<open>io::Error\<close>: \<open>Panicked\<close> (the call unwinds: a slice index out
  of range, or an arithmetic overflow, which panics in a checked build) and \<open>Diverged\<close> (the
  loop does not end). They let theorems say that a call does neither.
\<close>

datatype io_error = InvalidData | UnexpectedEof | NotFound | Panicked | Diverged

type_synonym 'a io = "io_error + 'a"

named_theorems byte_simps \<open>evaluation of slices and codecs\<close>

definition u64_lim :: nat where
  "u64_lim = 2 ^ 64"

definition u32_max :: nat where
  "u32_max = 4294967295"

definition checked_add_u64 :: "nat \<Rightarrow> nat \<Rightarrow> nat option" where
  "checked_add_u64 a b = (if a + b < u64_lim then Some (a + b) else None)"

definition checked_mul_u64 :: "nat \<Rightarrow> nat \<Rightarrow> nat option" where
  "checked_mul_u64 a b = (if a * b < u64_lim then Some (a * b) else None)"

definition div_ceil :: "nat \<Rightarrow> nat \<Rightarrow> nat" where
  "div_ceil a b = (a + b - 1) div b"

function is_power_of_two :: "nat \<Rightarrow> bool" where
  "is_power_of_two n =
     (if n \<le> 1 then n = 1 else if even n then is_power_of_two (n div 2) else False)"
  by pat_completeness auto
termination
  by (relation "measure (\<lambda>n. n)") auto

declare is_power_of_two.simps [simp del]

lemma checked_add_u64_Some: "checked_add_u64 a b = Some c \<longleftrightarrow> c = a + b \<and> a + b < u64_lim"
  by (auto simp: checked_add_u64_def)

lemma checked_add_u64_None: "checked_add_u64 a b = None \<longleftrightarrow> u64_lim \<le> a + b"
  by (auto simp: checked_add_u64_def)

lemma is_power_of_two_ex: "is_power_of_two n \<Longrightarrow> \<exists>k. n = 2 ^ k"
proof (induction n rule: is_power_of_two.induct)
  case (1 n)
  show ?case
  proof (cases "n \<le> 1")
    case True
    with "1.prems" have "n = 2 ^ 0" by (simp add: is_power_of_two.simps)
    then show ?thesis by blast
  next
    case False
    with "1.prems" have n: "even n" "is_power_of_two (n div 2)"
      by (simp_all add: is_power_of_two.simps [of n] split: if_splits)
    with "1.IH" False obtain k where "n div 2 = 2 ^ k" by blast
    with n(1) have "n = 2 ^ Suc k" by auto
    then show ?thesis by blast
  qed
qed

lemma is_power_of_two_pos: "is_power_of_two n \<Longrightarrow> 0 < n"
  using is_power_of_two_ex by fastforce

lemma div_ceil_le_iff: "0 < b \<Longrightarrow> n < div_ceil a b \<longleftrightarrow> n * b < a"
proof -
  assume b: "0 < b"
  have "n < div_ceil a b \<longleftrightarrow> Suc n \<le> (a + b - 1) div b"
    by (auto simp: div_ceil_def)
  also have "\<dots> \<longleftrightarrow> Suc n * b \<le> a + b - 1"
    using b by (simp add: less_eq_div_iff_mult_less_eq)
  also have "\<dots> \<longleftrightarrow> n * b < a"
    using b by auto
  finally show ?thesis .
qed

lemma div_ceil_upper: "0 < b \<Longrightarrow> a \<le> div_ceil a b * b"
  using div_ceil_le_iff [of b "div_ceil a b" a] by auto

lemma is_power_of_two_pow [simp]: "is_power_of_two (2 ^ k)"
proof (induction k)
  case (Suc k)
  have "(1 :: nat) \<le> 2 ^ k" by simp
  then have "\<not> 2 * 2 ^ k \<le> (1 :: nat)" by linarith
  with Suc show ?case by (simp add: is_power_of_two.simps [of "2 * 2 ^ k"])
qed (simp add: is_power_of_two.simps)

section \<open>Slices and in-place writes\<close>

text \<open>
  \<open>window off n xs\<close> is the slice \<open>xs[off..off + n]\<close>, and \<open>put off src dst\<close> is
  \<open>dst[off..off + src.len()].copy_from_slice(src)\<close>. Both are only used in range, or behind
  the bounds check of the code.
\<close>

definition window :: "nat \<Rightarrow> nat \<Rightarrow> 'a list \<Rightarrow> 'a list" where
  "window off n xs = take n (drop off xs)"

definition put :: "nat \<Rightarrow> 'a list \<Rightarrow> 'a list \<Rightarrow> 'a list" where
  "put off src dst = take off dst @ src @ drop (off + length src) dst"

definition zeros :: "nat \<Rightarrow> bytes" where
  "zeros n = replicate n 0"

lemma length_zeros [simp, byte_simps]: "length (zeros n) = n"
  by (simp add: zeros_def)

lemma nth_zeros [simp]: "i < n \<Longrightarrow> zeros n ! i = 0"
  by (simp add: zeros_def)

lemma length_window [byte_simps]: "length (window off n xs) = min n (length xs - off)"
  by (simp add: window_def)

lemma length_window_eq [simp]: "off + n \<le> length xs \<Longrightarrow> length (window off n xs) = n"
  by (simp add: window_def)

lemma nth_window [simp]: "i < n \<Longrightarrow> off + i < length xs \<Longrightarrow> window off n xs ! i = xs ! (off + i)"
  by (simp add: window_def)

lemma window_0 [simp]: "window off 0 xs = []"
  by (simp add: window_def)

lemma window_all [simp]: "window 0 (length xs) xs = xs"
  by (simp add: window_def)

lemma window_all': "n = length xs \<Longrightarrow> window 0 n xs = xs"
  by (simp add: window_def)

lemma window_split: "window off (a + b) xs = window off a xs @ window (off + a) b xs"
  by (simp add: window_def take_add add.commute)

lemma window_split_le: "a \<le> n \<Longrightarrow> window off a xs @ window (off + a) (n - a) xs = window off n xs"
  using window_split [of off a "n - a" xs] by simp

lemma window_window: "a + b \<le> n \<Longrightarrow> window a b (window off n xs) = window (off + a) b xs"
  by (simp add: window_def drop_take take_take add.commute min_def)

lemma window_append1: "off + n \<le> length xs \<Longrightarrow> window off n (xs @ ys) = window off n xs"
  by (simp add: window_def)

lemma window_append2: "length xs \<le> off \<Longrightarrow> window off n (xs @ ys) = window (off - length xs) n ys"
  by (simp add: window_def)

lemma window_zeros: "off + n \<le> k \<Longrightarrow> window off n (zeros k) = zeros n"
  by (simp add: window_def zeros_def)

lemma window_replicate: "off + n \<le> k \<Longrightarrow> window off n (replicate k x) = replicate n x"
  by (simp add: window_def)

lemma length_put: "off + length src \<le> length dst \<Longrightarrow> length (put off src dst) = length dst"
  by (simp add: put_def)

lemma nth_put:
  "off + length src \<le> length dst \<Longrightarrow> i < length dst \<Longrightarrow>
    put off src dst ! i = (if off \<le> i \<and> i < off + length src then src ! (i - off) else dst ! i)"
  by (auto simp: put_def nth_append)

lemma put_Nil [simp]: "put off [] dst = dst"
  by (simp add: put_def)

lemma window_put_same:
  "off + length src \<le> length dst \<Longrightarrow> window off (length src) (put off src dst) = src"
  by (simp add: window_def put_def)

lemma window_put_same':
  "off + n \<le> length dst \<Longrightarrow> n = length src \<Longrightarrow> window off n (put off src dst) = src"
  by (simp add: window_put_same)

lemma window_put_before:
  "a + n \<le> off \<Longrightarrow> off \<le> length dst \<Longrightarrow> window a n (put off src dst) = window a n dst"
  by (simp add: window_def put_def drop_take)

lemma window_put_after:
  "off + length src \<le> a \<Longrightarrow> off + length src \<le> length dst \<Longrightarrow>
    window a n (put off src dst) = window a n dst"
  by (simp add: window_def put_def)

lemma put_put_adjacent:
  "off + length a + length b \<le> length dst \<Longrightarrow>
    put (off + length a) b (put off a dst) = put off (a @ b) dst"
  by (rule nth_equalityI) (auto simp: nth_put length_put nth_append)

lemma put_put_window:
  "off + n \<le> length xs \<Longrightarrow> w + length src \<le> n \<Longrightarrow>
    put off (put w src (window off n xs)) xs = put (off + w) src xs"
  by (rule nth_equalityI) (auto simp: nth_put length_put)

lemma put_commute:
  "a + length xs \<le> b \<or> b + length ys \<le> a \<Longrightarrow> a + length xs \<le> length d \<Longrightarrow>
    b + length ys \<le> length d \<Longrightarrow> put a xs (put b ys d) = put b ys (put a xs d)"
  by (rule nth_equalityI) (auto simp: nth_put length_put)

lemma put_put_same: "length xs = length ys \<Longrightarrow> off + length xs \<le> length d \<Longrightarrow>
    put off xs (put off ys d) = put off xs d"
  by (rule nth_equalityI) (auto simp: nth_put length_put)

lemma put_window_self: "off + n \<le> length d \<Longrightarrow> put off (window off n d) d = d"
  by (rule nth_equalityI) (auto simp: nth_put length_put)

lemma window_put_disjoint:
  "a + n \<le> off \<or> off + length src \<le> a \<Longrightarrow> off + length src \<le> length dst \<Longrightarrow>
    window a n (put off src dst) = window a n dst"
  by (auto intro: window_put_before window_put_after)

lemma put_whole: "length src = length dst \<Longrightarrow> put 0 src dst = src"
  by (simp add: put_def)

lemma window_nth_eqI:
  "length xs = n \<Longrightarrow> (\<And>i. i < n \<Longrightarrow> xs ! i = f (off + i)) \<Longrightarrow>
    xs = map f [off..<off + n]"
  by (rule nth_equalityI) auto

text \<open>Records of one size, one after the other.\<close>

lemma length_concat_fixed: "\<forall>x \<in> set xs. length x = n \<Longrightarrow> length (concat xs) = n * length xs"
  by (induction xs) auto

lemma window_concat_fixed:
  "\<forall>x \<in> set xs. length x = n \<Longrightarrow> i < length xs \<Longrightarrow> window (n * i) n (concat xs) = xs ! i"
proof (induction xs arbitrary: i)
  case (Cons x xs)
  show ?case
  proof (cases i)
    case (Suc j)
    with Cons show ?thesis by (simp add: window_append2)
  qed (use Cons.prems in \<open>simp add: window_append1 window_all'\<close>)
qed simp

subsection \<open>Filling a fixed-size buffer\<close>

text \<open>
  A sequence of \<open>copy_from_slice\<close> writes into a buffer of fixed size, in program order. The
  window and byte rules evaluate a field of the result when each write is inside the buffer and
  either covers the field or misses it.
\<close>

fun puts :: "(nat \<times> 'a list) list \<Rightarrow> 'a list \<Rightarrow> 'a list" where
  "puts [] d = d"
| "puts (p # ps) d = puts ps (put (fst p) (snd p) d)"

definition puts_fit :: "nat \<Rightarrow> (nat \<times> 'a list) list \<Rightarrow> bool" where
  "puts_fit n ps \<longleftrightarrow> list_all (\<lambda>p. fst p + length (snd p) \<le> n) ps"

definition puts_clear :: "nat \<Rightarrow> nat \<Rightarrow> (nat \<times> 'a list) list \<Rightarrow> bool" where
  "puts_clear a n ps \<longleftrightarrow> list_all (\<lambda>p.
     (fst p \<le> a \<and> a + n \<le> fst p + length (snd p)) \<or> a + n \<le> fst p \<or> fst p + length (snd p) \<le> a) ps"

definition puts_field :: "nat \<Rightarrow> nat \<Rightarrow> (nat \<times> 'a list) list \<Rightarrow> 'a list \<Rightarrow> 'a list" where
  "puts_field a n ps w = foldl (\<lambda>w p.
     if fst p \<le> a \<and> a + n \<le> fst p + length (snd p) then window (a - fst p) n (snd p) else w) w ps"

lemma length_puts: "puts_fit (length d) ps \<Longrightarrow> length (puts ps d) = length d"
  by (induction ps arbitrary: d) (auto simp: puts_fit_def length_put)

lemma window_put_inside:
  "off \<le> a \<Longrightarrow> a + n \<le> off + length src \<Longrightarrow> off + length src \<le> length dst \<Longrightarrow>
    window a n (put off src dst) = window (a - off) n src"
  by (rule nth_equalityI) (auto simp: length_window length_put nth_put)

lemma window_puts:
  "0 < n \<Longrightarrow> puts_fit (length d) ps \<Longrightarrow> puts_clear a n ps \<Longrightarrow>
    window a n (puts ps d) = puts_field a n ps (window a n d)"
proof (induction ps arbitrary: d)
  case (Cons p ps)
  have len: "length (put (fst p) (snd p) d) = length d"
    using Cons.prems by (simp add: puts_fit_def length_put)
  have "window a n (put (fst p) (snd p) d) =
      (if fst p \<le> a \<and> a + n \<le> fst p + length (snd p) then window (a - fst p) n (snd p) else window a n d)"
    using Cons.prems
    by (auto simp: puts_fit_def puts_clear_def window_put_inside intro: window_put_disjoint)
  moreover have "window a n (puts ps (put (fst p) (snd p) d))
      = puts_field a n ps (window a n (put (fst p) (snd p) d))"
    using Cons.prems len by (intro Cons.IH) (auto simp: puts_fit_def puts_clear_def)
  ultimately show ?case by (simp add: puts_field_def)
qed (simp add: puts_field_def)

declare puts.simps [simp del]

lemma window_1: "a < length d \<Longrightarrow> window a 1 d = [d ! a]"
  by (rule nth_equalityI) (simp_all add: length_window)

lemmas puts_eval = puts_fit_def puts_clear_def puts_field_def window_def

section \<open>Byte order\<close>

definition be_val :: "bytes \<Rightarrow> nat" where
  "be_val bs = foldl (\<lambda>a b. a * 256 + unat b) 0 bs"

definition le_val :: "bytes \<Rightarrow> nat" where
  "le_val bs = be_val (rev bs)"

fun be_bytes :: "nat \<Rightarrow> nat \<Rightarrow> bytes" where
  "be_bytes 0 v = []"
| "be_bytes (Suc n) v = be_bytes n (v div 256) @ [of_nat v]"

definition le_bytes :: "nat \<Rightarrow> nat \<Rightarrow> bytes" where
  "le_bytes n v = rev (be_bytes n v)"

lemma be_val_Nil [simp]: "be_val [] = 0"
  by (simp add: be_val_def)

lemma be_val_snoc: "be_val (xs @ [b]) = be_val xs * 256 + unat b"
  by (simp add: be_val_def)

lemma length_be_bytes [simp, byte_simps]: "length (be_bytes n v) = n"
  by (induction n arbitrary: v) auto

lemma length_le_bytes [simp, byte_simps]: "length (le_bytes n v) = n"
  by (simp add: le_bytes_def)

lemma unat_u8_lt: "unat (b :: u8) < 256"
  using unsigned_less [of b, where ?'a = nat] by simp

lemma be_val_bound: "be_val bs < 256 ^ length bs"
proof (induction bs rule: rev_induct)
  case (snoc b bs)
  then have "be_val bs * 256 + 256 \<le> 256 ^ length bs * 256"
    using mult_le_mono1 [of "Suc (be_val bs)" "256 ^ length bs" 256] by simp
  then show ?case using unat_u8_lt [of b] by (simp add: be_val_snoc)
qed simp

lemma unat_of_nat_u8: "unat (of_nat v :: u8) = v mod 256"
  by (simp add: unat_of_nat)

lemma be_val_be_bytes_mod: "be_val (be_bytes n v) = v mod 256 ^ n"
proof (induction n arbitrary: v)
  case (Suc n)
  have "v mod (256 * 256 ^ n) = 256 * (v div 256 mod 256 ^ n) + v mod 256"
    by (rule mod_mult2_eq)
  with Suc show ?case by (simp add: be_val_snoc unat_of_nat_u8)
qed simp

lemma be_val_be_bytes [simp, byte_simps]: "v < 256 ^ n \<Longrightarrow> be_val (be_bytes n v) = v"
  by (simp add: be_val_be_bytes_mod)

lemma be_bytes_be_val: "be_bytes (length bs) (be_val bs) = bs"
proof (induction bs rule: rev_induct)
  case (snoc b bs)
  have "(be_val bs * 256 + unat b) div 256 = be_val bs"
    using unat_u8_lt [of b] by simp
  moreover have "(of_nat (be_val bs * 256 + unat b) :: u8) = b"
  proof -
    have "(of_nat (be_val bs * 256) :: u8) = 0"
      by (simp only: word_unat_eq_iff unat_of_nat) simp
    then show ?thesis by (simp only: of_nat_add) simp
  qed
  ultimately show ?case using snoc by (simp add: be_val_snoc)
qed simp

lemma le_val_le_bytes [simp, byte_simps]: "v < 256 ^ n \<Longrightarrow> le_val (le_bytes n v) = v"
  by (simp add: le_val_def le_bytes_def)

lemma le_val_bound: "le_val bs < 256 ^ length bs"
  using be_val_bound [of "rev bs"] by (simp add: le_val_def)

lemma be_val_window_bound: "be_val (window off n bs) < 256 ^ n"
proof -
  have "be_val (window off n bs) < 256 ^ length (window off n bs)" by (rule be_val_bound)
  also have "\<dots> \<le> 256 ^ n" by (rule power_increasing) (simp_all add: window_def)
  finally show ?thesis .
qed

lemma be_val_inj: "length xs = length ys \<Longrightarrow> be_val xs = be_val ys \<Longrightarrow> xs = ys"
  by (metis be_bytes_be_val)

end
