(* ===== verification/Rust_Str.thy ===== *)
theory Rust_Str
  imports Prelude
begin

text \<open>
  The parts of Rust's string library the program uses, on UTF-8 byte lists: ASCII classes and
  case folding, splitting and stripping, trimming, decimal parsing and printing, and
  \<open>String::from_utf8_lossy\<close>.
\<close>

text \<open>String and byte-string literals: the UTF-8 bytes of an ASCII literal.\<close>

definition ascii :: "string \<Rightarrow> bytes" where
  "ascii s = map of_char s"

lemma length_ascii [simp, byte_simps]: "length (ascii s) = length s"
  by (simp add: ascii_def)

lemma ascii_Nil [simp]: "ascii [] = []"
  by (simp add: ascii_def)

lemma ascii_Cons [simp]: "ascii (c # cs) = of_char c # ascii cs"
  by (simp add: ascii_def)

definition is_ascii :: "rstr \<Rightarrow> bool" where
  "is_ascii s \<longleftrightarrow> list_all (\<lambda>b. b < 128) s"

definition is_ascii_digit :: "u8 \<Rightarrow> bool" where
  "is_ascii_digit b \<longleftrightarrow> 48 \<le> b \<and> b \<le> 57"

definition is_ascii_hexdigit :: "u8 \<Rightarrow> bool" where
  "is_ascii_hexdigit b \<longleftrightarrow>
     is_ascii_digit b \<or> (65 \<le> b \<and> b \<le> 70) \<or> (97 \<le> b \<and> b \<le> 102)"

definition ascii_lower :: "u8 \<Rightarrow> u8" where
  "ascii_lower b = (if 65 \<le> b \<and> b \<le> 90 then b + 32 else b)"

definition ascii_upper :: "u8 \<Rightarrow> u8" where
  "ascii_upper b = (if 97 \<le> b \<and> b \<le> 122 then b - 32 else b)"

definition eq_ignore_ascii_case :: "rstr \<Rightarrow> rstr \<Rightarrow> bool" where
  "eq_ignore_ascii_case s t \<longleftrightarrow> map ascii_lower s = map ascii_lower t"

text \<open>
  \<open>str::to_lowercase\<close> folds ASCII letters; on a string with other characters it follows the
  Unicode tables, which are the parameter \<open>uni\<close>.
\<close>

definition to_lowercase :: "(rstr \<Rightarrow> rstr) \<Rightarrow> rstr \<Rightarrow> rstr" where
  "to_lowercase uni s = (if is_ascii s then map ascii_lower s else uni s)"

text \<open>\<open>slice::split\<close> and \<open>str::split\<close> on separator bytes: there is always at least one piece.\<close>

fun split_on :: "('a \<Rightarrow> bool) \<Rightarrow> 'a list \<Rightarrow> 'a list list" where
  "split_on p [] = [[]]"
| "split_on p (x # xs) =
     (if p x then [] # split_on p xs
      else (case split_on p xs of [] \<Rightarrow> [[x]] | y # ys \<Rightarrow> (x # y) # ys))"

fun strip_prefix :: "'a list \<Rightarrow> 'a list \<Rightarrow> 'a list option" where
  "strip_prefix [] xs = Some xs"
| "strip_prefix (p # ps) [] = None"
| "strip_prefix (p # ps) (x # xs) = (if p = x then strip_prefix ps xs else None)"

definition strip_suffix :: "'a list \<Rightarrow> 'a list \<Rightarrow> 'a list option" where
  "strip_suffix suf xs = map_option rev (strip_prefix (rev suf) (rev xs))"

definition starts_with :: "'a list \<Rightarrow> 'a list \<Rightarrow> bool" where
  "starts_with p xs \<longleftrightarrow> strip_prefix p xs \<noteq> None"

fun position :: "('a \<Rightarrow> bool) \<Rightarrow> 'a list \<Rightarrow> nat option" where
  "position p [] = None"
| "position p (x # xs) = (if p x then Some 0 else map_option Suc (position p xs))"

text \<open>
  \<open>str::parse\<close> for an unsigned type with maximum \<open>lim - 1\<close>: an optional \<open>+\<close>, then one or
  more decimal digits, \<open>None\<close> on anything else or on overflow.
\<close>

definition parse_uint :: "nat \<Rightarrow> rstr \<Rightarrow> nat option" where
  "parse_uint lim s =
     (let ds = (case s of [] \<Rightarrow> [] | c # cs \<Rightarrow> if c = 43 then cs else s) in
      if ds = [] \<or> \<not> list_all is_ascii_digit ds then None
      else let v = foldl (\<lambda>a d. a * 10 + (unat d - 48)) 0 ds in
        if v < lim then Some v else None)"

text \<open>\<open>to_string\<close> of an unsigned integer.\<close>

fun dec :: "nat \<Rightarrow> rstr" where
  "dec n = (if n < 10 then [of_nat (48 + n)] else dec (n div 10) @ [of_nat (48 + n mod 10)])"

declare dec.simps [simp del]

lemma length_dec: "n < 10 ^ Suc k \<Longrightarrow> length (dec n) \<le> Suc k"
proof (induction k arbitrary: n)
  case (Suc k)
  then have "n div 10 < 10 ^ Suc k" by (simp add: less_mult_imp_div_less)
  then show ?case using Suc.IH [of "n div 10"] by (simp add: dec.simps [of n])
qed (simp add: dec.simps)

text \<open>\<open>str::trim\<close>: strip the characters of the Unicode property \<open>White_Space\<close>.\<close>

definition ws_chars :: "rstr list" where
  "ws_chars = map (\<lambda>b. [b]) [9, 10, 11, 12, 13, 32]
     @ [[194, 133], [194, 160], [225, 154, 128]]
     @ map (\<lambda>b. [226, 128, b]) [128, 129, 130, 131, 132, 133, 134, 135, 136, 137, 138, 168, 169, 175]
     @ [[226, 129, 159], [227, 128, 128]]"

fun strip_first :: "rstr list \<Rightarrow> rstr \<Rightarrow> rstr option" where
  "strip_first [] s = None"
| "strip_first (w # ws) s =
     (case strip_prefix w s of Some r \<Rightarrow> Some r | None \<Rightarrow> strip_first ws s)"

fun trim_with :: "nat \<Rightarrow> rstr list \<Rightarrow> rstr \<Rightarrow> rstr" where
  "trim_with 0 ws s = s"
| "trim_with (Suc n) ws s =
     (case strip_first ws s of None \<Rightarrow> s | Some r \<Rightarrow> trim_with n ws r)"

definition trim :: "rstr \<Rightarrow> rstr" where
  "trim s =
     (let l = trim_with (length s) ws_chars s in
      rev (trim_with (length l) (map rev ws_chars) (rev l)))"

text \<open>
  \<open>String::from_utf8_lossy\<close>: a well-formed sequence is copied, a maximal ill-formed prefix is
  replaced by U+FFFD. \<open>utf8_chunk\<close> classifies the sequence at the front: whether it is
  well-formed, and how many bytes it takes.
\<close>

definition byte_at :: "bytes \<Rightarrow> nat \<Rightarrow> u8" where
  "byte_at bs i = (if i < length bs then bs ! i else 0)"

definition is_cont :: "u8 \<Rightarrow> bool" where
  "is_cont b \<longleftrightarrow> 128 \<le> b \<and> b \<le> 191"

definition utf8_second_ok :: "u8 \<Rightarrow> u8 \<Rightarrow> bool" where
  "utf8_second_ok b0 b1 =
     (if b0 = 224 then 160 \<le> b1 \<and> b1 \<le> 191
      else if b0 = 237 then 128 \<le> b1 \<and> b1 \<le> 159
      else if b0 = 240 then 144 \<le> b1 \<and> b1 \<le> 191
      else if b0 = 244 then 128 \<le> b1 \<and> b1 \<le> 143
      else is_cont b1)"

definition utf8_chunk :: "bytes \<Rightarrow> bool \<times> nat" where
  "utf8_chunk bs =
     (let b0 = byte_at bs 0; b1 = byte_at bs 1; b2 = byte_at bs 2; b3 = byte_at bs 3 in
      if b0 < 128 then (True, 1)
      else if 194 \<le> b0 \<and> b0 \<le> 223 then
        (if is_cont b1 then (True, 2) else (False, 1))
      else if 224 \<le> b0 \<and> b0 \<le> 239 then
        (if \<not> utf8_second_ok b0 b1 then (False, 1)
         else if \<not> is_cont b2 then (False, 2) else (True, 3))
      else if 240 \<le> b0 \<and> b0 \<le> 244 then
        (if \<not> utf8_second_ok b0 b1 then (False, 1)
         else if \<not> is_cont b2 then (False, 2)
         else if \<not> is_cont b3 then (False, 3) else (True, 4))
      else (False, 1))"

lemma utf8_chunk_pos: "0 < snd (utf8_chunk bs)"
  by (simp add: utf8_chunk_def Let_def)

function from_utf8_lossy :: "bytes \<Rightarrow> rstr" where
  "from_utf8_lossy bs =
     (if bs = [] then []
      else let (ok, n) = utf8_chunk bs in
        (if ok then take n bs else [239, 191, 189]) @ from_utf8_lossy (drop n bs))"
  by pat_completeness auto
termination
proof (relation "measure length")
  fix bs :: bytes and x ok n
  assume "bs \<noteq> []" and "x = utf8_chunk bs" and "(ok, n) = x"
  then have "0 < n" using utf8_chunk_pos [of bs] by (metis snd_conv)
  with \<open>bs \<noteq> []\<close> show "(drop n bs, bs) \<in> measure length" by simp
qed simp

declare from_utf8_lossy.simps [simp del]

text \<open>A byte list is a Rust \<open>String\<close> when lossy decoding keeps it.\<close>

definition is_utf8 :: "bytes \<Rightarrow> bool" where
  "is_utf8 bs \<longleftrightarrow> from_utf8_lossy bs = bs"

lemma from_utf8_lossy_Nil [simp]: "from_utf8_lossy [] = []"
  by (simp add: from_utf8_lossy.simps)

lemma from_utf8_lossy_ascii_Cons: "b < 128 \<Longrightarrow> from_utf8_lossy (b # bs) = b # from_utf8_lossy bs"
  by (subst from_utf8_lossy.simps) (simp add: utf8_chunk_def byte_at_def)

lemma from_utf8_lossy_ascii: "is_ascii bs \<Longrightarrow> from_utf8_lossy bs = bs"
  by (induction bs) (simp_all add: is_ascii_def from_utf8_lossy_ascii_Cons)

lemma is_ascii_is_utf8: "is_ascii bs \<Longrightarrow> is_utf8 bs"
  by (simp add: is_utf8_def from_utf8_lossy_ascii)

lemma from_utf8_lossy_eq_Nil [simp]: "from_utf8_lossy bs = [] \<longleftrightarrow> bs = []"
proof
  assume e: "from_utf8_lossy bs = []"
  show "bs = []"
  proof (rule ccontr)
    assume "bs \<noteq> []"
    with e show False
      using utf8_chunk_pos [of bs]
      by (simp add: from_utf8_lossy.simps [of bs] split: prod.splits if_splits)
  qed
qed simp

section \<open>Splitting, stripping and searching\<close>

lemma split_on_neq_Nil [simp]: "split_on p xs \<noteq> []"
  by (induction xs) (auto split: list.splits)

lemma split_on_no_sep: "(\<And>x. x \<in> set xs \<Longrightarrow> \<not> p x) \<Longrightarrow> split_on p xs = [xs]"
  by (induction xs) auto

lemma split_on_append:
  "(\<And>x. x \<in> set xs \<Longrightarrow> \<not> p x) \<Longrightarrow> p s \<Longrightarrow> split_on p (xs @ s # ys) = xs # split_on p ys"
  by (induction xs) auto

lemma split_on_piece: "ys \<in> set (split_on p xs) \<Longrightarrow> y \<in> set ys \<Longrightarrow> \<not> p y"
  by (induction xs arbitrary: ys) (fastforce split: if_splits list.splits)+

lemma split_on_piece_subset: "ys \<in> set (split_on p xs) \<Longrightarrow> set ys \<subseteq> set xs"
  by (induction xs arbitrary: ys) (fastforce split: if_splits list.splits)+

lemma strip_prefix_Some: "strip_prefix p xs = Some r \<longleftrightarrow> xs = p @ r"
  by (induction p xs rule: strip_prefix.induct) auto

lemma strip_suffix_Some: "strip_suffix p xs = Some r \<longleftrightarrow> xs = r @ p"
proof -
  have "strip_suffix p xs = Some r \<longleftrightarrow> rev xs = rev p @ rev r"
    by (auto simp: strip_suffix_def strip_prefix_Some)
  also have "\<dots> \<longleftrightarrow> xs = r @ p" by (metis rev_append rev_rev_ident)
  finally show ?thesis .
qed

lemma starts_with_iff: "starts_with p xs \<longleftrightarrow> (\<exists>r. xs = p @ r)"
  by (auto simp: starts_with_def strip_prefix_Some)

lemma starts_with_single: "starts_with [c] xs \<longleftrightarrow> xs \<noteq> [] \<and> hd xs = c"
  by (cases xs) (auto simp: starts_with_iff)

lemma position_Some:
  "position p xs = Some i \<longleftrightarrow> i < length xs \<and> p (xs ! i) \<and> (\<forall>j<i. \<not> p (xs ! j))"
proof (induction xs arbitrary: i)
  case (Cons x xs)
  then show ?case by (cases i) (auto simp: less_Suc_eq_0_disj nth_Cons' split: if_splits)
qed simp

lemma position_None: "position p xs = None \<longleftrightarrow> (\<forall>x\<in>set xs. \<not> p x)"
  by (induction xs) auto

lemma position_append_first:
  "(\<And>x. x \<in> set xs \<Longrightarrow> \<not> p x) \<Longrightarrow> p s \<Longrightarrow> position p (xs @ s # ys) = Some (length xs)"
  by (induction xs) auto

section \<open>Decimal numbers\<close>

definition digits_val :: "rstr \<Rightarrow> nat" where
  "digits_val ds = foldl (\<lambda>a d. a * 10 + (unat d - 48)) 0 ds"

lemma unat_dec_digit: "d < 10 \<Longrightarrow> unat (of_nat (48 + d) :: u8) = 48 + d"
  by (simp add: unat_of_nat_u8 del: of_nat_add of_nat_numeral)

lemma is_ascii_digit_dec: "d < 10 \<Longrightarrow> is_ascii_digit (of_nat (48 + d))"
  by (simp add: is_ascii_digit_def word_le_nat_alt unat_dec_digit del: of_nat_add)

lemma dec_digits: "list_all is_ascii_digit (dec n)"
proof (induction n rule: dec.induct)
  case (1 n)
  show ?case
  proof (cases "n < 10")
    case True
    then show ?thesis by (subst dec.simps) (simp add: is_ascii_digit_dec del: of_nat_add)
  next
    case False
    with "1.IH" show ?thesis
      by (subst dec.simps) (simp add: is_ascii_digit_dec del: of_nat_add)
  qed
qed

lemma dec_neq_Nil [simp]: "dec n \<noteq> []"
  by (subst dec.simps) simp

lemma digits_val_dec: "digits_val (dec n) = n"
proof (induction n rule: dec.induct)
  case (1 n)
  show ?case
  proof (cases "n < 10")
    case True
    then show ?thesis
      by (subst dec.simps) (simp add: digits_val_def unat_dec_digit del: of_nat_add)
  next
    case False
    with "1.IH" show ?thesis
      by (subst dec.simps) (simp add: digits_val_def unat_dec_digit del: of_nat_add)
  qed
qed

lemma is_ascii_digit_range: "is_ascii_digit b \<Longrightarrow> 48 \<le> unat b \<and> unat b \<le> 57"
  by (simp add: is_ascii_digit_def word_le_nat_alt)

lemma is_ascii_digit_neq: "is_ascii_digit b \<Longrightarrow> b \<noteq> 43 \<and> b \<noteq> 0 \<and> b \<noteq> 46 \<and> b \<noteq> 58"
  by (auto simp: is_ascii_digit_def)

lemma is_ascii_dec: "is_ascii (dec n)"
  using dec_digits [of n]
  by (auto simp: is_ascii_def list_all_iff word_less_nat_alt dest!: bspec is_ascii_digit_range)

lemma parse_uint_digits:
  "ds \<noteq> [] \<Longrightarrow> list_all is_ascii_digit ds \<Longrightarrow>
    parse_uint lim ds = (if digits_val ds < lim then Some (digits_val ds) else None)"
  by (cases ds) (auto simp: parse_uint_def digits_val_def Let_def dest: is_ascii_digit_neq)

text \<open>Printing then parsing is the identity, in range.\<close>

lemma parse_uint_dec: "n < lim \<Longrightarrow> parse_uint lim (dec n) = Some n"
  by (simp add: parse_uint_digits dec_digits digits_val_dec)

lemma parse_uint_bound: "parse_uint lim s = Some v \<Longrightarrow> v < lim"
  by (auto simp: parse_uint_def Let_def split: if_splits)

end
