(* ===== verification/Storage.thy ===== *)
theory Storage
  imports Rust_Str
begin

text \<open>
  Backing stores (\<open>storage/mod.rs\<close>, \<open>file_ext.rs\<close>, \<open>blockmap.rs\<close>, \<open>raw.rs\<close>): the read-only
  sources of disk-image bytes. A \<open>File\<close> is the byte list it holds; image files are opened
  read-only and not modified while the server runs. A \<open>Box<dyn BackingStore>\<close> is the record of
  its two methods. The contract every store promises its clients is the locale
  \<open>backing_store\<close>: its content is a fixed byte list, an in-range read returns the slice, and an
  out-of-range read is an error.
\<close>

section \<open>Files\<close>

type_synonym file_data = bytes

text \<open>
  \<open>read_exact_at\<close>: fill the buffer from \<open>offset\<close> or fail with \<open>UnexpectedEof\<close>. Filling an empty
  buffer reads nothing and succeeds wherever it points.
\<close>

definition read_exact_at :: "file_data \<Rightarrow> nat \<Rightarrow> nat \<Rightarrow> bytes io" where
  "read_exact_at f offset len =
     (if len = 0 then Inr []
      else if offset + len \<le> length f then Inr (window offset len f)
      else Inl UnexpectedEof)"

lemma read_exact_at_in: "offset + len \<le> length f \<Longrightarrow> read_exact_at f offset len = Inr (window offset len f)"
  by (simp add: read_exact_at_def)

lemma read_exact_at_Inr:
  "read_exact_at f offset len = Inr bs \<Longrightarrow> bs = window offset len f \<and> length bs = len"
  by (auto simp: read_exact_at_def split: if_splits)

lemma read_exact_at_split:
  "read_exact_at f off (a + b) = Inr bs \<Longrightarrow>
    read_exact_at f off a = Inr (take a bs) \<and> read_exact_at f (off + a) b = Inr (drop a bs)"
  by (auto simp: read_exact_at_def window_def take_drop min_def ac_simps split: if_splits)

section \<open>The trait and its contract\<close>

record backing =
  bs_size :: nat
  bs_read :: "nat \<Rightarrow> nat \<Rightarrow> bytes io"

text \<open>Clients rely on nothing but this contract.\<close>

locale backing_store =
  fixes size_of :: "'s \<Rightarrow> nat"
    and read_at :: "'s \<Rightarrow> nat \<Rightarrow> nat \<Rightarrow> bytes io"
    and content :: "'s \<Rightarrow> bytes"
    and valid :: "'s \<Rightarrow> bool"
  assumes content_length: "valid s \<Longrightarrow> length (content s) = size_of s"
    and read_in_range:
      "valid s \<Longrightarrow> off + len \<le> size_of s \<Longrightarrow> read_at s off len = Inr (window off len (content s))"
    and read_out_of_range:
      "valid s \<Longrightarrow> size_of s < off + len \<Longrightarrow> read_at s off len = Inl InvalidData"
begin

lemma read_length:
  assumes "valid s" and "read_at s off len = Inr bs"
  shows "length bs = len"
proof (cases "off + len \<le> size_of s")
  case True
  with assms content_length [OF assms(1)] show ?thesis
    by (auto simp: read_in_range)
next
  case False
  with assms show ?thesis by (simp add: read_out_of_range)
qed

text \<open>A read can be cut anywhere: the pieces of a range are the range.\<close>

lemma read_compose:
  assumes "valid s" and "off + a + b \<le> size_of s"
  shows "read_at s off (a + b) =
    (case (read_at s off a, read_at s (off + a) b) of
       (Inr xs, Inr ys) \<Rightarrow> Inr (xs @ ys) | _ \<Rightarrow> Inl InvalidData)"
  using assms by (simp add: read_in_range window_split add.assoc)

lemma read_not_stuck:
  "valid s \<Longrightarrow> read_at s off len \<noteq> Inl Panicked \<and> read_at s off len \<noteq> Inl Diverged"
  by (cases "off + len \<le> size_of s") (simp_all add: read_in_range read_out_of_range)

lemma read_whole: "valid s \<Longrightarrow> read_at s 0 (size_of s) = Inr (content s)"
  using content_length [of s] by (simp add: read_in_range window_all')

end

text \<open>
  The trait object itself. \<open>disk_bytes\<close> reads the whole disk; \<open>serves\<close> says that the object
  behaves as the disk it reads.
\<close>

definition disk_bytes :: "backing \<Rightarrow> bytes" where
  "disk_bytes b = (case bs_read b 0 (bs_size b) of Inl _ \<Rightarrow> [] | Inr bs \<Rightarrow> bs)"

definition serves :: "backing \<Rightarrow> bool" where
  "serves b \<longleftrightarrow>
     length (disk_bytes b) = bs_size b \<and>
     (\<forall>off len. bs_read b off len =
        (if off + len \<le> bs_size b then Inr (window off len (disk_bytes b)) else Inl InvalidData))"

interpretation dyn: backing_store bs_size bs_read disk_bytes serves
  by unfold_locales (simp_all add: serves_def)

text \<open>Boxing a store that keeps the contract gives a trait object that serves the same content.\<close>

definition box_dyn :: "('s \<Rightarrow> nat) \<Rightarrow> ('s \<Rightarrow> nat \<Rightarrow> nat \<Rightarrow> bytes io) \<Rightarrow> 's \<Rightarrow> backing" where
  "box_dyn sz rd s = \<lparr>bs_size = sz s, bs_read = rd s\<rparr>"

context backing_store
begin

lemma box_dyn_content: "valid s \<Longrightarrow> disk_bytes (box_dyn size_of read_at s) = content s"
  by (simp add: disk_bytes_def box_dyn_def read_whole)

lemma box_dyn_serves: "valid s \<Longrightarrow> serves (box_dyn size_of read_at s)"
  using box_dyn_content [of s] content_length [of s] read_in_range [of s] read_out_of_range [of s]
  by (simp add: serves_def) (simp add: box_dyn_def)

end

section \<open>Allocation units\<close>

text \<open>
  The loop of \<open>read_units\<close> and of \<open>ChainedVhd::read_at\<close>: the buffer is filled left to right, one
  allocation unit (or part of one) at a time. \<open>body pos n\<close> produces the \<open>n\<close> bytes at \<open>pos\<close>, all
  inside one unit. The recursion is on the part of the buffer not yet filled.
\<close>

function unit_loop :: "nat \<Rightarrow> (nat \<Rightarrow> nat \<Rightarrow> bytes io) \<Rightarrow> nat \<Rightarrow> nat \<Rightarrow> bytes io" where
  "unit_loop unit_size body pos remaining =
     (if remaining = 0 then Inr []
      else
        let within = pos mod unit_size;
            take_n = min (unit_size - within) remaining
        in if take_n = 0 then Inl Diverged
           else case body pos take_n of
             Inl e \<Rightarrow> Inl e
           | Inr chunk \<Rightarrow>
               (case unit_loop unit_size body (pos + take_n) (remaining - take_n) of
                  Inl e \<Rightarrow> Inl e
                | Inr rest \<Rightarrow> Inr (chunk @ rest)))"
  by pat_completeness auto
termination
  by (relation "measure (\<lambda>(u, b, pos, remaining). remaining)") auto

declare unit_loop.simps [simp del]

text \<open>
  The loop computes the slice of any disk each of whose in-unit chunks it can read. This is the
  one induction behind every sparse format.
\<close>

lemma unit_loop_window:
  assumes "0 < unit_size"
    and chunk: "\<And>p n. 0 < n \<Longrightarrow> p + n \<le> length disk \<Longrightarrow> p mod unit_size + n \<le> unit_size \<Longrightarrow>
      body p n = Inr (window p n disk)"
    and "pos + remaining \<le> length disk"
  shows "unit_loop unit_size body pos remaining = Inr (window pos remaining disk)"
  using assms(3)
proof (induction remaining arbitrary: pos rule: less_induct)
  case (less remaining)
  show ?case
  proof (cases "remaining = 0")
    case True
    then show ?thesis by (simp add: unit_loop.simps)
  next
    case False
    define n where "n = min (unit_size - pos mod unit_size) remaining"
    have lt: "pos mod unit_size < unit_size" using assms(1) by simp
    have n: "0 < n" "n \<le> remaining" "pos mod unit_size + n \<le> unit_size"
      using False lt by (auto simp: n_def)
    have "body pos n = Inr (window pos n disk)"
      using n less.prems by (intro chunk) auto
    moreover have "unit_loop unit_size body (pos + n) (remaining - n)
        = Inr (window (pos + n) (remaining - n) disk)"
      using n False less.prems by (intro less.IH) auto
    ultimately show ?thesis
      using False n
      by (simp add: unit_loop.simps [of _ _ pos] n_def [symmetric] Let_def window_split_le)
  qed
qed

text \<open>The loop makes progress on every positive unit size, so it fails only where its body does.\<close>

lemma unit_loop_error:
  assumes "0 < unit_size" and "unit_loop unit_size body pos remaining = Inl e"
  shows "\<exists>p n. body p n = Inl e"
  using assms(2)
proof (induction remaining arbitrary: pos rule: less_induct)
  case (less remaining)
  define n where "n = min (unit_size - pos mod unit_size) remaining"
  have ne: "remaining \<noteq> 0"
  proof
    assume "remaining = 0"
    with less.prems show False by (simp add: unit_loop.simps)
  qed
  have "pos mod unit_size < unit_size" using assms(1) by simp
  with ne have n: "0 < n" "remaining - n < remaining" by (auto simp: n_def)
  show ?case
  proof (cases "body pos n")
    case (Inl e')
    with less.prems ne n show ?thesis
      by (auto simp: unit_loop.simps [of _ _ pos] n_def [symmetric] Let_def)
  next
    case (Inr chunk)
    with less.prems ne n have "unit_loop unit_size body (pos + n) (remaining - n) = Inl e"
      by (simp add: unit_loop.simps [of _ _ pos] n_def [symmetric] Let_def split: sum.splits)
    with less.IH [OF n(2)] show ?thesis by blast
  qed
qed

text \<open>
  \<open>read_units\<close>: \<open>locate\<close> says where a unit is, \<open>read_phys\<close> reads from the file. \<open>base + within\<close>
  is a \<open>u64\<close> addition.
\<close>

datatype unit_loc = Zero | At nat

definition unit_chunk ::
  "nat \<Rightarrow> (nat \<Rightarrow> unit_loc io) \<Rightarrow> (nat \<Rightarrow> nat \<Rightarrow> bytes io) \<Rightarrow> nat \<Rightarrow> nat \<Rightarrow> bytes io" where
  "unit_chunk unit_size locate read_phys pos take_n =
     (case locate (pos div unit_size) of
        Inl e \<Rightarrow> Inl e
      | Inr Zero \<Rightarrow> Inr (zeros take_n)
      | Inr (At base) \<Rightarrow>
          if base + pos mod unit_size < u64_lim
          then read_phys (base + pos mod unit_size) take_n else Inl Panicked)"

definition read_units ::
  "nat \<Rightarrow> nat \<Rightarrow> nat \<Rightarrow> nat \<Rightarrow> (nat \<Rightarrow> unit_loc io) \<Rightarrow> (nat \<Rightarrow> nat \<Rightarrow> bytes io) \<Rightarrow> bytes io" where
  "read_units offset len virtual_size unit_size locate read_phys =
     (if unit_size = 0 then Inl InvalidData
      else case checked_add_u64 offset len of
        None \<Rightarrow> Inl InvalidData
      | Some end_pos \<Rightarrow>
          if virtual_size < end_pos then Inl InvalidData
          else unit_loop unit_size (unit_chunk unit_size locate read_phys) offset len)"

lemma read_units_out_of_range:
  "virtual_size < offset + len \<Longrightarrow> read_units offset len virtual_size u l r = Inl InvalidData"
  by (auto simp: read_units_def checked_add_u64_def)

lemma read_units_window:
  assumes "0 < unit_size" and "virtual_size < u64_lim" and "length disk = virtual_size"
    and "\<And>p n. 0 < n \<Longrightarrow> p + n \<le> virtual_size \<Longrightarrow> p mod unit_size + n \<le> unit_size \<Longrightarrow>
      unit_chunk unit_size locate read_phys p n = Inr (window p n disk)"
    and "offset + len \<le> virtual_size"
  shows "read_units offset len virtual_size unit_size locate read_phys = Inr (window offset len disk)"
  using assms unit_loop_window [of unit_size disk "unit_chunk unit_size locate read_phys" offset len]
  by (simp add: read_units_def checked_add_u64_def)

text \<open>
  A sparse disk: its bytes given by where each unit is. \<open>unit_chunk\<close> of such a disk is its
  slice, when every located unit lies inside the file.
\<close>

definition unit_byte :: "nat \<Rightarrow> (nat \<Rightarrow> unit_loc io) \<Rightarrow> file_data \<Rightarrow> nat \<Rightarrow> u8" where
  "unit_byte unit_size locate f i =
     (case locate (i div unit_size) of
        Inr (At base) \<Rightarrow> f ! (base + i mod unit_size) | _ \<Rightarrow> 0)"

definition unit_bytes :: "nat \<Rightarrow> (nat \<Rightarrow> unit_loc io) \<Rightarrow> file_data \<Rightarrow> nat \<Rightarrow> bytes" where
  "unit_bytes unit_size locate f virtual_size = map (unit_byte unit_size locate f) [0..<virtual_size]"

definition units_mapped :: "nat \<Rightarrow> (nat \<Rightarrow> unit_loc io) \<Rightarrow> file_data \<Rightarrow> nat \<Rightarrow> bool" where
  "units_mapped unit_size locate f virtual_size \<longleftrightarrow>
     0 < unit_size \<and> virtual_size < u64_lim \<and> length f < u64_lim \<and>
     (\<forall>i < div_ceil virtual_size unit_size. case locate i of
        Inl e \<Rightarrow> False
      | Inr Zero \<Rightarrow> True
      | Inr (At base) \<Rightarrow> base + min unit_size (virtual_size - i * unit_size) \<le> length f)"

lemma length_unit_bytes [simp]: "length (unit_bytes u l f n) = n"
  by (simp add: unit_bytes_def)

lemma div_mod_shift:
  fixes u :: nat
  assumes "p mod u + i < u"
  shows "(p + i) div u = p div u" "(p + i) mod u = p mod u + i"
proof -
  have e: "p + i = (p mod u + i) + p div u * u" by simp
  have "(p mod u + i) div u = 0" "(p mod u + i) mod u = p mod u + i" using assms by simp_all
  then show "(p + i) div u = p div u" "(p + i) mod u = p mod u + i"
    using assms unfolding e by (simp_all only: div_mult_self1 mod_mult_self1)
qed

lemma unit_chunk_window:
  assumes m: "units_mapped u locate f vs" and n: "0 < n" "p + n \<le> vs" "p mod u + n \<le> u"
  shows "unit_chunk u locate (read_exact_at f) p n = Inr (window p n (unit_bytes u locate f vs))"
proof -
  have u: "0 < u" using m by (simp add: units_mapped_def)
  have e: "p div u * u + p mod u = p" by simp
  then have "p div u * u < vs" using n by linarith
  then have "p div u < div_ceil vs u" using u by (simp add: div_ceil_le_iff)
  then have loc: "case locate (p div u) of Inl e \<Rightarrow> False | Inr Zero \<Rightarrow> True
      | Inr (At base) \<Rightarrow> base + min u (vs - p div u * u) \<le> length f"
    using m by (simp add: units_mapped_def)
  have byte: "unit_byte u locate f (p + i) = (case locate (p div u) of
      Inr (At base) \<Rightarrow> f ! (base + p mod u + i) | _ \<Rightarrow> 0)" if "i < n" for i
    using that n div_mod_shift [of p u i]
    by (simp add: unit_byte_def add.assoc split: sum.split unit_loc.split)
  have fit: "p mod u + n \<le> min u (vs - p div u * u)" using n e by linarith
  show ?thesis
  proof (cases "locate (p div u)")
    case (Inr loc')
    show ?thesis
    proof (cases loc')
      case Zero
      with Inr byte n have "zeros n = window p n (unit_bytes u locate f vs)"
        by (intro nth_equalityI) (simp_all add: unit_bytes_def)
      with Inr Zero show ?thesis by (simp add: unit_chunk_def)
    next
      case (At base)
      have "base + min u (vs - p div u * u) \<le> length f" using loc Inr At by simp
      with fit have "base + p mod u + n \<le> length f" by linarith
      moreover have "window (base + p mod u) n f = window p n (unit_bytes u locate f vs)"
        using calculation Inr At byte n by (intro nth_equalityI) (simp_all add: unit_bytes_def)
      moreover have "base + p mod u < u64_lim" using calculation(1) n m by (simp add: units_mapped_def)
      ultimately show ?thesis using Inr At by (simp add: unit_chunk_def read_exact_at_in)
    qed
  qed (use loc in simp)
qed

lemma read_units_bytes:
  assumes "units_mapped u locate f vs" and "offset + len \<le> vs"
  shows "read_units offset len vs u locate (read_exact_at f)
    = Inr (window offset len (unit_bytes u locate f vs))"
  using assms unit_chunk_window [OF assms(1)]
  by (intro read_units_window) (auto simp: units_mapped_def)

section \<open>Raw images\<close>

text \<open>\<open>RawFile\<close>: the file is the disk. \<open>open\<close> records the file's length.\<close>

record raw_file =
  rf_file :: file_data
  rf_size :: nat

definition raw_open :: "(rstr \<Rightarrow> file_data option) \<Rightarrow> rstr \<Rightarrow> raw_file io" where
  "raw_open fs path =
     (case fs path of None \<Rightarrow> Inl NotFound
      | Some f \<Rightarrow> Inr \<lparr>rf_file = f, rf_size = length f\<rparr>)"

text \<open>The bounds check \<open>RawFile\<close>, \<open>FixedVhd\<close> and \<open>ChainedVhd\<close> open \<open>read_at\<close> with.\<close>

definition range_check :: "nat \<Rightarrow> nat \<Rightarrow> nat \<Rightarrow> bool" where
  "range_check offset len sz \<longleftrightarrow>
     (case checked_add_u64 offset len of None \<Rightarrow> False | Some end_pos \<Rightarrow> end_pos \<le> sz)"

lemma range_check_iff: "sz < u64_lim \<Longrightarrow> range_check offset len sz \<longleftrightarrow> offset + len \<le> sz"
  by (auto simp: range_check_def checked_add_u64_def)

definition raw_read_at :: "raw_file \<Rightarrow> nat \<Rightarrow> nat \<Rightarrow> bytes io" where
  "raw_read_at s offset len =
     (if \<not> range_check offset len (rf_size s) then Inl InvalidData
      else read_exact_at (rf_file s) offset len)"

definition raw_valid :: "raw_file \<Rightarrow> bool" where
  "raw_valid s \<longleftrightarrow> rf_size s = length (rf_file s) \<and> rf_size s < u64_lim"

interpretation raw: backing_store rf_size raw_read_at rf_file raw_valid
  by unfold_locales (auto simp: raw_valid_def raw_read_at_def range_check_iff read_exact_at_in)

lemma raw_open_valid:
  "raw_open fs path = Inr s \<Longrightarrow> fs path = Some f \<Longrightarrow> length f < u64_lim \<Longrightarrow>
    raw_valid s \<and> rf_file s = f"
  by (auto simp: raw_open_def raw_valid_def)

end
