(* ===== verification/Vhd_Footer.thy ===== *)
theory Vhd_Footer
  imports Storage
begin

text \<open>
  The 512-byte VHD footer (\<open>storage/vhd/footer.rs\<close>) and the half of the VHD writer that builds
  it (\<open>checksum\<close>, \<open>geometry\<close>, \<open>build_footer\<close> of \<open>storage/vhd/write.rs\<close>): parsing with its
  ones-complement checksum, the CHS geometry, and the round trip between the two.
\<close>

section \<open>Checksum\<close>

definition DISK_TYPE_FIXED :: u32 where
  "DISK_TYPE_FIXED = 2"

definition DISK_TYPE_DYNAMIC :: u32 where
  "DISK_TYPE_DYNAMIC = 3"

text \<open>The loop shared by the parser and the writer: a wrapping sum that skips the checksum field.\<close>

fun sum_skipping :: "nat \<Rightarrow> nat \<Rightarrow> nat \<Rightarrow> bytes \<Rightarrow> u32 \<Rightarrow> u32" where
  "sum_skipping lo hi i [] acc = acc"
| "sum_skipping lo hi i (b # bs) acc =
     sum_skipping lo hi (Suc i) bs (if lo \<le> i \<and> i < hi then acc else acc + ucast b)"

definition checksum :: "bytes \<Rightarrow> nat \<Rightarrow> nat \<Rightarrow> u32" where
  "checksum buf lo hi = NOT (sum_skipping lo hi 0 buf 0)"

lemma sum_skipping_acc: "sum_skipping lo hi i bs acc = acc + sum_skipping lo hi i bs 0"
proof (induction bs arbitrary: i acc)
  case (Cons b bs)
  show ?case
    using Cons [of "Suc i" acc] Cons [of "Suc i" "acc + ucast b"] Cons [of "Suc i" "ucast b"] by auto
qed simp

lemma sum_skipping_append:
  "sum_skipping lo hi i (xs @ ys) acc = sum_skipping lo hi (i + length xs) ys (sum_skipping lo hi i xs acc)"
  by (induction xs arbitrary: i acc) auto

lemma sum_skipping_update:
  assumes "k < length bs" and "\<not> (lo \<le> k \<and> k < hi)"
  shows "sum_skipping lo hi 0 (bs[k := b]) 0 + ucast (bs ! k) = sum_skipping lo hi 0 bs 0 + ucast b"
proof -
  have 1: "bs = take k bs @ bs ! k # drop (Suc k) bs" using assms(1) by (rule id_take_nth_drop)
  have 2: "bs[k := b] = take k bs @ b # drop (Suc k) bs" using assms(1) by (rule upd_conv_take_nth_drop)
  let ?p = "sum_skipping lo hi 0 (take k bs) 0" and ?r = "sum_skipping lo hi (Suc k) (drop (Suc k) bs) 0"
  have "sum_skipping lo hi 0 bs 0 = ?p + ucast (bs ! k) + ?r"
    using assms sum_skipping_acc [of lo hi "Suc k" "drop (Suc k) bs" "?p + ucast (bs ! k)"]
    by (subst 1) (auto simp: sum_skipping_append)
  moreover have "sum_skipping lo hi 0 (bs[k := b]) 0 = ?p + ucast b + ?r"
    using assms sum_skipping_acc [of lo hi "Suc k" "drop (Suc k) bs" "?p + ucast b"]
    by (subst 2) (auto simp: sum_skipping_append)
  ultimately show ?thesis by simp
qed

lemma sum_skipping_skipped:
  assumes "lo \<le> k" "k < hi"
  shows "sum_skipping lo hi 0 (bs[k := b]) 0 = sum_skipping lo hi 0 bs 0"
proof (cases "k < length bs")
  case True
  have 1: "bs = take k bs @ bs ! k # drop (Suc k) bs" using True by (rule id_take_nth_drop)
  have 2: "bs[k := b] = take k bs @ b # drop (Suc k) bs" using True by (rule upd_conv_take_nth_drop)
  have "sum_skipping lo hi 0 bs 0
      = sum_skipping lo hi (Suc k) (drop (Suc k) bs) (sum_skipping lo hi 0 (take k bs) 0)"
    using assms True by (subst 1) (simp add: sum_skipping_append)
  moreover have "sum_skipping lo hi 0 (bs[k := b]) 0
      = sum_skipping lo hi (Suc k) (drop (Suc k) bs) (sum_skipping lo hi 0 (take k bs) 0)"
    using assms True by (subst 2) (simp add: sum_skipping_append)
  ultimately show ?thesis by simp
qed (simp add: list_update_beyond)

lemma ucast_u8_u32_inj: "(ucast (a :: u8) :: u32) = ucast b \<longleftrightarrow> a = b"
proof -
  have "unat (ucast c :: u32) = unat c" for c :: u8
    using unat_u8_lt [of c] by (simp add: unsigned_ucast_eq take_bit_nat_eq_self)
  then show ?thesis by (metis word_unat_eq_iff)
qed

section \<open>Parsing\<close>

record vhd_footer =
  vf_data_offset :: nat
  vf_current_size :: nat
  vf_disk_type :: u32

definition be_u32 :: "bytes \<Rightarrow> u32" where
  "be_u32 b = of_nat (be_val b)"

definition footer_parse :: "bytes \<Rightarrow> vhd_footer io" where
  "footer_parse bytes =
     (if length bytes < 512 then Inl InvalidData
      else
        let f = window 0 512 bytes in
        if window 0 8 f \<noteq> ascii ''conectix'' then Inl InvalidData
        else
          let stored = be_u32 (window 64 4 f) in
          if checksum f 64 68 \<noteq> stored then Inl InvalidData
          else Inr \<lparr>vf_data_offset = be_val (window 16 8 f),
                    vf_current_size = be_val (window 48 8 f),
                    vf_disk_type = be_u32 (window 60 4 f)\<rparr>)"

lemma be_u32_inj: "length a = 4 \<Longrightarrow> length b = 4 \<Longrightarrow> be_u32 a = be_u32 b \<longleftrightarrow> a = b"
  using be_val_bound [of a] be_val_bound [of b] be_val_inj [of a b]
  by (auto simp: be_u32_def word_of_nat_eq_iff take_bit_nat_eq_self)

lemma footer_parse_short: "length f < 512 \<Longrightarrow> footer_parse f = Inl InvalidData"
  by (simp add: footer_parse_def)

lemma footer_parse_512:
  "length f = 512 \<Longrightarrow> footer_parse f = Inr h \<longleftrightarrow>
    window 0 8 f = ascii ''conectix'' \<and> checksum f 64 68 = be_u32 (window 64 4 f) \<and>
    h = \<lparr>vf_data_offset = be_val (window 16 8 f), vf_current_size = be_val (window 48 8 f),
         vf_disk_type = be_u32 (window 60 4 f)\<rparr>"
  by (auto simp: footer_parse_def Let_def window_all')

lemma footer_parse_bounds: "footer_parse f = Inr h \<Longrightarrow> vf_current_size h < u64_lim"
  using be_val_window_bound [of 48 8 "window 0 512 f"]
  by (auto simp: footer_parse_def Let_def u64_lim_def split: if_splits)

lemma window_update_in:
  "a \<le> k \<Longrightarrow> k < a + n \<Longrightarrow> k < length f \<Longrightarrow> window a n (f[k := b]) = (window a n f)[k - a := b]"
  by (simp add: window_def drop_update_swap take_update_swap)

lemma window_update_out: "k < a \<or> a + n \<le> k \<Longrightarrow> window a n (f[k := b]) = window a n f"
  by (auto simp: window_def drop_update_cancel drop_update_swap take_update_cancel)

text \<open>No single corrupted byte gets past the parser.\<close>

lemma footer_detects_byte:
  assumes len: "length f = 512" and ok: "footer_parse f = Inr h" and k: "k < 512" and b: "b \<noteq> f ! k"
  shows "footer_parse (f[k := b]) = Inl InvalidData"
proof -
  have cs: "checksum f 64 68 = be_u32 (window 64 4 f)" using ok len by (simp add: footer_parse_512)
  have "checksum (f[k := b]) 64 68 \<noteq> be_u32 (window 64 4 (f[k := b]))"
  proof (cases "64 \<le> k \<and> k < 68")
    case True
    have "window 64 4 (f[k := b]) ! (k - 64) \<noteq> window 64 4 f ! (k - 64)"
      using True len b k nth_window [of "k - 64" 4 64 f]
      by (simp add: window_update_in length_window less_diff_conv2)
    then have "be_u32 (window 64 4 (f[k := b])) \<noteq> be_u32 (window 64 4 f)"
      using len by (auto simp: be_u32_inj)
    with True cs show ?thesis by (simp add: checksum_def sum_skipping_skipped)
  next
    case False
    with len k have e: "sum_skipping 64 68 0 (f[k := b]) 0 + ucast (f ! k) = sum_skipping 64 68 0 f 0 + ucast b"
      by (intro sum_skipping_update) auto
    have "sum_skipping 64 68 0 (f[k := b]) 0 \<noteq> sum_skipping 64 68 0 f 0"
      using e b ucast_u8_u32_inj [of "f ! k" b] by auto
    moreover have "window 64 4 (f[k := b]) = window 64 4 f" using False by (intro window_update_out) auto
    ultimately show ?thesis using cs
      by (auto simp: checksum_def) (metis bit.double_compl)
  qed
  then show ?thesis using len by (auto simp: footer_parse_def Let_def window_all')
qed

section \<open>Geometry\<close>

text \<open>
  CHS geometry of a disk. The three divisions of the fallback branch are in \<open>u64\<close>; the casts at
  the end truncate, which \<open>geometry_exact\<close> shows never loses a bit.
\<close>

definition geometry_u64 :: "nat \<Rightarrow> nat \<times> nat \<times> nat" where
  "geometry_u64 total_sectors =
     (let ts = min total_sectors (65535 * 16 * 255) in
      if 65535 * 16 * 63 \<le> ts then
        let spt = 255; heads = 16; cth = ts div spt in (cth div heads, heads, spt)
      else
        let spt = 17; cth = ts div spt; heads = div_ceil cth 1024;
            heads = (if heads < 4 then 4 else heads);
            (spt, heads, cth) =
              (if heads * 1024 \<le> cth \<or> 16 < heads then (31, 16, ts div 31) else (spt, heads, cth));
            (spt, heads, cth) =
              (if heads * 1024 \<le> cth then (63, 16, ts div 63) else (spt, heads, cth))
        in (cth div heads, heads, spt))"

definition geometry :: "nat \<Rightarrow> u16 \<times> u8 \<times> u8" where
  "geometry total_sectors =
     (case geometry_u64 total_sectors of
        (cyls, heads, spt) \<Rightarrow> (of_nat cyls, of_nat heads, of_nat spt))"

lemma geometry_u64_cases:
  fixes ts :: nat
  assumes "geometry_u64 n = (c, h, s)" and "ts = min n (65535 * 16 * 255)"
  obtains (huge) "65535 * 16 * 63 \<le> ts" "s = 255" "h = 16" "c = ts div 255 div 16"
    | (large) "ts < 65535 * 16 * 63" "s = 63" "h = 16" "c = ts div 63 div 16"
    | (mid) "ts div 31 < 16 * 1024" "s = 31" "h = 16" "c = ts div 31 div 16"
    | (small) "4 \<le> h" "h \<le> 16" "ts div 17 < h * 1024" "s = 17" "c = ts div 17 div h"
  using assms by (auto simp: geometry_u64_def Let_def not_le split: if_splits)

lemma geometry_u64_bounds:
  assumes "geometry_u64 n = (c, h, s)"
  shows "c \<le> 65535" "4 \<le> h" "h \<le> 16" "s \<in> {17, 31, 63, 255}" "c * h * s \<le> n"
proof -
  define ts where "ts = min n (65535 * 16 * 255)"
  have div3: "a div b div d * d * b \<le> a" for a b d :: nat
    by (metis div_mult2_eq div_times_less_eq_dividend mult.assoc mult.commute)
  have all: "c \<le> 65535 \<and> 4 \<le> h \<and> h \<le> 16 \<and> s \<in> {17, 31, 63, 255} \<and> c * h * s \<le> ts"
    using assms ts_def
  proof (cases rule: geometry_u64_cases)
    case huge
    have "ts \<le> 65535 * 16 * 255" by (simp add: ts_def)
    then have "c \<le> 65535" using huge by simp
    with huge div3 [of ts 255 16] show ?thesis by simp
  next
    case large
    then have "c \<le> 65535" by simp
    with large div3 [of ts 63 16] show ?thesis by simp
  next
    case mid
    then have "c \<le> 65535" by simp
    with mid div3 [of ts 31 16] show ?thesis by simp
  next
    case small
    have "c < 1024" using small by (simp add: less_mult_imp_div_less mult.commute)
    with small div3 [of ts 17 h] show ?thesis by simp
  qed
  then show "c \<le> 65535" "4 \<le> h" "h \<le> 16" "s \<in> {17, 31, 63, 255}" by auto
  show "c * h * s \<le> n" using all by (auto simp: ts_def)
qed

section \<open>Building a footer\<close>

text \<open>
  \<open>secs\<close> is the timestamp the code reads from the system clock. \<open>footer_fields\<close> is the buffer
  before the checksum goes in.
\<close>

definition footer_fields :: "u32 \<Rightarrow> nat \<Rightarrow> bytes" where
  "footer_fields secs current_size =
     (let (cyl, heads, spt) = geometry (current_size div 512);
          uuid = le_bytes 8 current_size @ le_bytes 4 (unat secs) @ ascii ''xbot'' in
      puts
        [(0, ascii ''conectix''), (8, be_bytes 4 2), (12, be_bytes 4 65536), (16, be_bytes 8 512),
         (24, be_bytes 4 (unat secs)), (28, ascii ''xbot''), (32, be_bytes 4 65536),
         (36, ascii ''Wi2k''), (40, be_bytes 8 current_size), (48, be_bytes 8 current_size),
         (56, be_bytes 2 (unat cyl)), (58, [heads]), (59, [spt]),
         (60, be_bytes 4 (unat DISK_TYPE_DYNAMIC)), (68, uuid)] (zeros 512))"

definition build_footer :: "u32 \<Rightarrow> nat \<Rightarrow> bytes" where
  "build_footer secs current_size =
     (let f = footer_fields secs current_size in
      put 64 (be_bytes 4 (unat (checksum f 64 68))) f)"

lemma length_footer_fields [simp]: "length (footer_fields secs n) = 512"
  by (simp add: footer_fields_def Let_def split_beta length_puts puts_fit_def)

lemma length_build_footer [simp]: "length (build_footer secs n) = 512"
  by (simp add: build_footer_def Let_def length_put)

lemma sum_skipping_put:
  assumes "length src = hi - lo" and "lo \<le> hi" and "hi \<le> length f"
  shows "sum_skipping lo hi 0 (put lo src f) 0 = sum_skipping lo hi 0 f 0"
proof -
  have skip: "sum_skipping lo hi i xs a = a" if "lo \<le> i" "i + length xs \<le> hi" for i xs a
    using that by (induction xs arbitrary: i a) auto
  have f: "f = take lo f @ window lo (hi - lo) f @ drop hi f"
    using assms by (metis append_take_drop_id le_add_diff_inverse take_add window_def append.assoc)
  have p: "put lo src f = take lo f @ src @ drop hi f" using assms by (simp add: put_def)
  show ?thesis
    using assms by (subst (2) f, subst p) (simp add: sum_skipping_append skip length_window)
qed

lemma be_u32_be_bytes: "be_u32 (be_bytes 4 (unat (w :: u32))) = w"
  using unsigned_less [of w, where ?'a = nat] by (simp add: be_u32_def)

lemma window_footer_fields:
  assumes "n < u64_lim"
  shows "window 0 8 (footer_fields secs n) = ascii ''conectix''"
    "window 16 8 (footer_fields secs n) = be_bytes 8 512"
    "window 48 8 (footer_fields secs n) = be_bytes 8 n"
    "window 60 4 (footer_fields secs n) = be_bytes 4 3"
  unfolding footer_fields_def Let_def split_beta DISK_TYPE_DYNAMIC_def
  by (subst window_puts; simp add: puts_eval)+

text \<open>A buffer that was given its checksum is accepted, and its fields are read off.\<close>

lemma footer_parse_sealed:
  assumes "length f = 512" "window 0 8 f = ascii ''conectix''"
  shows "footer_parse (put 64 (be_bytes 4 (unat (checksum f 64 68))) f) =
    Inr \<lparr>vf_data_offset = be_val (window 16 8 f), vf_current_size = be_val (window 48 8 f),
         vf_disk_type = be_u32 (window 60 4 f)\<rparr>"
proof -
  let ?g = "put 64 (be_bytes 4 (unat (checksum f 64 68))) f"
  have "checksum ?g 64 68 = checksum f 64 68" using assms(1) by (simp add: checksum_def sum_skipping_put)
  moreover have "window 64 4 ?g = be_bytes 4 (unat (checksum f 64 68))" "length ?g = 512"
    using assms(1) by (simp_all add: window_put_same' length_put)
  moreover have "window a k ?g = window a k f" if "a + k \<le> 64" for a k
    using that by (simp add: window_put_before assms(1))
  ultimately show ?thesis using assms(2) by (simp add: footer_parse_512 be_u32_be_bytes del: ascii_Cons)
qed

text \<open>What the writer builds the parser accepts, and reads back the size it was given.\<close>

lemma footer_parse_build:
  assumes "n < u64_lim"
  shows "footer_parse (build_footer secs n)
    = Inr \<lparr>vf_data_offset = 512, vf_current_size = n, vf_disk_type = DISK_TYPE_DYNAMIC\<rparr>"
proof -
  have "n < 256 ^ 8" using assms by (simp add: u64_lim_def)
  then show ?thesis
    using footer_parse_sealed [of "footer_fields secs n"] window_footer_fields [OF assms, of secs]
    by (simp add: build_footer_def Let_def DISK_TYPE_DYNAMIC_def del: ascii_Cons) (simp add: be_u32_def)
qed

end
