(* ===== verification/Vhd_Dynamic.thy ===== *)
theory Vhd_Dynamic
  imports Vhd_Footer
begin

text \<open>
  The VHD readers (\<open>storage/vhd/mod.rs\<close>, \<open>fixed.rs\<close>, \<open>dynamic.rs\<close>): a fixed image is its data
  and a footer; a dynamic image maps each block through the BAT and each sector through its
  block's bitmap. Both are shown to keep the contract of a backing store. The environment
  variable \<open>XBOOT_IGNORE_BITMAP\<close> is the parameter \<open>ign\<close>.
\<close>

definition SECTOR :: nat where
  "SECTOR = 512"

lemma SECTOR_pos [simp]: "0 < SECTOR"
  by (simp add: SECTOR_def)

section \<open>Fixed images\<close>

record fixed_vhd =
  fv_file :: file_data
  fv_virtual_size :: nat

definition read_footer :: "file_data \<Rightarrow> vhd_footer io" where
  "read_footer f =
     (if length f < 512 then Inl InvalidData
      else case read_exact_at f (length f - 512) 512 of
        Inl e \<Rightarrow> Inl e | Inr buf \<Rightarrow> footer_parse buf)"

definition fixed_open :: "(rstr \<Rightarrow> file_data option) \<Rightarrow> rstr \<Rightarrow> fixed_vhd io" where
  "fixed_open fs path =
     (case fs path of None \<Rightarrow> Inl NotFound
      | Some f \<Rightarrow>
          (case read_footer f of Inl e \<Rightarrow> Inl e
           | Inr footer \<Rightarrow>
               if vf_disk_type footer \<noteq> DISK_TYPE_FIXED then Inl InvalidData
               else Inr \<lparr>fv_file = f, fv_virtual_size = vf_current_size footer\<rparr>))"

definition fixed_read_at :: "fixed_vhd \<Rightarrow> nat \<Rightarrow> nat \<Rightarrow> bytes io" where
  "fixed_read_at s offset len =
     (if \<not> range_check offset len (fv_virtual_size s) then Inl InvalidData
      else read_exact_at (fv_file s) offset len)"

text \<open>
  \<open>open\<close> takes the size from the footer without comparing it with the file: the contract holds
  for an image whose data is there.
\<close>

definition fixed_valid :: "fixed_vhd \<Rightarrow> bool" where
  "fixed_valid s \<longleftrightarrow> fv_virtual_size s \<le> length (fv_file s) \<and> fv_virtual_size s < u64_lim"

definition fixed_content :: "fixed_vhd \<Rightarrow> bytes" where
  "fixed_content s = take (fv_virtual_size s) (fv_file s)"

lemma window_take: "off + n \<le> k \<Longrightarrow> window off n (take k xs) = window off n xs"
  by (simp add: window_def drop_take take_take min_def)

interpretation fixed: backing_store fv_virtual_size fixed_read_at fixed_content fixed_valid
  by unfold_locales
    (auto simp: fixed_valid_def fixed_read_at_def fixed_content_def range_check_iff read_exact_at_in
      window_take)

section \<open>Dynamic images: opening\<close>

record dynamic_vhd =
  dv_file :: file_data
  dv_virtual_size :: nat
  dv_block_size :: nat
  dv_bitmap_size :: nat
  dv_bat :: "nat list"
  dv_bitmaps :: "bytes option list"

definition BAT_HOLE :: nat where
  "BAT_HOLE = 4294967295"

definition chunks_exact :: "nat \<Rightarrow> 'a list \<Rightarrow> 'a list list" where
  "chunks_exact n xs = map (\<lambda>i. window (n * i) n xs) [0..<length xs div n]"

fun load_bitmaps :: "file_data \<Rightarrow> nat \<Rightarrow> nat list \<Rightarrow> bytes option list io" where
  "load_bitmaps f bitmap_size [] = Inr []"
| "load_bitmaps f bitmap_size (entry # bat) =
     (case (if entry = BAT_HOLE then Inr None
            else case read_exact_at f (entry * SECTOR) bitmap_size of
              Inl e \<Rightarrow> Inl e | Inr bm \<Rightarrow> Inr (Some bm)) of
        Inl e \<Rightarrow> Inl e
      | Inr bm \<Rightarrow> (case load_bitmaps f bitmap_size bat of Inl e \<Rightarrow> Inl e | Inr bms \<Rightarrow> Inr (bm # bms)))"

definition bitmap_size_of :: "nat \<Rightarrow> nat" where
  "bitmap_size_of block_size =
     (let sectors_per_block = block_size div SECTOR;
          bitmap_bytes_raw = div_ceil sectors_per_block 8
      in div_ceil bitmap_bytes_raw SECTOR * SECTOR)"

definition dynamic_parse :: "file_data \<Rightarrow> dynamic_vhd io" where
  "dynamic_parse f =
     (case read_footer f of Inl e \<Rightarrow> Inl e
      | Inr footer \<Rightarrow>
        if vf_disk_type footer \<noteq> DISK_TYPE_DYNAMIC then Inl InvalidData
        else case read_exact_at f (vf_data_offset footer) 1024 of Inl e \<Rightarrow> Inl e
      | Inr hdr \<Rightarrow>
        if window 0 8 hdr \<noteq> ascii ''cxsparse'' then Inl InvalidData
        else
          let table_offset = be_val (window 16 8 hdr);
              max_entries = be_val (window 28 4 hdr);
              block_size = be_val (window 32 4 hdr) in
          if block_size = 0 \<or> block_size mod SECTOR \<noteq> 0 \<or> \<not> is_power_of_two block_size
          then Inl InvalidData
          else if 2 ^ 32 < max_entries then Inl InvalidData
          else
            let bitmap_size = bitmap_size_of block_size in
            case read_exact_at f table_offset (max_entries * 4) of Inl e \<Rightarrow> Inl e
          | Inr raw \<Rightarrow>
              let bat = map be_val (chunks_exact 4 raw) in
              case load_bitmaps f bitmap_size bat of Inl e \<Rightarrow> Inl e
            | Inr bitmaps \<Rightarrow>
                Inr \<lparr>dv_file = f, dv_virtual_size = vf_current_size footer,
                     dv_block_size = block_size, dv_bitmap_size = bitmap_size,
                     dv_bat = bat, dv_bitmaps = bitmaps\<rparr>)"

definition dynamic_open :: "(rstr \<Rightarrow> file_data option) \<Rightarrow> rstr \<Rightarrow> dynamic_vhd io" where
  "dynamic_open fs path = (case fs path of None \<Rightarrow> Inl NotFound | Some f \<Rightarrow> dynamic_parse f)"

section \<open>Dynamic images: locating a sector\<close>

definition sectors_per_block :: "dynamic_vhd \<Rightarrow> nat" where
  "sectors_per_block d = dv_block_size d div SECTOR"

definition phys_offset :: "dynamic_vhd \<Rightarrow> nat \<Rightarrow> nat \<Rightarrow> nat" where
  "phys_offset d entry sector_in_block = entry * SECTOR + dv_bitmap_size d + sector_in_block * SECTOR"

definition bat_entry :: "dynamic_vhd \<Rightarrow> nat \<Rightarrow> nat io" where
  "bat_entry d sector =
     (let block = sector div sectors_per_block d in
      if block < length (dv_bat d) then Inr (dv_bat d ! block) else Inl InvalidData)"

text \<open>The bitmap of an allocated block; indexing past the table panics, a missing one is an error.\<close>

definition block_bitmap :: "dynamic_vhd \<Rightarrow> nat \<Rightarrow> bytes io" where
  "block_bitmap d sector =
     (let block = sector div sectors_per_block d in
      if block < length (dv_bitmaps d)
      then (case dv_bitmaps d ! block of None \<Rightarrow> Inl InvalidData | Some bm \<Rightarrow> Inr bm)
      else Inl Panicked)"

definition sector_offset :: "bool \<Rightarrow> dynamic_vhd \<Rightarrow> nat \<Rightarrow> nat option io" where
  "sector_offset ign d sector =
     (case bat_entry d sector of Inl e \<Rightarrow> Inl e
      | Inr entry \<Rightarrow>
        if entry = BAT_HOLE then Inr None
        else
          let sector_in_block = sector mod sectors_per_block d in
          if ign then Inr (Some (phys_offset d entry sector_in_block))
          else case block_bitmap d sector of Inl e \<Rightarrow> Inl e
          | Inr bitmap \<Rightarrow>
              if length bitmap \<le> sector_in_block div 8 then Inl Panicked
              else
                let byte = bitmap ! (sector_in_block div 8) in
                if byte AND push_bit (7 - sector_in_block mod 8) 1 = 0 then Inr None
                else Inr (Some (phys_offset d entry sector_in_block)))"

definition block_sector_offset :: "dynamic_vhd \<Rightarrow> nat \<Rightarrow> nat option io" where
  "block_sector_offset d sector =
     (case bat_entry d sector of Inl e \<Rightarrow> Inl e
      | Inr entry \<Rightarrow>
        if entry = BAT_HOLE then Inr None
        else Inr (Some (phys_offset d entry (sector mod sectors_per_block d))))"

definition count_ones :: "u8 \<Rightarrow> nat" where
  "count_ones b = length (filter (bit b) [0..<8])"

definition block_bit_count :: "dynamic_vhd \<Rightarrow> nat \<Rightarrow> nat option io" where
  "block_bit_count d sector =
     (case bat_entry d sector of Inl e \<Rightarrow> Inl e
      | Inr entry \<Rightarrow>
        if entry = BAT_HOLE then Inr None
        else case block_bitmap d sector of Inl e \<Rightarrow> Inl e
        | Inr bitmap \<Rightarrow> Inr (Some (sum_list (map count_ones bitmap))))"

definition dv_read_phys :: "dynamic_vhd \<Rightarrow> nat \<Rightarrow> nat \<Rightarrow> bytes io" where
  "dv_read_phys d offset len = read_exact_at (dv_file d) offset len"

definition dv_locate :: "bool \<Rightarrow> dynamic_vhd \<Rightarrow> nat \<Rightarrow> unit_loc io" where
  "dv_locate ign d sector =
     (case sector_offset ign d sector of Inl e \<Rightarrow> Inl e
      | Inr None \<Rightarrow> Inr Zero | Inr (Some off) \<Rightarrow> Inr (At off))"

definition dynamic_read_at :: "bool \<Rightarrow> dynamic_vhd \<Rightarrow> nat \<Rightarrow> nat \<Rightarrow> bytes io" where
  "dynamic_read_at ign d offset len =
     read_units offset len (dv_virtual_size d) SECTOR (dv_locate ign d) (read_exact_at (dv_file d))"

section \<open>The contract of a dynamic image\<close>

definition dynamic_content :: "bool \<Rightarrow> dynamic_vhd \<Rightarrow> bytes" where
  "dynamic_content ign d = unit_bytes SECTOR (dv_locate ign d) (dv_file d) (dv_virtual_size d)"

text \<open>Every sector of the disk has a BAT entry, and its data, if present, lies in the file.\<close>

definition dynamic_valid :: "bool \<Rightarrow> dynamic_vhd \<Rightarrow> bool" where
  "dynamic_valid ign d \<longleftrightarrow> units_mapped SECTOR (dv_locate ign d) (dv_file d) (dv_virtual_size d)"

interpretation dynvhd:
  backing_store dv_virtual_size "dynamic_read_at ign" "dynamic_content ign" "dynamic_valid ign" for ign
  by unfold_locales
    (simp_all add: dynamic_content_def dynamic_valid_def dynamic_read_at_def read_units_bytes
      read_units_out_of_range)

text \<open>What \<open>open\<close> guarantees of the structure it returns.\<close>

definition dynamic_wf :: "dynamic_vhd \<Rightarrow> bool" where
  "dynamic_wf d \<longleftrightarrow>
     dv_virtual_size d < u64_lim \<and>
     SECTOR dvd dv_block_size d \<and> (\<exists>k. dv_block_size d = 2 ^ k) \<and>
     dv_bitmap_size d = bitmap_size_of (dv_block_size d) \<and>
     length (dv_bitmaps d) = length (dv_bat d) \<and>
     (\<forall>i < length (dv_bat d). dv_bat d ! i < 2 ^ 32 \<and>
        dv_bitmaps d ! i =
          (if dv_bat d ! i = BAT_HOLE then None
           else Some (window (dv_bat d ! i * SECTOR) (dv_bitmap_size d) (dv_file d))) \<and>
        (dv_bat d ! i \<noteq> BAT_HOLE \<longrightarrow> 
          length (window (dv_bat d ! i * SECTOR) (dv_bitmap_size d) (dv_file d)) = dv_bitmap_size d))"

lemma load_bitmaps_Inr:
  "load_bitmaps f n bat = Inr bms \<Longrightarrow> length bms = length bat \<and>
    (\<forall>i < length bat. bms ! i = (if bat ! i = BAT_HOLE then None
        else Some (window (bat ! i * SECTOR) n f)) \<and>
      (bat ! i \<noteq> BAT_HOLE \<longrightarrow> length (window (bat ! i * SECTOR) n f) = n))"
proof (induction bat arbitrary: bms)
  case (Cons entry bat)
  then obtain bm bms' where *: "bms = bm # bms'" "load_bitmaps f n bat = Inr bms'"
    "bm = (if entry = BAT_HOLE then None else Some (window (entry * SECTOR) n f))"
    "entry \<noteq> BAT_HOLE \<longrightarrow> length (window (entry * SECTOR) n f) = n"
    by (auto split: sum.splits if_splits dest!: read_exact_at_Inr)
  with Cons.IH [of bms'] show ?case by (auto simp: nth_Cons split: nat.split)
qed simp

lemma length_chunks_exact [simp]: "length (chunks_exact n xs) = length xs div n"
  by (simp add: chunks_exact_def)

lemma dynamic_parse_wf: "dynamic_parse f = Inr d \<Longrightarrow> dynamic_wf d"
proof -
  assume p: "dynamic_parse f = Inr d"
  then obtain footer where footer: "read_footer f = Inr footer"
      "dv_virtual_size d = vf_current_size footer"
    by (auto simp: dynamic_parse_def Let_def split: sum.splits if_splits)
  have vs: "dv_virtual_size d < u64_lim"
    using footer footer_parse_bounds by (auto simp: read_footer_def split: if_splits sum.splits)
  from p have bs: "SECTOR dvd dv_block_size d" "is_power_of_two (dv_block_size d)"
      "dv_bitmap_size d = bitmap_size_of (dv_block_size d)" "dv_file d = f"
    by (auto simp: dynamic_parse_def Let_def dvd_eq_mod_eq_0 split: sum.splits if_splits)
  from p obtain raw where raw: "dv_bat d = map be_val (chunks_exact 4 raw)"
      "load_bitmaps f (dv_bitmap_size d) (dv_bat d) = Inr (dv_bitmaps d)"
    by (auto simp: dynamic_parse_def Let_def split: sum.splits if_splits)
  have "dv_bat d ! i < 2 ^ 32" if "i < length (dv_bat d)" for i
    using that be_val_window_bound [of "4 * i" 4 raw] by (simp add: raw(1) chunks_exact_def)
  with vs bs load_bitmaps_Inr [OF raw(2)] is_power_of_two_ex [OF bs(2)] show ?thesis
    by (simp add: dynamic_wf_def)
qed

lemma bitmap_covers: "s < bs div SECTOR \<Longrightarrow> s div 8 < bitmap_size_of bs"
proof -
  assume s: "s < bs div SECTOR"
  have "bs div SECTOR \<le> div_ceil (bs div SECTOR) 8 * 8" by (rule div_ceil_upper) simp
  moreover have "div_ceil (bs div SECTOR) 8 \<le> bitmap_size_of bs"
    unfolding bitmap_size_of_def Let_def by (rule div_ceil_upper) simp
  ultimately show ?thesis using s by linarith
qed

lemma sectors_per_block_pos: "dynamic_wf d \<Longrightarrow> 0 < sectors_per_block d"
  by (auto simp: dynamic_wf_def sectors_per_block_def dvd_imp_le div_greater_zero_iff)

text \<open>An opened image never indexes out of its tables, whatever the file held.\<close>

lemma sector_offset_no_panic:
  assumes "dynamic_wf d"
  shows "sector_offset ign d sector \<noteq> Inl Panicked"
proof -
  define i where "i = sector div sectors_per_block d"
  have "sector mod sectors_per_block d < dv_block_size d div SECTOR"
    using sectors_per_block_pos [OF assms] by (simp add: sectors_per_block_def)
  from bitmap_covers [OF this]
  have "\<not> length (window (dv_bat d ! i * SECTOR) (dv_bitmap_size d) (dv_file d))
      \<le> (sector mod sectors_per_block d) div 8"
    if "i < length (dv_bat d)" "dv_bat d ! i \<noteq> BAT_HOLE"
  proof -
    have "length (window (dv_bat d ! i * SECTOR) (dv_bitmap_size d) (dv_file d)) = dv_bitmap_size d"
      "dv_bitmap_size d = bitmap_size_of (dv_block_size d)"
      using that assms unfolding dynamic_wf_def by blast+
    then show ?thesis using \<open>_ < bitmap_size_of (dv_block_size d)\<close> by linarith
  qed
  with assms show ?thesis
    by (auto simp: sector_offset_def bat_entry_def block_bitmap_def Let_def i_def dynamic_wf_def
        split: if_splits)
qed

end
