(* ===== verification/Vhd_Chain.thy ===== *)
theory Vhd_Chain
  imports Vhd_Dynamic
begin

text \<open>
  CCBoot increment chains (\<open>storage/vhd/chain.rs\<close>): a base store under dynamic VHD layers, newest
  first. A sector comes from the newest layer whose bitmap claims it, otherwise from the newest
  layer whose block is allocated, otherwise from the base. \<open>chain_byte\<close> is that rule as a
  function of the byte's position, and the reader is shown to serve exactly those bytes. The documents
  leave the second step out; \<open>documented_read\<close> is their rule, and \<open>chain_read_documented\<close> says where
  the code differs from it.
\<close>

section \<open>The chain\<close>

record chained_vhd =
  cv_overlays :: "dynamic_vhd list"
  cv_base :: backing
  cv_virtual_size :: nat

fun open_layers :: "(rstr \<Rightarrow> file_data option) \<Rightarrow> nat \<Rightarrow> rstr list \<Rightarrow> dynamic_vhd list io" where
  "open_layers fs virtual_size [] = Inr []"
| "open_layers fs virtual_size (path # paths) =
     (case dynamic_open fs path of Inl e \<Rightarrow> Inl e
      | Inr layer \<Rightarrow>
          if dv_virtual_size layer \<noteq> virtual_size then Inl InvalidData
          else case open_layers fs virtual_size paths of Inl e \<Rightarrow> Inl e
            | Inr layers \<Rightarrow> Inr (layer # layers))"

definition chain_open :: "(rstr \<Rightarrow> file_data option) \<Rightarrow> backing \<Rightarrow> rstr list \<Rightarrow> chained_vhd io" where
  "chain_open fs base increments =
     (case open_layers fs (bs_size base) (rev increments) of Inl e \<Rightarrow> Inl e
      | Inr overlays \<Rightarrow>
          Inr \<lparr>cv_overlays = overlays, cv_base = base, cv_virtual_size = bs_size base\<rparr>)"

text \<open>The \<open>for layer in &self.overlays\<close> loops: the first layer whose lookup is \<open>Some\<close>.\<close>

fun probe_layers :: "(dynamic_vhd \<Rightarrow> nat option io) \<Rightarrow> dynamic_vhd list \<Rightarrow> (dynamic_vhd \<times> nat) option io" where
  "probe_layers look [] = Inr None"
| "probe_layers look (layer # layers) =
     (case look layer of Inl e \<Rightarrow> Inl e
      | Inr (Some off) \<Rightarrow> Inr (Some (layer, off))
      | Inr None \<Rightarrow> probe_layers look layers)"

definition chain_chunk :: "bool \<Rightarrow> chained_vhd \<Rightarrow> nat \<Rightarrow> nat \<Rightarrow> bytes io" where
  "chain_chunk ign c pos take_n =
     (let sector = pos div SECTOR; within = pos mod SECTOR in
      case probe_layers (\<lambda>l. sector_offset ign l sector) (cv_overlays c) of
        Inl e \<Rightarrow> Inl e
      | Inr (Some (layer, off)) \<Rightarrow> dv_read_phys layer (off + within) take_n
      | Inr None \<Rightarrow>
          (case probe_layers (\<lambda>l. block_sector_offset l sector) (cv_overlays c) of
             Inl e \<Rightarrow> Inl e
           | Inr (Some (layer, off)) \<Rightarrow> dv_read_phys layer (off + within) take_n
           | Inr None \<Rightarrow> bs_read (cv_base c) pos take_n))"

definition chain_read_at :: "bool \<Rightarrow> chained_vhd \<Rightarrow> nat \<Rightarrow> nat \<Rightarrow> bytes io" where
  "chain_read_at ign c offset len =
     (if \<not> range_check offset len (cv_virtual_size c) then Inl InvalidData
      else unit_loop SECTOR (chain_chunk ign c) offset len)"

section \<open>The layering rule and the contract\<close>

definition chain_source :: "bool \<Rightarrow> chained_vhd \<Rightarrow> nat \<Rightarrow> (dynamic_vhd \<times> nat) option io" where
  "chain_source ign c sector =
     (case probe_layers (\<lambda>l. sector_offset ign l sector) (cv_overlays c) of
        Inl e \<Rightarrow> Inl e
      | Inr (Some s) \<Rightarrow> Inr (Some s)
      | Inr None \<Rightarrow> probe_layers (\<lambda>l. block_sector_offset l sector) (cv_overlays c))"

definition chain_byte :: "bool \<Rightarrow> chained_vhd \<Rightarrow> nat \<Rightarrow> u8" where
  "chain_byte ign c i =
     (case chain_source ign c (i div SECTOR) of
        Inr (Some (layer, off)) \<Rightarrow> dv_file layer ! (off + i mod SECTOR)
      | _ \<Rightarrow> disk_bytes (cv_base c) ! i)"

definition chain_content :: "bool \<Rightarrow> chained_vhd \<Rightarrow> bytes" where
  "chain_content ign c = map (chain_byte ign c) [0..<cv_virtual_size c]"

text \<open>Every layer can locate every sector of the disk inside its file.\<close>

definition located :: "dynamic_vhd \<Rightarrow> nat \<Rightarrow> nat \<Rightarrow> nat option io \<Rightarrow> bool" where
  "located l virtual_size s r \<longleftrightarrow>
     (case r of Inl e \<Rightarrow> False | Inr None \<Rightarrow> True
      | Inr (Some off) \<Rightarrow> off + min SECTOR (virtual_size - s * SECTOR) \<le> length (dv_file l))"

definition layer_valid :: "bool \<Rightarrow> nat \<Rightarrow> dynamic_vhd \<Rightarrow> bool" where
  "layer_valid ign virtual_size l \<longleftrightarrow>
     (\<forall>s < div_ceil virtual_size SECTOR.
        located l virtual_size s (sector_offset ign l s) \<and>
        located l virtual_size s (block_sector_offset l s))"

definition chain_valid :: "bool \<Rightarrow> chained_vhd \<Rightarrow> bool" where
  "chain_valid ign c \<longleftrightarrow>
     serves (cv_base c) \<and> cv_virtual_size c = bs_size (cv_base c) \<and> cv_virtual_size c < u64_lim \<and>
     list_all (layer_valid ign (cv_virtual_size c)) (cv_overlays c)"

lemma probe_layers_Some:
  "probe_layers look ls = Inr (Some (l, off)) \<Longrightarrow> l \<in> set ls \<and> look l = Inr (Some off)"
  by (induction ls) (auto split: sum.splits option.splits)

lemma probe_layers_defined:
  "(\<And>l. l \<in> set ls \<Longrightarrow> \<exists>r. look l = Inr r) \<Longrightarrow> \<exists>r. probe_layers look ls = Inr r"
proof (induction ls)
  case (Cons l ls)
  from Cons.prems [of l] obtain r where "look l = Inr r" by auto
  with Cons show ?case by (cases r) auto
qed simp

lemma chain_chunk_source:
  "chain_chunk ign c pos n =
    (case chain_source ign c (pos div SECTOR) of
       Inl e \<Rightarrow> Inl e
     | Inr (Some (layer, off)) \<Rightarrow> dv_read_phys layer (off + pos mod SECTOR) n
     | Inr None \<Rightarrow> bs_read (cv_base c) pos n)"
  by (auto simp: chain_chunk_def chain_source_def Let_def split: sum.splits option.splits)

lemma chain_source_located:
  assumes "chain_valid ign c" and "s < div_ceil (cv_virtual_size c) SECTOR"
  obtains (base) "chain_source ign c s = Inr None"
    | (layer) l off where "chain_source ign c s = Inr (Some (l, off))"
        "off + min SECTOR (cv_virtual_size c - s * SECTOR) \<le> length (dv_file l)"
proof -
  let ?P = "\<lambda>look. \<forall>l \<in> set (cv_overlays c). located l (cv_virtual_size c) s (look l)"
  have P: "?P (\<lambda>l. sector_offset ign l s)" "?P (\<lambda>l. block_sector_offset l s)"
    using assms by (auto simp: chain_valid_def list_all_iff layer_valid_def)
  have res: "\<exists>r. probe_layers look (cv_overlays c) = Inr r \<and> (case r of None \<Rightarrow> True
      | Some (l, off) \<Rightarrow> off + min SECTOR (cv_virtual_size c - s * SECTOR) \<le> length (dv_file l))"
    if "?P look" for look
  proof -
    have "\<exists>r. look l = Inr r" if "l \<in> set (cv_overlays c)" for l
      using \<open>?P look\<close> that by (cases "look l") (auto simp: located_def)
    then obtain r where r: "probe_layers look (cv_overlays c) = Inr r"
      using probe_layers_defined by blast
    with \<open>?P look\<close> show ?thesis
      by (cases r) (auto simp: located_def dest!: probe_layers_Some bspec)
  qed
  obtain r1 where r1: "probe_layers (\<lambda>l. sector_offset ign l s) (cv_overlays c) = Inr r1"
      "case r1 of None \<Rightarrow> True
      | Some (l, off) \<Rightarrow> off + min SECTOR (cv_virtual_size c - s * SECTOR) \<le> length (dv_file l)"
    using res [OF P(1)] by blast
  obtain r2 where r2: "probe_layers (\<lambda>l. block_sector_offset l s) (cv_overlays c) = Inr r2"
      "case r2 of None \<Rightarrow> True
      | Some (l, off) \<Rightarrow> off + min SECTOR (cv_virtual_size c - s * SECTOR) \<le> length (dv_file l)"
    using res [OF P(2)] by blast
  have src: "chain_source ign c s = Inr (case r1 of None \<Rightarrow> r2 | Some s \<Rightarrow> Some s)"
    using r1(1) r2(1) by (auto simp: chain_source_def split: option.split)
  show ?thesis
  proof (cases "case r1 of None \<Rightarrow> r2 | Some s \<Rightarrow> Some s")
    case None
    with src base show ?thesis by simp
  next
    case (Some p)
    with src r1(2) r2(2) layer [of "fst p" "snd p"] show ?thesis
      by (auto split: option.splits)
  qed
qed

lemma chain_chunk_window:
  assumes valid: "chain_valid ign c"
    and n: "0 < n" "p + n \<le> cv_virtual_size c" "p mod SECTOR + n \<le> SECTOR"
  shows "chain_chunk ign c p n = Inr (window p n (chain_content ign c))"
proof -
  have e: "p div SECTOR * SECTOR + p mod SECTOR = p" by simp
  then have "p div SECTOR * SECTOR < cv_virtual_size c" using n by linarith
  then have s: "p div SECTOR < div_ceil (cv_virtual_size c) SECTOR" by (simp add: div_ceil_le_iff)
  have fit: "p mod SECTOR + n \<le> min SECTOR (cv_virtual_size c - p div SECTOR * SECTOR)"
    using n e by linarith
  have shift: "(p + i) div SECTOR = p div SECTOR" "(p + i) mod SECTOR = p mod SECTOR + i" if "i < n" for i
    using div_mod_shift [of p SECTOR i] that n by auto
  from valid s show ?thesis
  proof (cases rule: chain_source_located)
    case base
    have "bs_read (cv_base c) p n = Inr (window p n (disk_bytes (cv_base c)))"
      using valid n dyn.read_in_range [of "cv_base c" p n] by (simp add: chain_valid_def)
    moreover have "window p n (disk_bytes (cv_base c)) = window p n (chain_content ign c)"
      using valid n base shift dyn.content_length [of "cv_base c"]
      by (intro nth_equalityI) (simp_all add: chain_valid_def chain_content_def chain_byte_def)
    ultimately show ?thesis using base by (simp add: chain_chunk_source)
  next
    case (layer l off)
    have "off + p mod SECTOR + n \<le> length (dv_file l)" using layer fit by linarith
    moreover have "window (off + p mod SECTOR) n (dv_file l) = window p n (chain_content ign c)"
      using calculation n layer shift
      by (intro nth_equalityI) (simp_all add: chain_content_def chain_byte_def add.assoc)
    ultimately show ?thesis
      using layer by (simp add: chain_chunk_source dv_read_phys_def read_exact_at_in)
  qed
qed

interpretation chain:
  backing_store cv_virtual_size "chain_read_at ign" "chain_content ign" "chain_valid ign" for ign
proof unfold_locales
  fix c off len
  assume v: "chain_valid ign c"
  show "length (chain_content ign c) = cv_virtual_size c" by (simp add: chain_content_def)
  {
    assume "off + len \<le> cv_virtual_size c"
    with v show "chain_read_at ign c off len = Inr (window off len (chain_content ign c))"
      using unit_loop_window [of SECTOR "chain_content ign c" "chain_chunk ign c" off len]
        chain_chunk_window [OF v]
      by (simp add: chain_read_at_def range_check_iff chain_valid_def chain_content_def)
  next
    assume "cv_virtual_size c < off + len"
    with v show "chain_read_at ign c off len = Inl InvalidData"
      by (simp add: chain_read_at_def range_check_iff chain_valid_def)
  }
qed

text \<open>Which layer wins: the first one in the list that claims the sector.\<close>

lemma probe_layers_first:
  assumes "k < length ls" and "\<forall>j < k. look (ls ! j) = Inr None" and "look (ls ! k) = Inr (Some off)"
  shows "probe_layers look ls = Inr (Some (ls ! k, off))"
  using assms
proof (induction ls arbitrary: k)
  case (Cons l ls)
  show ?case
  proof (cases k)
    case (Suc m)
    have "look l = Inr None" using Cons.prems(2) Suc by (metis nth_Cons_0 zero_less_Suc)
    moreover have "\<forall>j < m. look (ls ! j) = Inr None" using Cons.prems(2) Suc by fastforce
    ultimately show ?thesis using Cons.IH [of m] Cons.prems Suc by simp
  qed (use Cons.prems in simp)
qed simp

lemma probe_layers_none: "(\<forall>l \<in> set ls. look l = Inr None) \<Longrightarrow> probe_layers look ls = Inr None"
  by (induction ls) auto

text \<open>
  The rule without offsets: the newest layer whose bitmap claims the sector, else the newest one
  whose block is allocated. Either way the bytes are those of the block in that layer's file.
\<close>

definition bitmap_layer :: "bool \<Rightarrow> chained_vhd \<Rightarrow> nat \<Rightarrow> dynamic_vhd option" where
  "bitmap_layer ign c sector = find (\<lambda>l. sector_offset ign l sector \<noteq> Inr None) (cv_overlays c)"

definition block_layer :: "chained_vhd \<Rightarrow> nat \<Rightarrow> dynamic_vhd option" where
  "block_layer c sector = find (\<lambda>l. block_sector_offset l sector \<noteq> Inr None) (cv_overlays c)"

definition layer_for :: "bool \<Rightarrow> chained_vhd \<Rightarrow> nat \<Rightarrow> dynamic_vhd option" where
  "layer_for ign c sector = (case bitmap_layer ign c sector of Some l \<Rightarrow> Some l | None \<Rightarrow> block_layer c sector)"

definition sector_data :: "dynamic_vhd \<Rightarrow> nat \<Rightarrow> nat" where
  "sector_data l sector =
     phys_offset l (dv_bat l ! (sector div sectors_per_block l)) (sector mod sectors_per_block l)"

lemma sector_offset_data:
  "sector_offset ign l s = Inr (Some off) \<Longrightarrow> off = sector_data l s"
  "block_sector_offset l s = Inr (Some off) \<Longrightarrow> off = sector_data l s"
  by (auto simp: sector_offset_def block_sector_offset_def bat_entry_def sector_data_def Let_def
      split: sum.splits if_splits)

lemma probe_layers_find:
  assumes "\<forall>l \<in> set ls. \<exists>r. look l = Inr r" "\<And>l off. look l = Inr (Some off) \<Longrightarrow> off = data l"
  shows "probe_layers look ls = Inr (map_option (\<lambda>l. (l, data l)) (find (\<lambda>l. look l \<noteq> Inr None) ls))"
  using assms(1)
proof (induction ls)
  case (Cons l ls)
  then show ?case using assms(2) [of l] by (cases "look l") (auto split: option.split)
qed simp

lemma chain_source_layer:
  assumes "chain_valid ign c" "s < div_ceil (cv_virtual_size c) SECTOR"
  shows "chain_source ign c s = Inr (map_option (\<lambda>l. (l, sector_data l s)) (layer_for ign c s))"
proof -
  have "\<exists>r. sector_offset ign l s = Inr r" "\<exists>r. block_sector_offset l s = Inr r" if "l \<in> set (cv_overlays c)" for l
  proof -
    have "located l (cv_virtual_size c) s (sector_offset ign l s)" "located l (cv_virtual_size c) s (block_sector_offset l s)"
      using assms that by (auto simp: chain_valid_def list_all_iff layer_valid_def)
    then show "\<exists>r. sector_offset ign l s = Inr r" "\<exists>r. block_sector_offset l s = Inr r"
      by (auto simp: located_def split: sum.splits)
  qed
  then show ?thesis
    unfolding chain_source_def layer_for_def bitmap_layer_def block_layer_def
    by (subst (1 2) probe_layers_find [where data = "\<lambda>l. sector_data l s"])
      (auto dest: sector_offset_data split: option.split)
qed

definition layer_read :: "chained_vhd \<Rightarrow> dynamic_vhd option \<Rightarrow> nat \<Rightarrow> nat \<Rightarrow> bytes io" where
  "layer_read c src p n =
     (case src of None \<Rightarrow> bs_read (cv_base c) p n
      | Some l \<Rightarrow> read_exact_at (dv_file l) (sector_data l (p div SECTOR) + p mod SECTOR) n)"

lemma chain_read_layer:
  assumes "chain_valid ign c" "0 < n" "p + n \<le> cv_virtual_size c" "p mod SECTOR + n \<le> SECTOR"
  shows "chain_read_at ign c p n = layer_read c (layer_for ign c (p div SECTOR)) p n"
proof -
  have e: "p div SECTOR * SECTOR + p mod SECTOR = p" by simp
  then have "p div SECTOR * SECTOR < cv_virtual_size c" using assms(2,3) by linarith
  then have s: "p div SECTOR < div_ceil (cv_virtual_size c) SECTOR" by (simp add: div_ceil_le_iff)
  have "chain_read_at ign c p n = Inr (window p n (chain_content ign c))"
    using chain.read_in_range [OF assms(1,3)] .
  also have "\<dots> = chain_chunk ign c p n" using chain_chunk_window [OF assms] by simp
  finally show ?thesis
    by (simp add: layer_read_def chain_chunk_source chain_source_layer [OF assms(1) s] dv_read_phys_def
        split: option.split)
qed

text \<open>
  What the head of \<open>chain.rs\<close> and the design document (section 6) promise instead: the newest layer whose
  bitmap claims the sector, otherwise the base.
\<close>

definition documented_read :: "chained_vhd \<Rightarrow> nat \<Rightarrow> nat \<Rightarrow> bytes io" where
  "documented_read c p n = layer_read c (bitmap_layer False c (p div SECTOR)) p n"

lemma chain_read_documented:
  assumes "chain_valid False c" "0 < n" "p + n \<le> cv_virtual_size c" "p mod SECTOR + n \<le> SECTOR"
  shows "chain_read_at False c p n = documented_read c p n \<longleftrightarrow>
    bitmap_layer False c (p div SECTOR) \<noteq> None \<or> block_layer c (p div SECTOR) = None \<or>
    layer_read c (block_layer c (p div SECTOR)) p n = bs_read (cv_base c) p n"
proof (cases "bitmap_layer False c (p div SECTOR)")
  case None
  then have "chain_read_at False c p n = layer_read c (block_layer c (p div SECTOR)) p n"
    "documented_read c p n = bs_read (cv_base c) p n"
    using chain_read_layer [OF assms] by (simp_all add: layer_for_def documented_read_def layer_read_def)
  then show ?thesis using None by (auto simp: layer_read_def)
next
  case (Some l)
  then show ?thesis using chain_read_layer [OF assms] by (simp add: layer_for_def documented_read_def)
qed

section \<open>Finding the increments\<close>

text \<open>
  \<open>find_increments\<close>: the names \<open>stem.digits.ext\<close> of the directory listing, matched case
  insensitively, in the order of their numbers (\<open>sort_by_key\<close> is stable). The listing, and the
  stem and extension of the base path, come from the file system; \<open>None\<close> is a path without
  them, or an unreadable directory.
\<close>

definition increment_number :: "(rstr \<Rightarrow> rstr) \<Rightarrow> rstr \<Rightarrow> rstr \<Rightarrow> rstr \<Rightarrow> nat option" where
  "increment_number uni stem ext name =
     (let name_lc = to_lowercase uni name in
      case strip_prefix (to_lowercase uni stem) name_lc of None \<Rightarrow> None
    | Some rest \<Rightarrow>
        (case strip_prefix [46] rest of None \<Rightarrow> None
       | Some rest \<Rightarrow>
           (case strip_suffix (to_lowercase uni ext) rest of None \<Rightarrow> None
          | Some num \<Rightarrow>
              (case strip_suffix [46] num of None \<Rightarrow> None
             | Some num \<Rightarrow>
                 if num = [] \<or> \<not> list_all is_ascii_digit num then None
                 else parse_uint (2 ^ 32) num))))"

definition find_increments ::
  "(rstr \<Rightarrow> rstr) \<Rightarrow> rstr list option \<Rightarrow> (rstr \<times> rstr) option \<Rightarrow> rstr list" where
  "find_increments uni listing base =
     (case (base, listing) of
        (Some (stem, ext), Some entries) \<Rightarrow>
          let found = List.map_filter (\<lambda>name. map_option (\<lambda>n. (n, name)) (increment_number uni stem ext name)) entries
          in map snd (sort_key fst found)
      | _ \<Rightarrow> [])"

lemma find_increments_sorted:
  "sorted (map (\<lambda>name. the (increment_number uni stem ext name))
     (find_increments uni (Some entries) (Some (stem, ext))))"
proof -
  define found where "found = List.map_filter
    (\<lambda>name. map_option (\<lambda>n. (n, name)) (increment_number uni stem ext name)) entries"
  have *: "the (increment_number uni stem ext (snd p)) = fst p" if "p \<in> set found" for p
    using that by (auto simp: found_def map_filter_def)
  have "map (\<lambda>name. the (increment_number uni stem ext name)) (map snd (sort_key fst found))
      = map fst (sort_key fst found)"
    using * by (simp add: o_def cong: map_cong)
  moreover have "sorted (map fst (sort_key fst found))" by (rule sorted_sort_key)
  ultimately show ?thesis by (simp add: find_increments_def found_def [symmetric] Let_def del: map_map)
qed

lemma find_increments_set:
  "set (find_increments uni (Some entries) (Some (stem, ext)))
    = {name \<in> set entries. increment_number uni stem ext name \<noteq> None}"
  by (force simp: find_increments_def Let_def map_filter_def)

lemma increment_number_Some:
  assumes "increment_number uni stem ext name = Some n"
  shows "\<exists>num. to_lowercase uni name = to_lowercase uni stem @ [46] @ num @ [46] @ to_lowercase uni ext \<and>
    num \<noteq> [] \<and> list_all is_ascii_digit num \<and> digits_val num = n"
  using assms
  by (auto simp: increment_number_def Let_def strip_prefix_Some strip_suffix_Some parse_uint_digits
      split: option.splits if_splits)

lemma increment_number_dec:
  assumes "is_ascii stem" "is_ascii ext" "n < 2 ^ 32"
  shows "increment_number uni stem ext (stem @ [46] @ dec n @ [46] @ ext) = Some n"
proof -
  have digit: "ascii_lower b = b" if "is_ascii_digit b" for b
    using is_ascii_digit_range [OF that] by (auto simp: ascii_lower_def word_le_nat_alt)
  have "is_ascii (stem @ [46] @ dec n @ [46] @ ext)" using assms is_ascii_dec [of n] by (simp add: is_ascii_def)
  moreover have "map ascii_lower (dec n) = dec n"
    using dec_digits [of n] digit by (simp add: list_all_iff map_idI)
  moreover have "ascii_lower 46 = 46" by (simp add: ascii_lower_def)
  ultimately have "to_lowercase uni (stem @ [46] @ dec n @ [46] @ ext)
      = to_lowercase uni stem @ [46] @ dec n @ [46] @ to_lowercase uni ext"
    using assms by (simp add: to_lowercase_def)
  moreover have "strip_prefix p (p @ r) = Some r" for p r :: rstr by (simp add: strip_prefix_Some)
  moreover have "strip_suffix p (r @ p) = Some r" for p r :: rstr by (simp add: strip_suffix_Some)
  ultimately show ?thesis
    using dec_digits [of n] parse_uint_dec [OF assms(3)] strip_suffix_Some [of "to_lowercase uni ext" "dec n @ 46 # to_lowercase uni ext" "dec n @ [46]"]
    by (simp add: increment_number_def)
qed

end
