(* ===== verification/Vhd_Write.thy ===== *)
theory Vhd_Write
  imports Vhd_Chain
begin

text \<open>
  The dynamic VHD writer behind \<open>xboot flatten\<close> (\<open>storage/vhd/write.rs\<close>). The output file is
  the byte list written so far; creating, seeking and flushing it succeed in the model. The main
  result is the round trip: the reader opens what the writer produces and serves exactly the
  bytes of the source, for every image up to the 2040 GiB limit of the format.
\<close>

section \<open>The writer\<close>

definition DEFAULT_BLOCK_SIZE :: nat where
  "DEFAULT_BLOCK_SIZE = 2 * 1024 * 1024"

definition TABLE_OFFSET :: nat where
  "TABLE_OFFSET = 512 + 1024"

definition dynamic_header :: "nat \<Rightarrow> nat \<Rightarrow> bytes" where
  "dynamic_header n_blocks block_size =
     (let hdr = puts
            [(0, ascii ''cxsparse''), (8, be_bytes 8 (2 ^ 64 - 1)), (16, be_bytes 8 TABLE_OFFSET),
             (24, be_bytes 4 65536), (28, be_bytes 4 n_blocks), (32, be_bytes 4 block_size)] (zeros 1024)
      in put 36 (be_bytes 4 (unat (checksum hdr 36 40))) hdr)"

text \<open>
  The block loop, over the indices still to write. \<open>block_buf\<close> is the block read into the front
  of the buffer with its tail zeroed. An all-zero block stays unallocated. \<open>next_block_sector\<close> is
  a \<open>u32\<close>: the addition panics past its range.
\<close>

primrec write_blocks ::
  "backing \<Rightarrow> nat \<Rightarrow> nat \<Rightarrow> bytes \<Rightarrow> nat list \<Rightarrow> nat list \<Rightarrow> nat \<Rightarrow> bytes \<Rightarrow> (nat list \<times> bytes) io" where
  "write_blocks source virtual_size block_size full_bitmap [] bat next_sector out = Inr (bat, out)"
| "write_blocks source virtual_size block_size full_bitmap (i # is) bat next_sector out =
     (let off = i * block_size;
          this = min block_size (virtual_size - off) in
      case bs_read source off this of
        Inl e \<Rightarrow> Inl e
      | Inr data \<Rightarrow>
          let block_buf = data @ zeros (block_size - this) in
          if list_all (\<lambda>b. b = 0) block_buf
          then write_blocks source virtual_size block_size full_bitmap is bat next_sector out
          else
            let next' = next_sector + (length full_bitmap + block_size) div SECTOR in
            if 2 ^ 32 \<le> next' then Inl Panicked
            else write_blocks source virtual_size block_size full_bitmap is (bat[i := next_sector]) next'
                   (out @ full_bitmap @ block_buf))"

definition write_dynamic_vhd :: "u32 \<Rightarrow> backing \<Rightarrow> file_data io" where
  "write_dynamic_vhd secs source =
     (let virtual_size = bs_size source;
          block_size = DEFAULT_BLOCK_SIZE;
          n_blocks = div_ceil virtual_size block_size in
      if u32_max < n_blocks then Inl InvalidData
      else
        let bitmap_bytes_raw = div_ceil (block_size div SECTOR) 8;
            bitmap_size = div_ceil bitmap_bytes_raw SECTOR * SECTOR;
            bat_padded = div_ceil (n_blocks * 4) SECTOR * SECTOR;
            blocks_start = TABLE_OFFSET + bat_padded;
            footer = build_footer secs virtual_size;
            full_bitmap = replicate bitmap_bytes_raw 255 @ zeros (bitmap_size - bitmap_bytes_raw);
            head = footer @ dynamic_header n_blocks block_size @ replicate bat_padded 255 in
        case write_blocks source virtual_size block_size full_bitmap [0..<n_blocks]
               (replicate n_blocks BAT_HOLE) (blocks_start div SECTOR mod 2 ^ 32) head of
          Inl e \<Rightarrow> Inl e
        | Inr (bat, out) \<Rightarrow> Inr (put TABLE_OFFSET (concat (map (be_bytes 4) bat)) (out @ footer)))"

section \<open>Layout of the file\<close>

definition image_block :: "bytes \<Rightarrow> nat \<Rightarrow> bytes" where
  "image_block disk i =
     (let this = min DEFAULT_BLOCK_SIZE (length disk - i * DEFAULT_BLOCK_SIZE) in
      window (i * DEFAULT_BLOCK_SIZE) this disk @ zeros (DEFAULT_BLOCK_SIZE - this))"

definition FULL_BITMAP :: bytes where
  "FULL_BITMAP = replicate 512 255"

lemma length_FULL_BITMAP [simp]: "length FULL_BITMAP = 512"
  by (simp add: FULL_BITMAP_def)

lemma length_image_block: "i * DEFAULT_BLOCK_SIZE \<le> length disk \<Longrightarrow> length (image_block disk i) = DEFAULT_BLOCK_SIZE"
  by (simp add: image_block_def Let_def length_window min_def)

text \<open>What the BAT entry of a block must say: a hole for a zero block, else where the block is.\<close>

definition block_stored :: "bytes \<Rightarrow> bytes \<Rightarrow> nat \<Rightarrow> nat \<Rightarrow> nat \<Rightarrow> bool" where
  "block_stored disk out lo i entry \<longleftrightarrow>
     (if list_all (\<lambda>b. b = 0) (image_block disk i) then entry = BAT_HOLE
      else lo \<le> entry \<and> entry < BAT_HOLE \<and>
        entry * SECTOR + 512 + DEFAULT_BLOCK_SIZE \<le> length out \<and>
        window (entry * SECTOR) 512 out = FULL_BITMAP \<and>
        window (entry * SECTOR + 512) DEFAULT_BLOCK_SIZE out = image_block disk i)"

lemma block_stored_append: "block_stored disk out lo i e \<Longrightarrow> block_stored disk (out @ x) lo i e"
  by (auto simp: block_stored_def window_append1)

lemma block_stored_mono: "block_stored disk out lo i e \<Longrightarrow> lo' \<le> lo \<Longrightarrow> block_stored disk out lo' i e"
  by (auto simp: block_stored_def)

lemma block_sectors: "(512 + DEFAULT_BLOCK_SIZE) div SECTOR = 4097"
  by (simp add: DEFAULT_BLOCK_SIZE_def SECTOR_def)

text \<open>What writing the blocks from \<open>i\<close> on adds: the table and the bytes appended to the file.\<close>

definition blocks_written :: "bytes \<Rightarrow> nat \<Rightarrow> nat \<Rightarrow> nat list \<Rightarrow> nat \<Rightarrow> bytes \<Rightarrow> nat list \<Rightarrow> bytes \<Rightarrow> bool" where
  "blocks_written D n i bat lo out bat' ext \<longleftrightarrow> length bat' = n \<and> length ext \<le> (n - i) * (4097 * SECTOR) \<and>
     (\<forall>j < i. bat' ! j = bat ! j) \<and>
     (\<forall>j. i \<le> j \<longrightarrow> j < n \<longrightarrow> block_stored D (out @ ext) lo j (bat' ! j))"

lemma blocks_written_hole:
  assumes w: "blocks_written D n (Suc i) bat lo out bat' ext"
    and i: "i < n" "list_all (\<lambda>b. b = 0) (image_block D i)" "bat ! i = BAT_HOLE"
  shows "blocks_written D n i bat lo out bat' ext"
proof -
  have "block_stored D (out @ ext) lo i (bat' ! i)" using w i by (simp add: blocks_written_def block_stored_def)
  then have "block_stored D (out @ ext) lo j (bat' ! j)" if "i \<le> j" "j < n" for j
    using that w by (cases "j = i") (auto simp: blocks_written_def)
  moreover have "length ext \<le> (n - i) * (4097 * SECTOR)"
    using w by (auto simp: blocks_written_def intro: order_trans mult_le_mono1)
  ultimately show ?thesis using w by (simp add: blocks_written_def)
qed

lemma blocks_written_data:
  assumes w: "blocks_written D n (Suc i) (bat[i := lo]) (lo + 4097) (out @ FULL_BITMAP @ image_block D i) bat' ext"
    and i: "i < n" "length bat = n" "\<not> list_all (\<lambda>b. b = 0) (image_block D i)"
      "length (image_block D i) = DEFAULT_BLOCK_SIZE"
    and lo: "length out = lo * SECTOR" "lo < BAT_HOLE"
  shows "blocks_written D n i bat lo out bat' (FULL_BITMAP @ image_block D i @ ext)"
proof -
  let ?out = "out @ FULL_BITMAP @ image_block D i"
  have e: "out @ FULL_BITMAP @ image_block D i @ ext = ?out @ ext" by simp
  have "window (lo * SECTOR) 512 ?out = FULL_BITMAP" "window (lo * SECTOR + 512) DEFAULT_BLOCK_SIZE ?out = image_block D i"
    using i(4) by (simp_all add: lo(1) [symmetric] window_append1 window_append2 window_all')
  moreover have "lo * SECTOR + 512 + DEFAULT_BLOCK_SIZE \<le> length ?out"
    using i(4) lo(1) by (simp add: SECTOR_def DEFAULT_BLOCK_SIZE_def)
  ultimately have "block_stored D ?out lo i lo" using i(3) lo(2) by (simp add: block_stored_def)
  moreover have "bat' ! i = lo" using w i(1,2) by (simp add: blocks_written_def)
  ultimately have here: "block_stored D (?out @ ext) lo i (bat' ! i)"
    by (simp only: block_stored_append)
  have "block_stored D (?out @ ext) lo j (bat' ! j)" if "i \<le> j" "j < n" for j
  proof (cases "j = i")
    case False
    then have "block_stored D (?out @ ext) (lo + 4097) j (bat' ! j)" using that w by (simp add: blocks_written_def)
    then show ?thesis by (rule block_stored_mono) simp
  qed (simp add: here del: append_assoc)
  moreover have "n - i = Suc (n - Suc i)" using i(1) by simp
  then have "length (FULL_BITMAP @ image_block D i @ ext) \<le> (n - i) * (4097 * SECTOR)"
    using w i(4) by (simp add: blocks_written_def SECTOR_def DEFAULT_BLOCK_SIZE_def)
  ultimately show ?thesis using w by (simp add: blocks_written_def e del: append_assoc)
qed

lemma length_source_block:
  assumes "serves source" "i < div_ceil (bs_size source) DEFAULT_BLOCK_SIZE"
  shows "i * DEFAULT_BLOCK_SIZE < length (disk_bytes source)" "length (image_block (disk_bytes source) i) = DEFAULT_BLOCK_SIZE"
proof -
  show start: "i * DEFAULT_BLOCK_SIZE < length (disk_bytes source)"
    using assms(2) dyn.content_length [OF assms(1)] div_ceil_le_iff [of DEFAULT_BLOCK_SIZE i "bs_size source"]
    by (simp add: DEFAULT_BLOCK_SIZE_def)
  then show "length (image_block (disk_bytes source) i) = DEFAULT_BLOCK_SIZE" by (intro length_image_block) simp
qed

lemma write_blocks_step:
  assumes src: "serves source" and i: "i < div_ceil (bs_size source) DEFAULT_BLOCK_SIZE"
    and room: "next_sector + 4097 < BAT_HOLE"
  shows "write_blocks source (bs_size source) DEFAULT_BLOCK_SIZE FULL_BITMAP (i # is) bat next_sector out =
      (if list_all (\<lambda>b. b = 0) (image_block (disk_bytes source) i)
       then write_blocks source (bs_size source) DEFAULT_BLOCK_SIZE FULL_BITMAP is bat next_sector out
       else write_blocks source (bs_size source) DEFAULT_BLOCK_SIZE FULL_BITMAP is (bat[i := next_sector])
              (next_sector + 4097) (out @ FULL_BITMAP @ image_block (disk_bytes source) i))"
proof -
  let ?D = "disk_bytes source" and ?B = DEFAULT_BLOCK_SIZE
  have D: "length ?D = bs_size source" using dyn.content_length [OF src] .
  define this where "this = min ?B (bs_size source - i * ?B)"
  have rd: "bs_read source (i * ?B) this = Inr (window (i * ?B) this ?D)"
    using length_source_block(1) [OF src i] D dyn.read_in_range [OF src, of "i * ?B" this] by (simp add: this_def)
  have "window (i * ?B) this ?D @ zeros (?B - this) = image_block ?D i"
    using D by (simp add: image_block_def this_def Let_def)
  then show ?thesis
    using room by (simp add: this_def [symmetric] rd Let_def block_sectors BAT_HOLE_def)
qed

lemma write_blocks_stored:
  assumes src: "serves source" and i: "i \<le> n" "n = div_ceil (bs_size source) DEFAULT_BLOCK_SIZE"
    and "length bat = n" and "length out = next_sector * SECTOR"
    and "\<forall>j. i \<le> j \<longrightarrow> j < n \<longrightarrow> bat ! j = BAT_HOLE"
    and "next_sector + (n - i) * 4097 < BAT_HOLE"
  shows "\<exists>bat' ext. write_blocks source (bs_size source) DEFAULT_BLOCK_SIZE FULL_BITMAP [i..<n] bat next_sector out
      = Inr (bat', out @ ext) \<and> blocks_written (disk_bytes source) n i bat next_sector out bat' ext"
  using assms(2,4-)
proof (induction "n - i" arbitrary: i bat next_sector out)
  case 0
  then show ?case by (intro exI [of _ bat] exI [of _ "[]"]) (simp add: blocks_written_def)
next
  case (Suc m)
  let ?D = "disk_bytes source" and ?B = DEFAULT_BLOCK_SIZE
  have lt: "i < n" and IHm: "m = n - Suc i" using Suc.hyps(2) by auto
  have room: "next_sector + 4097 + (n - Suc i) * 4097 < BAT_HOLE"
    using Suc.prems(5) Suc.hyps(2)[symmetric] IHm[symmetric] by simp
  note step = write_blocks_step [OF src lt [unfolded i(2)], of next_sector "[Suc i..<n]" bat out, folded i(2)]
    and len_block = length_source_block(2) [OF src lt [unfolded i(2)]]
  have up: "[i..<n] = i # [Suc i..<n]" using lt by (rule upt_conv_Cons)
  show ?case
  proof (cases "list_all (\<lambda>b. b = 0) (image_block ?D i)")
    case True
    obtain bat' ext where IH: "write_blocks source (bs_size source) ?B FULL_BITMAP [Suc i..<n] bat next_sector out
        = Inr (bat', out @ ext)" "blocks_written ?D n (Suc i) bat next_sector out bat' ext"
      using Suc.hyps(1) [OF IHm, of bat out next_sector] Suc.prems(2-4) lt room by auto
    then show ?thesis
      using blocks_written_hole [OF IH(2) lt True] Suc.prems(4) lt True step room by (auto simp: up)
  next
    case False
    let ?out = "out @ FULL_BITMAP @ image_block ?D i"
    have len: "length ?out = (next_sector + 4097) * SECTOR"
      using len_block room Suc.prems(3) by (simp add: DEFAULT_BLOCK_SIZE_def SECTOR_def)
    obtain bat' ext where IH: "write_blocks source (bs_size source) ?B FULL_BITMAP [Suc i..<n]
          (bat[i := next_sector]) (next_sector + 4097) ?out = Inr (bat', ?out @ ext)"
      "blocks_written ?D n (Suc i) (bat[i := next_sector]) (next_sector + 4097) ?out bat' ext"
      using Suc.hyps(1) [OF IHm, of "bat[i := next_sector]" ?out "next_sector + 4097"] Suc.prems(2,4) lt len room by auto
    have "blocks_written ?D n i bat next_sector out bat' (FULL_BITMAP @ image_block ?D i @ ext)"
      using blocks_written_data [OF IH(2) lt Suc.prems(2) False] len_block room Suc.prems(3) by simp
    then show ?thesis using IH(1) False step room by (auto simp: up)
  qed
qed

lemma block_stored_put:
  assumes "block_stored disk out lo i e" "off + length src \<le> lo * SECTOR" "lo * SECTOR \<le> length out"
  shows "block_stored disk (put off src out) lo i e"
proof -
  have "window (e * SECTOR) k (put off src out) = window (e * SECTOR) k out"
    "window (e * SECTOR + 512) k (put off src out) = window (e * SECTOR + 512) k out" if "lo \<le> e" for k
  proof -
    have "lo * SECTOR \<le> e * SECTOR" using that by simp
    then have "off + length src \<le> e * SECTOR" using assms(2) by (rule order_trans [rotated])
    then show "window (e * SECTOR) k (put off src out) = window (e * SECTOR) k out"
      "window (e * SECTOR + 512) k (put off src out) = window (e * SECTOR + 512) k out"
      using assms(2,3) by (simp_all add: window_put_after)
  qed
  moreover have "length (put off src out) = length out" using assms(2,3) by (simp add: length_put)
  ultimately show ?thesis
    using assms(1) unfolding block_stored_def by (simp split: if_splits)
qed

section \<open>Reading the file back\<close>

lemma length_concat_be: "length (concat (map (be_bytes 4) bat)) = 4 * length bat"
  using length_concat_fixed [of "map (be_bytes 4) bat" 4] by simp

lemma window_concat_be:
  "i < length bat \<Longrightarrow> window (4 * i) 4 (concat (map (be_bytes 4) bat)) = be_bytes 4 (bat ! i)"
  using window_concat_fixed [of "map (be_bytes 4) bat" 4 i] by simp

lemma chunks_concat_be:
  assumes "\<forall>e \<in> set bat. e < 2 ^ 32"
  shows "map be_val (chunks_exact 4 (concat (map (be_bytes 4) bat))) = bat"
  using assms
  by (intro nth_equalityI) (simp_all add: chunks_exact_def length_concat_be window_concat_be)

lemma load_bitmaps_ok:
  "\<forall>e \<in> set bat. e \<noteq> BAT_HOLE \<longrightarrow> e * SECTOR + n \<le> length f \<and> window (e * SECTOR) n f = bm \<Longrightarrow>
    load_bitmaps f n bat = Inr (map (\<lambda>e. if e = BAT_HOLE then None else Some bm) bat)"
  by (induction bat) (auto simp: read_exact_at_in)

lemma bitmap_size_default: "bitmap_size_of DEFAULT_BLOCK_SIZE = 512"
  by (simp add: bitmap_size_of_def DEFAULT_BLOCK_SIZE_def SECTOR_def div_ceil_def)

lemma length_dynamic_header [simp]: "length (dynamic_header n b) = 1024"
  by (simp add: dynamic_header_def Let_def length_put length_puts puts_fit_def)

lemma window_dynamic_header:
  "window 0 8 (dynamic_header n b) = ascii ''cxsparse''"
  "window 16 8 (dynamic_header n b) = be_bytes 8 TABLE_OFFSET"
  "window 28 4 (dynamic_header n b) = be_bytes 4 n"
  "window 32 4 (dynamic_header n b) = be_bytes 4 b"
  unfolding dynamic_header_def Let_def
  by (subst window_put_before; simp add: length_puts puts_fit_def; subst window_puts; simp add: puts_eval)+

lemma is_power_of_two_default: "is_power_of_two DEFAULT_BLOCK_SIZE"
  by (simp add: DEFAULT_BLOCK_SIZE_def is_power_of_two.simps)

definition written_image :: "bytes \<Rightarrow> nat list \<Rightarrow> file_data \<Rightarrow> u32 \<Rightarrow> nat \<Rightarrow> bool" where
  "written_image disk bat f secs lo \<longleftrightarrow>
     length disk < u64_lim \<and> length f < u64_lim \<and>
     length bat = div_ceil (length disk) DEFAULT_BLOCK_SIZE \<and> length bat < 2 ^ 32 \<and>
     2048 \<le> length f \<and> TABLE_OFFSET + 4 * length bat \<le> length f \<and>
     window 0 512 f = build_footer secs (length disk) \<and>
     window (length f - 512) 512 f = build_footer secs (length disk) \<and>
     window 512 1024 f = dynamic_header (length bat) DEFAULT_BLOCK_SIZE \<and>
     window TABLE_OFFSET (4 * length bat) f = concat (map (be_bytes 4) bat) \<and>
     (\<forall>j < length bat. block_stored disk f lo j (bat ! j))"

text \<open>The reader's view of a file with the writer's layout.\<close>

definition opened_image :: "bytes \<Rightarrow> nat list \<Rightarrow> file_data \<Rightarrow> dynamic_vhd" where
  "opened_image disk bat f = \<lparr>dv_file = f, dv_virtual_size = length disk,
     dv_block_size = DEFAULT_BLOCK_SIZE, dv_bitmap_size = 512, dv_bat = bat,
     dv_bitmaps = map (\<lambda>e. if e = BAT_HOLE then None else Some FULL_BITMAP) bat\<rparr>"

lemma opened_image_sel [simp]:
  "dv_file (opened_image disk bat f) = f" "dv_virtual_size (opened_image disk bat f) = length disk"
  by (simp_all add: opened_image_def)

lemma block_stored_entry:
  assumes "block_stored disk f lo j e"
  shows "e < 2 ^ 32"
    and "e \<noteq> BAT_HOLE \<Longrightarrow> e * SECTOR + 512 \<le> length f \<and> window (e * SECTOR) 512 f = FULL_BITMAP"
proof -
  have "e \<le> BAT_HOLE" using assms by (auto simp: block_stored_def split: if_splits)
  then show "e < 2 ^ 32" by (simp add: BAT_HOLE_def)
  show "e \<noteq> BAT_HOLE \<Longrightarrow> e * SECTOR + 512 \<le> length f \<and> window (e * SECTOR) 512 f = FULL_BITMAP"
    using assms by (auto simp: block_stored_def split: if_splits)
qed

lemma written_entry:
  assumes "written_image disk bat f secs lo" "e \<in> set bat"
  shows "\<exists>j. block_stored disk f lo j e"
  using assms by (auto simp: written_image_def in_set_conv_nth)

lemma parse_image:
  assumes w: "written_image disk bat f secs lo"
  shows "dynamic_parse f = Inr (opened_image disk bat f)"
proof -
  have "read_footer f = Inr \<lparr>vf_data_offset = 512, vf_current_size = length disk,
      vf_disk_type = DISK_TYPE_DYNAMIC\<rparr>"
    using w by (simp add: written_image_def read_footer_def read_exact_at_in footer_parse_build)
  moreover have "be_val (be_bytes 4 DEFAULT_BLOCK_SIZE) = DEFAULT_BLOCK_SIZE"
    "be_val (be_bytes 8 TABLE_OFFSET) = TABLE_OFFSET" "be_val (be_bytes 4 (length bat)) = length bat"
    using w by (simp_all add: written_image_def DEFAULT_BLOCK_SIZE_def TABLE_OFFSET_def)
  moreover have "load_bitmaps f 512 bat = Inr (map (\<lambda>e. if e = BAT_HOLE then None else Some FULL_BITMAP) bat)"
    using written_entry [OF w] block_stored_entry(2) by (intro load_bitmaps_ok) blast
  moreover have "map be_val (chunks_exact 4 (concat (map (be_bytes 4) bat))) = bat"
    using written_entry [OF w] block_stored_entry(1) by (intro chunks_concat_be) blast
  moreover have "DEFAULT_BLOCK_SIZE \<noteq> 0" "DEFAULT_BLOCK_SIZE mod SECTOR = 0"
    by (simp_all add: DEFAULT_BLOCK_SIZE_def SECTOR_def)
  moreover have "2048 \<le> length f" "\<not> 2 ^ 32 < length bat" "TABLE_OFFSET + length bat * 4 \<le> length f"
    "window 512 1024 f = dynamic_header (length bat) DEFAULT_BLOCK_SIZE"
    "window TABLE_OFFSET (length bat * 4) f = concat (map (be_bytes 4) bat)"
    using w unfolding written_image_def mult.commute [of 4] by auto
  ultimately show ?thesis
    using window_dynamic_header
    by (simp add: dynamic_parse_def read_exact_at_in Let_def bitmap_size_default
        is_power_of_two_default opened_image_def)
qed

lemma bit_255: "k < 8 \<Longrightarrow> bit (255 :: u8) k"
proof -
  assume k: "k < 8"
  have "bit (mask 8 :: u8) k" using k by (simp add: bit_mask_iff)
  moreover have "mask 8 = (255 :: u8)" by (simp add: mask_eq_exp_minus_1)
  ultimately show ?thesis by metis
qed

lemma full_bit: "k < 4096 \<Longrightarrow> FULL_BITMAP ! (k div 8) AND push_bit (7 - k mod 8) 1 \<noteq> 0"
proof -
  assume k: "k < 4096"
  have "bit (FULL_BITMAP ! (k div 8) AND push_bit (7 - k mod 8) 1) (7 - k mod 8)"
    using k bit_255 [of "7 - k mod 8"] by (simp add: FULL_BITMAP_def bit_simps)
  then show ?thesis by auto
qed

lemma image_block_index:
  assumes "written_image disk bat f secs lo" "s * SECTOR < length disk"
  shows "s div 4096 < length bat"
proof -
  have "s div 4096 * DEFAULT_BLOCK_SIZE \<le> s * SECTOR" by (simp add: DEFAULT_BLOCK_SIZE_def SECTOR_def)
  then show ?thesis
    using assms by (simp add: written_image_def div_ceil_le_iff DEFAULT_BLOCK_SIZE_def)
qed

lemma image_locate:
  assumes w: "written_image disk bat f secs lo" and s: "s * SECTOR < length disk"
  shows "dv_locate False (opened_image disk bat f) s = (let e = bat ! (s div 4096) in
    Inr (if e = BAT_HOLE then Zero else At (e * SECTOR + 512 + s mod 4096 * SECTOR)))"
proof -
  have spb: "sectors_per_block (opened_image disk bat f) = 4096"
    by (simp add: sectors_per_block_def opened_image_def DEFAULT_BLOCK_SIZE_def SECTOR_def)
  have sel: "dv_bat (opened_image disk bat f) = bat"
    "dv_bitmaps (opened_image disk bat f) = map (\<lambda>e. if e = BAT_HOLE then None else Some FULL_BITMAP) bat"
    "phys_offset (opened_image disk bat f) e k = e * SECTOR + 512 + k * SECTOR" for e k
    by (simp_all add: opened_image_def phys_offset_def)
  have "s mod 4096 div 8 < 512" using mod_less_divisor [of 4096 s] by linarith
  then show ?thesis
    using full_bit [of "s mod 4096"] image_block_index [OF w s]
    by (simp add: dv_locate_def sector_offset_def bat_entry_def block_bitmap_def spb Let_def sel)
qed

lemma image_unit_byte:
  assumes w: "written_image disk bat f secs lo" and i: "i < length disk"
  shows "unit_byte SECTOR (dv_locate False (opened_image disk bat f)) f i = disk ! i"
proof -
  define j where "j = i div DEFAULT_BLOCK_SIZE"
  define r where "r = i mod DEFAULT_BLOCK_SIZE"
  have j_eq: "i div SECTOR div 4096 = j"
    by (simp add: j_def DEFAULT_BLOCK_SIZE_def SECTOR_def div_mult2_eq [symmetric])
  have r_eq: "i div SECTOR mod 4096 * SECTOR + i mod SECTOR = r"
    using mod_mult2_eq [of i 512 4096] by (simp add: r_def DEFAULT_BLOCK_SIZE_def SECTOR_def)
  have ij: "j * DEFAULT_BLOCK_SIZE + r = i" by (simp add: j_def r_def)
  have B: "r < DEFAULT_BLOCK_SIZE" by (simp add: r_def DEFAULT_BLOCK_SIZE_def)
  have start: "j * DEFAULT_BLOCK_SIZE < length disk" using ij i by linarith
  have sec: "i div SECTOR * SECTOR < length disk"
    using i div_times_less_eq_dividend [of i SECTOR] by linarith
  have j: "j < length bat" using image_block_index [OF w sec] by (simp add: j_eq)
  have "r < min DEFAULT_BLOCK_SIZE (length disk - j * DEFAULT_BLOCK_SIZE)" using ij i B by linarith
  then have blk: "image_block disk j ! r = disk ! i"
    using ij i by (simp add: image_block_def Let_def nth_append length_window)
  have len: "length (image_block disk j) = DEFAULT_BLOCK_SIZE"
    using start by (intro length_image_block) simp
  have st: "block_stored disk f lo j (bat ! j)" using w j by (simp add: written_image_def)
  have loc: "dv_locate False (opened_image disk bat f) (i div SECTOR) = Inr (if bat ! j = BAT_HOLE then Zero
      else At (bat ! j * SECTOR + 512 + i div SECTOR mod 4096 * SECTOR))"
    using image_locate [OF w sec] by (simp add: j_eq Let_def)
  show ?thesis
  proof (cases "list_all (\<lambda>b. b = 0) (image_block disk j)")
    case True
    then have "image_block disk j ! r = 0" using B len unfolding list_all_length by simp
    then have "disk ! i = 0" using blk by simp
    with True st loc show ?thesis by (simp add: unit_byte_def block_stored_def)
  next
    case False
    with st have hit: "bat ! j \<noteq> BAT_HOLE"
      "bat ! j * SECTOR + 512 + DEFAULT_BLOCK_SIZE \<le> length f"
      "window (bat ! j * SECTOR + 512) DEFAULT_BLOCK_SIZE f = image_block disk j"
      by (auto simp: block_stored_def)
    have "f ! (bat ! j * SECTOR + 512 + r) = disk ! i"
      using nth_window [of r DEFAULT_BLOCK_SIZE "bat ! j * SECTOR + 512" f] hit B blk by simp
    with hit(1) loc show ?thesis by (simp add: unit_byte_def add.assoc r_eq)
  qed
qed

lemma image_content:
  "written_image disk bat f secs lo \<Longrightarrow> dynamic_content False (opened_image disk bat f) = disk"
  using image_unit_byte by (intro nth_equalityI) (simp_all add: dynamic_content_def unit_bytes_def)

lemma image_valid:
  assumes w: "written_image disk bat f secs lo"
  shows "dynamic_valid False (opened_image disk bat f)"
proof -
  have "case dv_locate False (opened_image disk bat f) s of Inl e \<Rightarrow> False | Inr Zero \<Rightarrow> True
      | Inr (At base) \<Rightarrow> base + min SECTOR (length disk - s * SECTOR) \<le> length f"
    if "s < div_ceil (length disk) SECTOR" for s
  proof -
    have lt: "s * SECTOR < length disk" using that by (simp add: div_ceil_le_iff SECTOR_def)
    have st: "block_stored disk f lo (s div 4096) (bat ! (s div 4096))"
      using w image_block_index [OF w lt] by (simp add: written_image_def)
    have "s mod 4096 * SECTOR + SECTOR \<le> DEFAULT_BLOCK_SIZE"
      using mod_less_divisor [of 4096 s] by (simp add: DEFAULT_BLOCK_SIZE_def SECTOR_def)
    with st show ?thesis
      by (auto simp: image_locate [OF w lt] Let_def block_stored_def split: if_splits)
  qed
  then show ?thesis
    using w by (simp add: dynamic_valid_def units_mapped_def written_image_def)
qed

section \<open>The round trip\<close>

lemma n_blocks_limit: "v \<le> 2040 * 2 ^ 30 \<Longrightarrow> div_ceil v DEFAULT_BLOCK_SIZE \<le> 1044480"
  using div_ceil_le_iff [of DEFAULT_BLOCK_SIZE 1044480 v] by (simp add: DEFAULT_BLOCK_SIZE_def not_less [symmetric])

lemma sector_aligned: "n mod 512 = 0 \<Longrightarrow> n div 512 * 512 = (n :: nat)"
  by auto

lemma div_ceil_mod: "div_ceil a SECTOR * SECTOR mod SECTOR = 0"
  by simp

lemma bitmap_raw_default:
  "replicate (div_ceil (DEFAULT_BLOCK_SIZE div SECTOR) 8) 255 @
     zeros (div_ceil (div_ceil (DEFAULT_BLOCK_SIZE div SECTOR) 8) SECTOR * SECTOR -
       div_ceil (DEFAULT_BLOCK_SIZE div SECTOR) 8) = FULL_BITMAP"
  by (simp add: DEFAULT_BLOCK_SIZE_def SECTOR_def div_ceil_def FULL_BITMAP_def zeros_def)

text \<open>
  The 2040 GiB limit of the format keeps every sector number below the hole marker, so the
  file is the one that \<open>written_image\<close> describes.
\<close>

lemma write_dynamic_written:
  assumes src: "serves source" and lim: "bs_size source \<le> 2040 * 2 ^ 30"
  shows "\<exists>f bat lo. write_dynamic_vhd secs source = Inr f \<and> written_image (disk_bytes source) bat f secs lo"
proof -
  let ?D = "disk_bytes source" and ?B = DEFAULT_BLOCK_SIZE
  define n where "n = div_ceil (bs_size source) ?B"
  define pad where "pad = div_ceil (n * 4) SECTOR * SECTOR"
  define head where "head = build_footer secs (bs_size source) @ dynamic_header n ?B @ replicate pad 255"
  define nx where "nx = (TABLE_OFFSET + pad) div SECTOR"
  have D: "length ?D = bs_size source" using dyn.content_length [OF src] .
  have n: "n \<le> 1044480" using n_blocks_limit [OF lim] by (simp add: n_def)
  have pad: "n * 4 \<le> pad" "pad \<le> n * 4 + 511"
    using div_ceil_upper [of SECTOR "n * 4"] by (simp_all add: pad_def SECTOR_def div_ceil_def)
  have nx: "nx * SECTOR = TABLE_OFFSET + pad"
    by (simp add: nx_def TABLE_OFFSET_def SECTOR_def pad_def)
  have head: "length head = nx * SECTOR"
    by (simp add: head_def nx TABLE_OFFSET_def)
  have "nx \<le> 3 + 8161" using pad n nx by (simp add: TABLE_OFFSET_def SECTOR_def)
  then have room: "nx + (n - 0) * 4097 < BAT_HOLE" "nx mod 2 ^ 32 = nx" "\<not> u32_max < n"
    using n by (simp_all add: BAT_HOLE_def u32_max_def)
  obtain bat ext where w: "write_blocks source (bs_size source) ?B FULL_BITMAP [0..<n]
        (replicate n BAT_HOLE) nx head = Inr (bat, head @ ext)" "length bat = n"
      "length ext \<le> n * (4097 * SECTOR)"
      "\<forall>j. j < n \<longrightarrow> block_stored ?D (head @ ext) nx j (bat ! j)"
    using write_blocks_stored [OF src _ n_def, of 0 "replicate n BAT_HOLE" head nx] head room(1)
    by (auto simp: blocks_written_def)
  define out where "out = head @ ext @ build_footer secs (bs_size source)"
  define f where "f = put TABLE_OFFSET (concat (map (be_bytes 4) bat)) out"
  have tab: "TABLE_OFFSET + length (concat (map (be_bytes 4) bat)) \<le> nx * SECTOR" "nx * SECTOR \<le> length out"
    using w(2) pad head by (simp_all add: length_concat_be nx out_def)
  then have flen: "length f = length out" by (simp add: f_def length_put)
  have "write_dynamic_vhd secs source = Inr f"
    using w(1) room(2,3)
    by (simp add: write_dynamic_vhd_def Let_def n_def [symmetric] pad_def [symmetric]
        bitmap_raw_default nx_def [symmetric] head_def [symmetric] f_def out_def)
  moreover have "block_stored ?D f nx j (bat ! j)" if "j < n" for j
    unfolding f_def using block_stored_put [OF _ tab] block_stored_append w(4) that
    by (simp add: out_def flip: append_assoc)
  moreover have "window (length f - 512) 512 f = build_footer secs (length ?D)"
    unfolding flen unfolding f_def using tab
    by (subst window_put_after) (simp_all add: out_def window_append2 window_all' D head)
  moreover have "window 0 512 f = build_footer secs (length ?D)"
    using tab by (simp add: f_def window_put_before TABLE_OFFSET_def out_def head_def window_append1 window_all' D)
  moreover have "window 512 1024 f = dynamic_header n ?B"
    using tab by (simp add: f_def window_put_before TABLE_OFFSET_def out_def head_def window_append1 window_append2 window_all')
  moreover have "window TABLE_OFFSET (4 * n) f = concat (map (be_bytes 4) bat)"
    using tab w(2) by (simp add: f_def window_put_same' length_concat_be)
  moreover have "length f < u64_lim" "2048 \<le> length f"
    using w(3) n pad by (simp_all add: flen out_def head nx) (simp_all add: TABLE_OFFSET_def SECTOR_def u64_lim_def)
  moreover have "length ?D < u64_lim" using lim by (simp add: D u64_lim_def)
  moreover have "TABLE_OFFSET + 4 * n \<le> length f" "n < 2 ^ 32"
    using tab flen w(2) n by (simp_all add: length_concat_be)
  ultimately show ?thesis
    using w(2) D by (intro exI [of _ f] exI [of _ bat] exI [of _ nx]) (simp add: written_image_def n_def)
qed

lemma flatten_dynamic:
  assumes "serves source" "bs_size source \<le> 2040 * 2 ^ 30"
  shows "\<exists>f d. write_dynamic_vhd secs source = Inr f \<and> dynamic_parse f = Inr d \<and>
    dynamic_valid False d \<and> dynamic_content False d = disk_bytes source"
  using write_dynamic_written [OF assms] parse_image image_valid image_content by blast

text \<open>Past the \<open>u32\<close> range of sectors the writer panics instead of emitting a wrapped BAT entry.\<close>

lemma write_blocks_overflow:
  "bs_read source (i * bsz) (min bsz (vs - i * bsz)) = Inr data \<Longrightarrow> \<exists>b \<in> set data. b \<noteq> 0 \<Longrightarrow>
    2 ^ 32 \<le> next + (length bm + bsz) div SECTOR \<Longrightarrow>
    write_blocks source vs bsz bm (i # is) bat next out = Inl Panicked"
  by (auto simp: Let_def list_all_iff)

end
