(* ===== verification/Vhdx.thy ===== *)
theory Vhdx
  imports Vhd_Dynamic
begin

text \<open>
  The VHDX reader (\<open>storage/vhdx/mod.rs\<close>, \<open>structs.rs\<close>, \<open>metadata.rs\<close>, \<open>crc32c.rs\<close>): the CRC-32C
  that protects headers and region tables, the three on-disk structures \<open>open\<close> reads, and the
  block lookup of \<open>read_at\<close>, which skips the sector-bitmap entries interleaved in the BAT.
\<close>

section \<open>CRC-32C\<close>

definition crc_shift :: "u32 \<Rightarrow> u32" where
  "crc_shift crc = (let mask = - (crc AND 1) in drop_bit 1 crc XOR (0x82F63B78 AND mask))"

definition crc_byte :: "u32 \<Rightarrow> u8 \<Rightarrow> u32" where
  "crc_byte crc b = (crc_shift ^^ 8) (crc XOR ucast b)"

definition crc32c :: "bytes \<Rightarrow> u32" where
  "crc32c bs = NOT (foldl crc_byte 0xFFFFFFFF bs)"

text \<open>
  The polynomial has its top bit set, so the bit that is shifted out can be read back from the
  top of the result: one step, one byte and any suffix of the computation are injective.
\<close>

lemma crc_shift_cases:
  "crc_shift x = (if bit x 0 then drop_bit 1 x XOR 0x82F63B78 else drop_bit 1 x)"
proof -
  have "x AND 1 = (if bit x 0 then 1 else 0)"
    by (simp add: and_one_eq mod2_eq_if bit_0)
  then show ?thesis by (simp add: crc_shift_def Let_def)
qed

lemma xor_cancel_right: "(a :: 'a::len word) XOR c = b XOR c \<longleftrightarrow> a = b"
proof
  assume "a XOR c = b XOR c"
  then have "(a XOR c) XOR c = (b XOR c) XOR c" by simp
  then show "a = b" by (simp only: xor.assoc xor_self_eq xor.right_neutral)
qed simp

lemma poly_top: "bit (0x82F63B78 :: u32) 31"
  by (simp add: bit_numeral_word_iff)

lemma crc_shift_top: "bit (crc_shift x) 31 = bit x 0"
proof -
  have "\<not> bit x 32" using bit_imp_le_length [of x 32] by auto
  then show ?thesis using poly_top by (simp add: crc_shift_cases bit_simps)
qed

lemma drop_bit_1_inj:
  fixes x y :: u32
  assumes "drop_bit 1 x = drop_bit 1 y" "bit x 0 = bit y 0"
  shows "x = y"
proof (rule bit_word_eqI)
  fix n :: nat
  have "bit (drop_bit 1 x) (n - 1) = bit (drop_bit 1 y) (n - 1)" using assms(1) by simp
  then show "bit x n = bit y n" using assms(2) by (cases n) (simp_all add: bit_simps)
qed

lemma inj_crc_shift: "inj crc_shift"
proof (rule injI)
  fix x y assume eq: "crc_shift x = crc_shift y"
  then have b: "bit x 0 = bit y 0" using crc_shift_top [of x] crc_shift_top [of y] by simp
  then have "drop_bit 1 x = drop_bit 1 y"
    using eq by (cases "bit x 0") (simp_all add: crc_shift_cases xor_cancel_right)
  then show "x = y" using b by (rule drop_bit_1_inj)
qed

lemma crc_byte_inj_state: "crc_byte c b = crc_byte c' b \<Longrightarrow> c = c'"
proof -
  assume "crc_byte c b = crc_byte c' b"
  then have "c XOR ucast b = c' XOR ucast b"
    unfolding crc_byte_def by (rule injD [OF inj_fn [OF inj_crc_shift]])
  then show "c = c'" by (simp only: xor_cancel_right)
qed

lemma crc_byte_inj_byte: "crc_byte c b = crc_byte c b' \<Longrightarrow> b = b'"
proof -
  assume "crc_byte c b = crc_byte c b'"
  then have "c XOR ucast b = c XOR ucast b'"
    unfolding crc_byte_def by (rule injD [OF inj_fn [OF inj_crc_shift]])
  then have "ucast b XOR c = ucast b' XOR c" by (simp only: xor.commute)
  then have "(ucast b :: u32) = ucast b'" by (simp only: xor_cancel_right)
  then have "unat (ucast b :: u32) = unat (ucast b' :: u32)" by simp
  then show "b = b'"
    using unat_u8_lt [of b] unat_u8_lt [of b']
    by (simp add: unsigned_ucast_eq word_unat_eq_iff take_bit_nat_eq_self)
qed

lemma crc_tail_inj: "foldl crc_byte c bs = foldl crc_byte c' bs \<Longrightarrow> c = c'"
  by (induction bs arbitrary: c c') (auto dest: crc_byte_inj_state)

lemma crc32c_byte_change:
  assumes "b \<noteq> b'"
  shows "crc32c (xs @ b # ys) \<noteq> crc32c (xs @ b' # ys)"
proof
  let ?c = "foldl crc_byte 0xFFFFFFFF xs"
  assume "crc32c (xs @ b # ys) = crc32c (xs @ b' # ys)"
  then have "foldl crc_byte (crc_byte ?c b) ys = foldl crc_byte (crc_byte ?c b') ys"
    unfolding crc32c_def foldl_append foldl.simps by (metis bit.double_compl)
  with assms show False using crc_tail_inj crc_byte_inj_byte by blast
qed

text \<open>
  Up to four bytes at a time the register holds the message itself: shifting is additive in the
  bits that do not reach the bottom. A burst of at most 32 bits is therefore always detected.
\<close>

primrec le_word :: "bytes \<Rightarrow> u32" where
  "le_word [] = 0"
| "le_word (b # bs) = ucast b XOR push_bit 8 (le_word bs)"

lemma crc_shift_xor: "\<not> bit y 31 \<Longrightarrow> crc_shift (x XOR push_bit 1 y) = crc_shift x XOR y"
proof -
  assume y: "\<not> bit y 31"
  have "drop_bit 1 (x XOR push_bit 1 y) = drop_bit 1 x XOR y"
  proof (rule bit_word_eqI)
    fix n :: nat assume "n < LENGTH(32)"
    then show "bit (drop_bit 1 (x XOR push_bit 1 y)) n = bit (drop_bit 1 x XOR y) n"
    proof (cases "n = 31")
      case True
      then show ?thesis using y bit_imp_le_length [of x 32] bit_imp_le_length [of "push_bit 1 y" 32]
        unfolding bit_drop_bit_eq bit_xor_iff o_apply by auto
    next
      case False
      with \<open>n < LENGTH(32)\<close> show ?thesis
        unfolding bit_drop_bit_eq bit_xor_iff o_apply bit_push_bit_iff by simp
    qed
  qed
  moreover have "bit (x XOR push_bit 1 y) 0 = bit x 0" unfolding bit_xor_iff bit_push_bit_iff by simp
  ultimately show ?thesis by (simp only: crc_shift_cases xor.assoc xor.commute [of y] split: if_split) simp
qed

lemma crc_shifts_xor:
  "(\<And>i. 32 - n \<le> i \<Longrightarrow> \<not> bit y i) \<Longrightarrow> n \<le> 31 \<Longrightarrow>
    (crc_shift ^^ n) (x XOR push_bit n y) = (crc_shift ^^ n) x XOR y"
proof (induction n arbitrary: x)
  case (Suc n)
  have "\<not> bit (push_bit n y) 31"
    using Suc.prems(1) [of "31 - n"] Suc.prems(2) by (simp add: bit_simps)
  then have "crc_shift (x XOR push_bit 1 (push_bit n y)) = crc_shift x XOR push_bit n y"
    by (rule crc_shift_xor)
  moreover have "push_bit (Suc n) y = push_bit 1 (push_bit n y)" by simp
  moreover have "(crc_shift ^^ n) (crc_shift x XOR push_bit n y) = (crc_shift ^^ n) (crc_shift x) XOR y"
    using Suc.prems by (intro Suc.IH) auto
  ultimately show ?case by (simp only: funpow_Suc_right o_apply)
qed simp

lemma bit_le_word: "bit (le_word bs) i \<Longrightarrow> i < 8 * length bs"
proof (induction bs arbitrary: i)
  case (Cons b bs)
  from Cons.prems have "bit b i \<or> 8 \<le> i \<and> bit (le_word bs) (i - 8)" by (auto simp: bit_simps)
  with Cons.IH [of "i - 8"] bit_imp_le_length [of b i] show ?case by auto
qed simp

lemma crc_fold_word:
  "length bs \<le> 4 \<Longrightarrow> foldl crc_byte c bs = (crc_shift ^^ (8 * length bs)) (c XOR le_word bs)"
proof (induction bs arbitrary: c)
  case (Cons b bs)
  have "\<not> bit (le_word bs) i" if "32 - 8 \<le> i" for i
    using that bit_le_word [of bs i] Cons.prems by auto
  then have "(crc_shift ^^ 8) ((c XOR ucast b) XOR push_bit 8 (le_word bs)) = crc_byte c b XOR le_word bs"
    unfolding crc_byte_def by (intro crc_shifts_xor) auto
  moreover have "8 * length (b # bs) = 8 * length bs + 8" by simp
  ultimately show ?case
    using Cons by (simp only: funpow_add o_apply le_word.simps foldl.simps xor.assoc [symmetric])
qed simp

lemma le_word_inj: "length xs = length ys \<Longrightarrow> length xs \<le> 4 \<Longrightarrow> le_word xs = le_word ys \<Longrightarrow> xs = ys"
proof (induction xs ys rule: list_induct2)
  case (Cons x xs y ys)
  have eq: "bit (le_word (x # xs)) i = bit (le_word (y # ys)) i" for i using Cons.prems by simp
  have "x = y"
  proof (rule bit_word_eqI)
    fix n :: nat assume "n < LENGTH(8)"
    then show "bit x n = bit y n" using eq [of n] by (simp add: bit_simps)
  qed
  moreover have "le_word xs = le_word ys"
  proof (rule bit_word_eqI)
    fix n :: nat assume n: "n < LENGTH(32)"
    show "bit (le_word xs) n = bit (le_word ys) n"
    proof (cases "n < 24")
      case True
      then show ?thesis
        using eq [of "n + 8"] bit_imp_le_length [of x "n + 8"] bit_imp_le_length [of y "n + 8"]
        by (auto simp: bit_simps)
    next
      case False
      then show ?thesis using bit_le_word [of xs n] bit_le_word [of ys n] Cons.hyps Cons.prems by auto
    qed
  qed
  ultimately show ?case using Cons by simp
qed simp

lemma crc32c_burst:
  assumes "length bs = length bs'" "length bs \<le> 4" "bs \<noteq> bs'"
  shows "crc32c (xs @ bs @ ys) \<noteq> crc32c (xs @ bs' @ ys)"
proof
  let ?c = "foldl crc_byte 0xFFFFFFFF xs"
  assume "crc32c (xs @ bs @ ys) = crc32c (xs @ bs' @ ys)"
  then have "foldl crc_byte (foldl crc_byte ?c bs) ys = foldl crc_byte (foldl crc_byte ?c bs') ys"
    unfolding crc32c_def foldl_append by (metis bit.double_compl)
  then have "foldl crc_byte ?c bs = foldl crc_byte ?c bs'" by (rule crc_tail_inj)
  then have "(crc_shift ^^ (8 * length bs)) (?c XOR le_word bs) = (crc_shift ^^ (8 * length bs)) (?c XOR le_word bs')"
    using assms by (simp add: crc_fold_word)
  then have "?c XOR le_word bs = ?c XOR le_word bs'"
    by (rule injD [OF inj_fn [OF inj_crc_shift]])
  then have "le_word bs = le_word bs'" by (simp only: xor.commute [of ?c] xor_cancel_right)
  with assms le_word_inj show False by blast
qed

lemma crc_byte_unfold:
  "crc_byte c b = crc_shift (crc_shift (crc_shift (crc_shift (crc_shift (crc_shift (crc_shift (crc_shift
     (c XOR ucast b))))))))"
  by (simp add: crc_byte_def eval_nat_numeral)

lemma crc32c_check_value: "crc32c (ascii ''123456789'') = 0xE3069283"
  by (simp add: crc32c_def crc_byte_unfold crc_shift_cases)

section \<open>Headers and the region table\<close>

definition BAT_GUID :: bytes where
  "BAT_GUID = [0x66, 0x77, 0xC2, 0x2D, 0x23, 0xF6, 0x00, 0x42, 0x9D, 0x64, 0x11, 0x5E, 0x9B, 0xFD, 0x4A, 0x08]"

definition METADATA_GUID :: bytes where
  "METADATA_GUID = [0x06, 0xA2, 0x7C, 0x8B, 0x90, 0x47, 0x9A, 0x4B, 0xB8, 0xFE, 0x57, 0x5F, 0x05, 0x0F, 0x88, 0x6E]"

text \<open>The checksum is taken with the checksum field zeroed.\<close>

definition crc_ok :: "nat \<Rightarrow> bytes \<Rightarrow> bool" where
  "crc_ok n h \<longleftrightarrow> unat (crc32c (put 4 (zeros 4) (take n h))) = le_val (window 4 4 h)"

definition parse_one_header :: "bytes \<Rightarrow> nat io" where
  "parse_one_header h =
     (if length h < 4096 \<or> window 0 4 h \<noteq> ascii ''head'' then Inl InvalidData
      else if \<not> crc_ok 4096 h then Inl InvalidData
      else if le_val (window 66 2 h) \<noteq> 1 then Inl InvalidData
      else if list_ex (\<lambda>b. b \<noteq> 0) (window 48 16 h) then Inl InvalidData
      else Inr (le_val (window 8 8 h)))"

definition parse_best_header :: "bytes \<Rightarrow> bytes \<Rightarrow> nat io" where
  "parse_best_header h1 h2 =
     (case (parse_one_header h1, parse_one_header h2) of
        (Inr a, Inr b) \<Rightarrow> Inr (if b \<le> a then a else b)
      | (Inr a, Inl _) \<Rightarrow> Inr a
      | (Inl _, Inr b) \<Rightarrow> Inr b
      | (Inl _, Inl _) \<Rightarrow> Inl InvalidData)"

record regions =
  rg_bat :: "(nat \<times> nat) option"
  rg_metadata :: "(nat \<times> nat) option"

definition region_entry :: "bytes \<Rightarrow> nat \<Rightarrow> regions \<Rightarrow> regions" where
  "region_entry rt i regions =
     (let e = 16 + i * 32;
          guid = window e 16 rt;
          off = le_val (window (e + 16) 8 rt);
          len = le_val (window (e + 24) 4 rt) in
      if guid = BAT_GUID then regions\<lparr>rg_bat := Some (off, len)\<rparr>
      else if guid = METADATA_GUID then regions\<lparr>rg_metadata := Some (off, len)\<rparr>
      else regions)"

definition parse_region_table :: "bytes \<Rightarrow> regions io" where
  "parse_region_table rt =
     (if length rt < 65536 \<or> window 0 4 rt \<noteq> ascii ''regi'' then Inl InvalidData
      else if \<not> crc_ok 65536 rt then Inl InvalidData
      else
        let count = le_val (window 8 4 rt) in
        if 65536 < 16 + count * 32 then Inl InvalidData
        else Inr (fold (region_entry rt) [0..<count] \<lparr>rg_bat = None, rg_metadata = None\<rparr>))"

text \<open>Changing one byte of a protected structure makes its checksum or its stored copy wrong.\<close>

lemma le_val_inj: "length xs = length ys \<Longrightarrow> le_val xs = le_val ys \<Longrightarrow> xs = ys"
  unfolding le_val_def by (drule be_val_inj [rotated]) simp_all

lemma list_update_split: "i < length xs \<Longrightarrow> xs[i := x] = take i xs @ x # drop (Suc i) xs"
  by (simp add: upd_conv_take_nth_drop)

lemma crc32c_update: "i < length xs \<Longrightarrow> b \<noteq> xs ! i \<Longrightarrow> crc32c (xs[i := b]) \<noteq> crc32c xs"
  using crc32c_byte_change [of b "xs ! i" "take i xs" "drop (Suc i) xs"]
  by (simp add: list_update_split id_take_nth_drop [symmetric])

lemma put_update_inside:
  "off \<le> i \<Longrightarrow> i < off + length src \<Longrightarrow> off + length src \<le> length d \<Longrightarrow> put off src (d[i := b]) = put off src d"
  by (rule nth_equalityI) (auto simp: nth_put length_put nth_list_update)

lemma put_update_outside:
  "i < off \<or> off + length src \<le> i \<Longrightarrow> off + length src \<le> length d \<Longrightarrow>
    put off src (d[i := b]) = (put off src d)[i := b]"
proof (rule nth_equalityI)
  fix j
  assume out: "i < off \<or> off + length src \<le> i" and len: "off + length src \<le> length d"
    and "j < length (put off src (d[i := b]))"
  then have j: "j < length d" by (simp add: length_put)
  show "put off src (d[i := b]) ! j = (put off src d)[i := b] ! j"
    using j out len by (cases "j = i") (auto simp: nth_put length_put)
qed (simp add: length_put)

lemma window_update_outside: "i < a \<or> a + n \<le> i \<Longrightarrow> window a n (d[i := b]) = window a n d"
  by (rule nth_equalityI) (auto simp: window_def nth_list_update)

lemma window_update_inside:
  "a \<le> i \<Longrightarrow> i < a + n \<Longrightarrow> a + n \<le> length d \<Longrightarrow> window a n (d[i := b]) = (window a n d)[i - a := b]"
  by (rule nth_equalityI) (auto simp: nth_list_update)

lemma crc_ok_update:
  assumes ok: "crc_ok n h" and n: "8 \<le> n" "n \<le> length h" and i: "i < n" "b \<noteq> h ! i"
  shows "\<not> crc_ok n (h[i := b])"
proof
  assume bad: "crc_ok n (h[i := b])"
  let ?t = "take n h"
  have t: "take n (h[i := b]) = ?t[i := b]" by (rule take_update_swap)
  show False
  proof (cases "4 \<le> i \<and> i < 8")
    case True
    then have "le_val (window 4 4 (h[i := b])) = le_val (window 4 4 h)"
      using ok bad n by (simp add: crc_ok_def t put_update_inside)
    then have "(window 4 4 h)[i - 4 := b] = window 4 4 h"
      using True n by (intro le_val_inj) (simp_all add: window_update_inside)
    then have "((window 4 4 h)[i - 4 := b]) ! (i - 4) = window 4 4 h ! (i - 4)" by simp
    moreover have "i - 4 < length (window 4 4 h)" "i - 4 < 4" using True n by auto
    ultimately show False using True n i by simp
  next
    case False
    have put: "put 4 (zeros 4) (?t[i := b]) = (put 4 (zeros 4) ?t)[i := b]"
      using False n by (intro put_update_outside) auto
    have nth: "put 4 (zeros 4) ?t ! i = h ! i"
      using False i n by (auto simp: nth_put)
    have "crc32c ((put 4 (zeros 4) ?t)[i := b]) \<noteq> crc32c (put 4 (zeros 4) ?t)"
      using i n nth by (intro crc32c_update) (simp_all add: length_put)
    moreover have "window 4 4 (h[i := b]) = window 4 4 h"
      using False by (intro window_update_outside) auto
    ultimately show False using ok bad by (simp add: crc_ok_def t put word_unat_eq_iff)
  qed
qed

lemma parse_one_header_ok_iff:
  "(\<exists>seq. parse_one_header h = Inr seq) \<longleftrightarrow>
    4096 \<le> length h \<and> window 0 4 h = ascii ''head'' \<and> crc_ok 4096 h \<and> le_val (window 66 2 h) = 1 \<and>
    list_all (\<lambda>b. b = 0) (window 48 16 h)"
  by (auto simp: parse_one_header_def list_ex_iff list_all_iff)

lemma header_byte_change:
  assumes "parse_one_header h = Inr seq" "i < 4096" "b \<noteq> h ! i"
  shows "parse_one_header (h[i := b]) = Inl InvalidData"
proof -
  have "4096 \<le> length h" "crc_ok 4096 h"
    using assms(1) by (auto simp: parse_one_header_def split: if_splits)
  then have "\<not> crc_ok 4096 (h[i := b])" using assms by (intro crc_ok_update) auto
  then show ?thesis by (simp add: parse_one_header_def)
qed

lemma region_table_byte_change:
  assumes "parse_region_table rt = Inr r" "i < 65536" "b \<noteq> rt ! i"
  shows "parse_region_table (rt[i := b]) = Inl InvalidData"
proof -
  have "65536 \<le> length rt" "crc_ok 65536 rt"
    using assms(1) by (auto simp: parse_region_table_def Let_def split: if_splits)
  then have "\<not> crc_ok 65536 (rt[i := b])" using assms by (intro crc_ok_update) auto
  then show ?thesis by (simp add: parse_region_table_def)
qed

text \<open>The header used is the valid one with the greatest sequence number.\<close>

lemma best_header_newest:
  "parse_best_header h1 h2 = Inr seq \<Longrightarrow>
    (parse_one_header h1 = Inr seq \<or> parse_one_header h2 = Inr seq) \<and>
    (\<forall>s. parse_one_header h1 = Inr s \<or> parse_one_header h2 = Inr s \<longrightarrow> s \<le> seq)"
  by (auto simp: parse_best_header_def split: sum.splits if_splits)

section \<open>Metadata\<close>

definition FILE_PARAMS_GUID :: bytes where
  "FILE_PARAMS_GUID = [0x37, 0x67, 0xA1, 0xCA, 0x36, 0xFA, 0x43, 0x4D, 0xB3, 0xB6, 0x33, 0xF0, 0xAA, 0x44, 0xE7, 0x6B]"

definition VDISK_SIZE_GUID :: bytes where
  "VDISK_SIZE_GUID = [0x24, 0x42, 0xA5, 0x2F, 0x1B, 0xCD, 0x76, 0x48, 0xB2, 0x11, 0x5D, 0xBE, 0xD8, 0x3B, 0xF4, 0xB8]"

definition LOGICAL_SECTOR_GUID :: bytes where
  "LOGICAL_SECTOR_GUID = [0x1D, 0xBF, 0x41, 0x81, 0x6F, 0xA9, 0x09, 0x47, 0xBA, 0x47, 0xF2, 0x33, 0xA8, 0xFA, 0xAB, 0x5F]"

record vhdx_items =
  it_block_size :: "nat option"
  it_sector_size :: "nat option"
  it_virtual_size :: "nat option"

record vhdx_metadata =
  md_block_size :: nat
  md_sector_size :: nat
  md_virtual_size :: nat

definition metadata_entry :: "bytes \<Rightarrow> nat \<Rightarrow> vhdx_items \<Rightarrow> vhdx_items io" where
  "metadata_entry region i items =
     (let e = 32 + i * 32;
          guid = window e 16 region;
          off = le_val (window (e + 16) 4 region);
          len = le_val (window (e + 20) 4 region) in
      if length region < off + len then Inl InvalidData
      else
        let v = window off len region in
        if guid = FILE_PARAMS_GUID then
          (if length v < 8 then Inl InvalidData
           else if le_val (window 4 4 v) div 2 mod 2 = 1 then Inl InvalidData
           else Inr (items\<lparr>it_block_size := Some (le_val (window 0 4 v))\<rparr>))
        else if guid = VDISK_SIZE_GUID then
          (if length v < 8 then Inl InvalidData
           else Inr (items\<lparr>it_virtual_size := Some (le_val (window 0 8 v))\<rparr>))
        else if guid = LOGICAL_SECTOR_GUID then
          (if length v < 4 then Inl InvalidData
           else Inr (items\<lparr>it_sector_size := Some (le_val (window 0 4 v))\<rparr>))
        else Inr items)"

primrec metadata_entries :: "bytes \<Rightarrow> nat list \<Rightarrow> vhdx_items \<Rightarrow> vhdx_items io" where
  "metadata_entries region [] items = Inr items"
| "metadata_entries region (i # is) items =
     (case metadata_entry region i items of Inl e \<Rightarrow> Inl e
      | Inr items \<Rightarrow> metadata_entries region is items)"

definition parse_metadata :: "bytes \<Rightarrow> vhdx_metadata io" where
  "parse_metadata region =
     (if length region < 32 \<or> window 0 8 region \<noteq> ascii ''metadata'' then Inl InvalidData
      else
        let count = le_val (window 10 2 region) in
        if length region < 32 + count * 32 then Inl InvalidData
        else case metadata_entries region [0..<count]
               \<lparr>it_block_size = None, it_sector_size = None, it_virtual_size = None\<rparr> of
          Inl e \<Rightarrow> Inl e
        | Inr items \<Rightarrow>
            (case (it_block_size items, it_sector_size items, it_virtual_size items) of
               (Some block_size, Some sector_size, Some virtual_size) \<Rightarrow>
                 if block_size = 0 \<or> \<not> is_power_of_two block_size then Inl InvalidData
                 else if sector_size = 0 \<or> \<not> is_power_of_two sector_size then Inl InvalidData
                 else Inr \<lparr>md_block_size = block_size, md_sector_size = sector_size,
                          md_virtual_size = virtual_size\<rparr>
             | _ \<Rightarrow> Inl InvalidData))"

lemma parse_metadata_wf:
  "parse_metadata region = Inr md \<Longrightarrow> is_power_of_two (md_block_size md) \<and> is_power_of_two (md_sector_size md)"
  by (auto simp: parse_metadata_def Let_def split: if_splits sum.splits option.splits)

section \<open>Opening and reading\<close>

record vhdx =
  vx_file :: file_data
  vx_virtual_size :: nat
  vx_block_size :: nat
  vx_chunk_ratio :: nat
  vx_bat :: "nat list"

text \<open>The copy of the region table is used when the first one cannot be read or parsed.\<close>

definition read_region_table :: "file_data \<Rightarrow> bytes io" where
  "read_region_table f =
     (case read_exact_at f 196608 65536 of
        Inl e \<Rightarrow> read_exact_at f 262144 65536
      | Inr rt \<Rightarrow>
          (case parse_region_table rt of
             Inl e \<Rightarrow> read_exact_at f 262144 65536
           | Inr r \<Rightarrow> Inr rt))"

definition vhdx_load :: "file_data \<Rightarrow> regions \<Rightarrow> vhdx io" where
  "vhdx_load f regions =
     (case (rg_metadata regions, rg_bat regions) of
        (Some (meta_off, meta_len), Some (bat_off, bat_len)) \<Rightarrow>
          (case read_exact_at f meta_off meta_len of Inl e \<Rightarrow> Inl e
           | Inr meta \<Rightarrow>
           (case parse_metadata meta of Inl e \<Rightarrow> Inl e
           | Inr md \<Rightarrow>
             let chunk_ratio = (8388608 * md_sector_size md) div md_block_size md in
             if chunk_ratio = 0 then Inl InvalidData
             else case read_exact_at f bat_off bat_len of Inl e \<Rightarrow> Inl e
             | Inr raw \<Rightarrow>
                 Inr \<lparr>vx_file = f, vx_virtual_size = md_virtual_size md,
                      vx_block_size = md_block_size md, vx_chunk_ratio = chunk_ratio,
                      vx_bat = map le_val (chunks_exact 8 raw)\<rparr>))
      | _ \<Rightarrow> Inl InvalidData)"

definition vhdx_parse :: "file_data \<Rightarrow> vhdx io" where
  "vhdx_parse f =
     (case read_exact_at f 0 8 of Inl e \<Rightarrow> Inl e
      | Inr ident \<Rightarrow>
        if ident \<noteq> ascii ''vhdxfile'' then Inl InvalidData
        else case read_exact_at f 65536 4096 of Inl e \<Rightarrow> Inl e
      | Inr h1 \<Rightarrow>
        (case read_exact_at f 131072 4096 of Inl e \<Rightarrow> Inl e
      | Inr h2 \<Rightarrow>
        (case parse_best_header h1 h2 of Inl e \<Rightarrow> Inl e
      | Inr header \<Rightarrow>
        (case read_region_table f of Inl e \<Rightarrow> Inl e
      | Inr rt \<Rightarrow>
        (case parse_region_table rt of Inl e \<Rightarrow> Inl e
      | Inr regions \<Rightarrow> vhdx_load f regions)))))"

definition vhdx_open :: "(rstr \<Rightarrow> file_data option) \<Rightarrow> rstr \<Rightarrow> vhdx io" where
  "vhdx_open fs path = (case fs path of None \<Rightarrow> Inl NotFound | Some f \<Rightarrow> vhdx_parse f)"

text \<open>The BAT slot of a payload block: one slot is skipped after every \<open>chunk_ratio\<close> blocks.\<close>

definition payload_index :: "nat \<Rightarrow> nat \<Rightarrow> nat" where
  "payload_index chunk_ratio block = block + block div chunk_ratio"

definition vhdx_locate :: "vhdx \<Rightarrow> nat \<Rightarrow> unit_loc io" where
  "vhdx_locate v block =
     (let idx = payload_index (vx_chunk_ratio v) block in
      if u64_lim \<le> idx then Inl Panicked
      else if length (vx_bat v) \<le> idx then Inl InvalidData
      else
        let entry = vx_bat v ! idx; state = entry mod 8 in
        if state = 6 then Inr (At (entry - entry mod 2 ^ 20))
        else if state = 7 then Inl InvalidData
        else Inr Zero)"

definition vhdx_read_at :: "vhdx \<Rightarrow> nat \<Rightarrow> nat \<Rightarrow> bytes io" where
  "vhdx_read_at v offset len =
     read_units offset len (vx_virtual_size v) (vx_block_size v) (vhdx_locate v) (read_exact_at (vx_file v))"

definition vhdx_content :: "vhdx \<Rightarrow> bytes" where
  "vhdx_content v = unit_bytes (vx_block_size v) (vhdx_locate v) (vx_file v) (vx_virtual_size v)"

definition vhdx_valid :: "vhdx \<Rightarrow> bool" where
  "vhdx_valid v \<longleftrightarrow> units_mapped (vx_block_size v) (vhdx_locate v) (vx_file v) (vx_virtual_size v)"

interpretation vhdx: backing_store vx_virtual_size vhdx_read_at vhdx_content vhdx_valid
  by unfold_locales
    (simp_all add: vhdx_content_def vhdx_valid_def vhdx_read_at_def read_units_bytes read_units_out_of_range)

definition vhdx_wf :: "vhdx \<Rightarrow> bool" where
  "vhdx_wf v \<longleftrightarrow> is_power_of_two (vx_block_size v) \<and> 0 < vx_chunk_ratio v \<and>
     vx_chunk_ratio v * vx_block_size v \<le> 2 ^ 55 \<and> list_all (\<lambda>e. e < 2 ^ 64) (vx_bat v) \<and>
     vx_virtual_size v < 2 ^ 64"

lemma metadata_bounds:
  assumes "parse_metadata region = Inr md"
  shows "md_sector_size md < 2 ^ 32 \<and> md_virtual_size md < 2 ^ 64"
proof -
  let ?ok = "\<lambda>it. (\<forall>n. it_sector_size it = Some n \<longrightarrow> n < 2 ^ 32) \<and> (\<forall>n. it_virtual_size it = Some n \<longrightarrow> n < 2 ^ 64)"
  have le4: "le_val (window a 4 v) < 2 ^ 32" and le8: "le_val (window a 8 v) < 2 ^ 64" for a and v :: bytes
    using be_val_bound [of "rev (window a 4 v)"] power_increasing [of "length (window a 4 v)" 4 "256 :: nat"]
      be_val_bound [of "rev (window a 8 v)"] power_increasing [of "length (window a 8 v)" 8 "256 :: nat"]
    by (simp_all add: le_val_def length_window)
  have entry: "?ok it'" if "metadata_entry region i it = Inr it'" "?ok it" for i it it'
    using that unfolding metadata_entry_def Let_def by (simp split: if_splits) (auto simp: le4 [simplified] le8 [simplified])
  have entries: "?ok it \<Longrightarrow> metadata_entries region is it = Inr it' \<Longrightarrow> ?ok it'" for "is" it it'
  proof (induction "is" arbitrary: it)
    case (Cons i "is")
    obtain it1 where it1: "metadata_entry region i it = Inr it1" "metadata_entries region is it1 = Inr it'"
      using Cons.prems(2) by (auto split: sum.splits)
    show ?case by (rule Cons.IH [OF entry [OF it1(1) Cons.prems(1)] it1(2)])
  qed simp
  obtain items where items: "metadata_entries region [0..<le_val (window 10 2 region)]
        \<lparr>it_block_size = None, it_sector_size = None, it_virtual_size = None\<rparr> = Inr items"
      "it_sector_size items = Some (md_sector_size md)" "it_virtual_size items = Some (md_virtual_size md)"
    using assms by (auto simp: parse_metadata_def Let_def split: if_splits sum.splits option.splits)
  show ?thesis using entries [OF _ items(1)] items(2,3) by simp
qed

lemma vhdx_load_wf: "vhdx_load f r = Inr v \<Longrightarrow> vhdx_wf v"
proof -
  assume "vhdx_load f r = Inr v"
  then obtain meta md raw where md: "parse_metadata meta = Inr md"
    and ratio: "(8388608 * md_sector_size md) div md_block_size md \<noteq> 0"
    and v: "v = \<lparr>vx_file = f, vx_virtual_size = md_virtual_size md, vx_block_size = md_block_size md,
      vx_chunk_ratio = (8388608 * md_sector_size md) div md_block_size md,
      vx_bat = map le_val (chunks_exact 8 raw)\<rparr>"
    by (auto simp: vhdx_load_def Let_def split: option.splits sum.splits if_splits)
  have "(8388608 * md_sector_size md) div md_block_size md * md_block_size md \<le> 8388608 * md_sector_size md"
    by (rule div_times_less_eq_dividend)
  also have "\<dots> \<le> 2 ^ 55" using metadata_bounds [OF md] by simp
  finally have prod: "(8388608 * md_sector_size md) div md_block_size md * md_block_size md \<le> 2 ^ 55" .
  have "le_val (window a 8 raw) < 2 ^ 64" for a
    using be_val_bound [of "rev (window a 8 raw)"] power_increasing [of "length (window a 8 raw)" 8 "256 :: nat"]
    by (simp add: le_val_def length_window)
  then show ?thesis
    using v ratio parse_metadata_wf [OF md] prod metadata_bounds [OF md]
    by (auto simp: vhdx_wf_def list_all_iff chunks_exact_def)
qed

lemma vhdx_parse_wf: "vhdx_parse f = Inr v \<Longrightarrow> vhdx_wf v"
  by (auto simp: vhdx_parse_def split: sum.splits if_splits intro: vhdx_load_wf)

text \<open>
  The payload slots: strictly increasing, and exactly the slots that are not the last of a
  group of \<open>chunk_ratio + 1\<close>, which hold the sector bitmaps.
\<close>

lemma payload_index_mono: "b < b' \<Longrightarrow> payload_index r b < payload_index r b'"
  using div_le_mono [of b b' r] by (simp add: payload_index_def)

lemma payload_index_slots:
  assumes "0 < r"
  shows "range (payload_index r) = {i. i mod (r + 1) \<noteq> r}"
proof -
  have "payload_index r b mod (r + 1) \<noteq> r" for b
  proof -
    have "payload_index r b = b div r * (r + 1) + b mod r"
      by (simp add: payload_index_def algebra_simps)
    then have "payload_index r b mod (r + 1) = b mod r mod (r + 1)"
      by (simp only: mod_mult_self3)
    also have "\<dots> = b mod r" using mod_less_divisor [OF assms, of b] by (intro mod_less) linarith
    finally show ?thesis using mod_less_divisor [OF assms, of b] by simp
  qed
  moreover have "\<exists>b. i = payload_index r b" if "i mod (r + 1) \<noteq> r" for i
  proof
    have "i mod (r + 1) < r" using that mod_less_divisor [of "r + 1" i] by linarith
    then show "i = payload_index r (i div (r + 1) * r + i mod (r + 1))"
      using assms div_mult_mod_eq [of i "r + 1"] by (simp add: payload_index_def algebra_simps)
  qed
  ultimately show ?thesis by (intro set_eqI) (simp add: image_iff, blast)
qed

end
