(* ===== verification/Backing.thy ===== *)
theory Backing
  imports Vhd_Chain Vhd_Write Vhdx
begin

text \<open>
  Opening a master image (\<open>storage/mod.rs\<close> \<open>open_backing\<close>, \<open>storage/vhd/mod.rs\<close>
  \<open>Vhd::open\<close>): the format is detected by magic bytes, and a VHD gets the CCBoot increments that
  lie next to it. What the operating system provides is the record \<open>storage_env\<close>: the files, the
  directory listings, the decomposition of a path into parent, stem and extension, the two
  environment variables, and the Unicode case mapping of non-ASCII names.
\<close>

record storage_env =
  se_file :: "rstr \<Rightarrow> file_data option"
  se_parts :: "rstr \<Rightarrow> (rstr \<times> rstr) option"
  se_parent :: "rstr \<Rightarrow> rstr"
  se_listing :: "rstr \<Rightarrow> rstr list option"
  se_join :: "rstr \<Rightarrow> rstr \<Rightarrow> rstr"
  se_no_chain :: bool
  se_ignore_bitmap :: bool
  se_lower :: "rstr \<Rightarrow> rstr"

definition vhd_open :: "storage_env \<Rightarrow> rstr \<Rightarrow> backing io" where
  "vhd_open env path =
     (case se_file env path of None \<Rightarrow> Inl NotFound
      | Some f \<Rightarrow>
          (case read_footer f of Inl e \<Rightarrow> Inl e
           | Inr footer \<Rightarrow>
               if vf_disk_type footer = DISK_TYPE_FIXED then
                 (case fixed_open (se_file env) path of Inl e \<Rightarrow> Inl e
                  | Inr s \<Rightarrow> Inr (box_dyn fv_virtual_size fixed_read_at s))
               else if vf_disk_type footer = DISK_TYPE_DYNAMIC then
                 (case dynamic_open (se_file env) path of Inl e \<Rightarrow> Inl e
                  | Inr s \<Rightarrow> Inr (box_dyn dv_virtual_size (dynamic_read_at (se_ignore_bitmap env)) s))
               else Inl InvalidData))"

definition increments_of :: "storage_env \<Rightarrow> rstr \<Rightarrow> rstr list" where
  "increments_of env path =
     (let dir = se_parent env path in
      map (se_join env dir) (find_increments (se_lower env) (se_listing env dir) (se_parts env path)))"

definition vhd_layered :: "storage_env \<Rightarrow> rstr \<Rightarrow> backing io" where
  "vhd_layered env path =
     (case vhd_open env path of Inl e \<Rightarrow> Inl e
      | Inr base \<Rightarrow>
          if se_no_chain env then Inr base
          else
            let increments = increments_of env path in
            if increments = [] then Inr base
            else case chain_open (se_file env) base increments of Inl e \<Rightarrow> Inl e
              | Inr c \<Rightarrow> Inr (box_dyn cv_virtual_size (chain_read_at (se_ignore_bitmap env)) c))"

definition open_backing :: "storage_env \<Rightarrow> rstr \<Rightarrow> backing io" where
  "open_backing env path =
     (case se_file env path of None \<Rightarrow> Inl NotFound
      | Some f \<Rightarrow>
          if 8 \<le> length f \<and> window 0 8 f = ascii ''vhdxfile'' then
            (case vhdx_open (se_file env) path of Inl e \<Rightarrow> Inl e
             | Inr v \<Rightarrow> Inr (box_dyn vx_virtual_size vhdx_read_at v))
          else if 512 \<le> length f \<and> window (length f - 512) 8 f = ascii ''conectix'' then
            vhd_layered env path
          else
            (case raw_open (se_file env) path of Inl e \<Rightarrow> Inl e
             | Inr s \<Rightarrow> Inr (box_dyn rf_size raw_read_at s)))"

section \<open>What each format serves\<close>

lemma open_backing_raw:
  assumes "se_file env path = Some f" "length f < u64_lim"
    and "window 0 8 f \<noteq> ascii ''vhdxfile''"
    and "length f < 512 \<or> window (length f - 512) 8 f \<noteq> ascii ''conectix''"
  shows "\<exists>b. open_backing env path = Inr b \<and> serves b \<and> disk_bytes b = f"
proof -
  let ?s = "\<lparr>rf_file = f, rf_size = length f\<rparr>"
  have v: "raw_valid ?s" using assms(2) by (simp add: raw_valid_def)
  have "open_backing env path = Inr (box_dyn rf_size raw_read_at ?s)"
    using assms by (auto simp: open_backing_def raw_open_def)
  then show ?thesis using raw.box_dyn_serves [OF v] raw.box_dyn_content [OF v] by auto
qed

lemma open_backing_vhdx:
  assumes "se_file env path = Some f" "vhdx_parse f = Inr v" "vhdx_valid v"
  shows "\<exists>b. open_backing env path = Inr b \<and> serves b \<and> disk_bytes b = vhdx_content v"
proof -
  have "8 \<le> length f \<and> window 0 8 f = ascii ''vhdxfile''"
    using assms(2) by (auto simp: vhdx_parse_def read_exact_at_def split: if_splits sum.splits)
  then have "open_backing env path = Inr (box_dyn vx_virtual_size vhdx_read_at v)"
    using assms by (simp add: open_backing_def vhdx_open_def)
  then show ?thesis using vhdx.box_dyn_serves [OF assms(3)] vhdx.box_dyn_content [OF assms(3)] by auto
qed

lemma dynamic_parse_footer:
  "dynamic_parse f = Inr d \<Longrightarrow> \<exists>footer. read_footer f = Inr footer \<and> vf_disk_type footer = DISK_TYPE_DYNAMIC"
  by (auto simp: dynamic_parse_def split: sum.splits if_splits)

lemma read_footer_cookie:
  "read_footer f = Inr footer \<Longrightarrow> 512 \<le> length f \<and> window (length f - 512) 8 f = ascii ''conectix''"
  by (auto simp: read_footer_def footer_parse_def read_exact_at_def Let_def window_window
      split: if_splits sum.splits)

lemma disk_types_differ: "DISK_TYPE_DYNAMIC \<noteq> DISK_TYPE_FIXED"
  by (simp add: DISK_TYPE_DYNAMIC_def DISK_TYPE_FIXED_def)

lemma open_backing_dynamic:
  assumes "se_file env path = Some f" "dynamic_parse f = Inr d" "window 0 8 f \<noteq> ascii ''vhdxfile''"
    and "se_no_chain env \<or> increments_of env path = []"
  shows "open_backing env path = Inr (box_dyn dv_virtual_size (dynamic_read_at (se_ignore_bitmap env)) d)"
proof -
  obtain footer where ft: "read_footer f = Inr footer" "vf_disk_type footer = DISK_TYPE_DYNAMIC"
    using dynamic_parse_footer [OF assms(2)] by blast
  have "vhd_open env path = Inr (box_dyn dv_virtual_size (dynamic_read_at (se_ignore_bitmap env)) d)"
    using assms(1,2) ft disk_types_differ by (simp add: vhd_open_def dynamic_open_def)
  then show ?thesis
    using assms read_footer_cookie [OF ft(1)] by (auto simp: open_backing_def vhd_layered_def Let_def)
qed

text \<open>A VHD with increments opens as a chain over its base, and serves the layered content.\<close>

lemma open_backing_chain:
  assumes "se_file env path = Some f" "read_footer f = Inr footer" "window 0 8 f \<noteq> ascii ''vhdxfile''"
    and "vhd_open env path = Inr base" "\<not> se_no_chain env" "increments_of env path \<noteq> []"
    and "chain_open (se_file env) base (increments_of env path) = Inr c"
    and "chain_valid (se_ignore_bitmap env) c"
  shows "\<exists>b. open_backing env path = Inr b \<and> serves b \<and> disk_bytes b = chain_content (se_ignore_bitmap env) c"
proof -
  have "open_backing env path = Inr (box_dyn cv_virtual_size (chain_read_at (se_ignore_bitmap env)) c)"
    using assms read_footer_cookie [OF assms(2)] by (auto simp: open_backing_def vhd_layered_def Let_def)
  then show ?thesis
    using chain.box_dyn_serves [OF assms(8)] chain.box_dyn_content [OF assms(8)] by auto
qed

section \<open>Flattening\<close>

text \<open>\<open>xboot flatten\<close>: the image written from any store opens again and serves the same disk.\<close>

lemma build_footer_cookie: "window 0 8 (build_footer secs n) = ascii ''conectix''"
  if "n < u64_lim"
proof -
  have "footer_parse (build_footer secs n) \<noteq> Inl InvalidData" using footer_parse_build [OF that] by simp
  then have "window 0 8 (window 0 512 (build_footer secs n)) = ascii ''conectix''"
    by (auto simp: footer_parse_def Let_def split: if_splits)
  then show ?thesis by (simp add: window_window)
qed

lemma written_cookie: "written_image disk bat f secs lo \<Longrightarrow> window 0 8 f = ascii ''conectix''"
  using window_window [of 0 8 512 0 f] build_footer_cookie [of "length disk" secs]
  by (simp add: written_image_def)

lemma cookies_differ: "ascii ''conectix'' \<noteq> ascii ''vhdxfile''"
  by simp

lemma flatten_reopen:
  assumes "serves source" "bs_size source \<le> 2040 * 2 ^ 30" "write_dynamic_vhd secs source = Inr f"
    and "se_file env path = Some f" "increments_of env path = []" "\<not> se_ignore_bitmap env"
  shows "\<exists>b. open_backing env path = Inr b \<and> serves b \<and> disk_bytes b = disk_bytes source"
proof -
  obtain bat lo where w: "written_image (disk_bytes source) bat f secs lo"
    using write_dynamic_written [OF assms(1,2), of secs] assms(3) by auto
  have "open_backing env path = Inr (box_dyn dv_virtual_size (dynamic_read_at False)
      (opened_image (disk_bytes source) bat f))"
    using open_backing_dynamic [OF assms(4) parse_image [OF w]] written_cookie [OF w] cookies_differ assms(5,6)
    by simp
  then show ?thesis
    using dynvhd.box_dyn_serves [OF image_valid [OF w]] dynvhd.box_dyn_content [OF image_valid [OF w]]
      image_content [OF w] by auto
qed

end
