(* ===== verification/Config.thy ===== *)
theory Config
  imports Rust_Str
begin

text \<open>
  Configuration (\<open>config/model.rs\<close>, \<open>size.rs\<close>, \<open>validate.rs\<close>, \<open>load.rs\<close>): the records the TOML
  file is read into, the size parser, and the validator. The TOML decoder is third-party: it is
  the parameter \<open>toml\<close> of \<open>load_from_path\<close>. \<open>is_dir\<close> is the file system's answer for
  \<open>tftp_root\<close>. IP addresses are their octets.
\<close>

section \<open>The model\<close>

datatype disk_type = Image | Game | Writeback

datatype disk_mode = Readonly | Readwrite

datatype writeback_policy = Volatile

record disk =
  dk_id :: rstr
  dk_type :: disk_type
  dk_backing :: rstr
  dk_mode :: "disk_mode option"
  dk_ram_cache :: nat
  dk_policy :: "writeback_policy option"

record client =
  cl_mac :: rstr
  cl_name :: "rstr option"
  cl_system :: rstr
  cl_games :: "rstr list"
  cl_writeback :: rstr

record client_defaults =
  cd_system :: rstr
  cd_games :: "rstr list"
  cd_writeback :: rstr

record boot_config =
  bc_server_ip :: bytes
  bc_bind :: bytes
  bc_http_bind :: bytes
  bc_http_port :: u16
  bc_iscsi_port :: u16
  bc_tftp_root :: rstr
  bc_bios_filename :: rstr
  bc_uefi_filename :: rstr
  bc_http_script_url :: rstr

record config =
  cf_disks :: "disk list"
  cf_clients :: "client list"
  cf_client_defaults :: "client_defaults option"
  cf_boot :: "boot_config option"

section \<open>Sizes\<close>

datatype size_error = InvalidSize rstr | SizeOverflow

definition size_suffix :: "rstr \<Rightarrow> rstr \<times> nat" where
  "size_suffix upper =
     (case strip_suffix (ascii ''TB'') upper of Some n \<Rightarrow> (n, 1024 ^ 4)
      | None \<Rightarrow> (case strip_suffix (ascii ''GB'') upper of Some n \<Rightarrow> (n, 1024 ^ 3)
      | None \<Rightarrow> (case strip_suffix (ascii ''MB'') upper of Some n \<Rightarrow> (n, 1024 ^ 2)
      | None \<Rightarrow> (case strip_suffix (ascii ''KB'') upper of Some n \<Rightarrow> (n, 1024)
      | None \<Rightarrow> (case strip_suffix (ascii ''B'') upper of Some n \<Rightarrow> (n, 1)
      | None \<Rightarrow> (upper, 1))))))"

definition parse_size :: "rstr \<Rightarrow> size_error + nat" where
  "parse_size s =
     (let trimmed = trim s;
          upper = map ascii_upper trimmed;
          (num_part, mult) = size_suffix upper in
      case parse_uint u64_lim (trim num_part) of
        None \<Rightarrow> Inl (InvalidSize trimmed)
      | Some v \<Rightarrow> (case checked_mul_u64 v mult of None \<Rightarrow> Inl SizeOverflow | Some n \<Rightarrow> Inr n))"

lemma parse_size_bound: "parse_size s = Inr n \<Longrightarrow> n < u64_lim"
  by (auto simp: parse_size_def Let_def checked_mul_u64_def split: prod.splits option.splits if_splits)

text \<open>Digits and unit letters are untouched by trimming and case folding.\<close>

lemma strip_first_ascii:
  assumes "list_all (\<lambda>w. w \<noteq> [] \<and> hd w \<noteq> b) ws"
  shows "strip_first ws (b # bs) = None"
  using assms
proof (induction ws)
  case (Cons w ws)
  then show ?case by (cases w) auto
qed simp

lemma trim_with_fix: "strip_first ws s = None \<Longrightarrow> trim_with n ws s = s"
  by (cases n) simp_all

definition plain_byte :: "u8 \<Rightarrow> bool" where
  "plain_byte b \<longleftrightarrow> is_ascii_digit b \<or> 65 \<le> b \<and> b \<le> 90"

lemma ws_heads: "list_all (\<lambda>w. w \<noteq> [] \<and> \<not> plain_byte (hd w)) ws_chars"
  "list_all (\<lambda>w. w \<noteq> [] \<and> \<not> plain_byte (hd w)) (map rev ws_chars)"
  by (simp_all add: ws_chars_def plain_byte_def is_ascii_digit_def)

lemma strip_first_plain:
  assumes "list_all (\<lambda>w. w \<noteq> [] \<and> \<not> plain_byte (hd w)) ws" "s = [] \<or> plain_byte (hd s)"
  shows "strip_first ws s = None"
proof (cases s)
  case Nil
  have "strip_first ws [] = None" using assms(1)
  proof (induction ws)
    case (Cons w ws)
    then show ?case by (cases w) auto
  qed simp
  with Nil show ?thesis by simp
next
  case (Cons b bs)
  have "list_all (\<lambda>w. w \<noteq> [] \<and> hd w \<noteq> b) ws"
    using assms Cons by (auto simp: list_all_iff)
  with Cons show ?thesis by (simp add: strip_first_ascii)
qed

lemma trim_plain: "s \<noteq> [] \<Longrightarrow> plain_byte (hd s) \<Longrightarrow> plain_byte (last s) \<Longrightarrow> trim s = s"
  using strip_first_plain [OF ws_heads(1), of s] strip_first_plain [OF ws_heads(2), of "rev s"]
  by (simp add: trim_def Let_def trim_with_fix hd_rev)

lemma plain_digit: "is_ascii_digit b \<Longrightarrow> plain_byte b"
  by (simp add: plain_byte_def)

lemma upper_digit: "is_ascii_digit b \<Longrightarrow> ascii_upper b = b"
  using is_ascii_digit_range [of b] by (auto simp: ascii_upper_def word_le_nat_alt)

lemma digits_no_suffix:
  assumes "list_all is_ascii_digit ds" "suf \<noteq> []" "\<not> is_ascii_digit (last suf)"
  shows "strip_suffix suf ds = None"
proof (rule ccontr)
  assume "strip_suffix suf ds \<noteq> None"
  then obtain r where "ds = r @ suf" by (auto simp: strip_suffix_Some)
  with assms show False by (auto simp: list_all_iff)
qed

definition size_units :: "(rstr \<times> nat) list" where
  "size_units = [(ascii ''TB'', 1024 ^ 4), (ascii ''GB'', 1024 ^ 3), (ascii ''MB'', 1024 ^ 2),
     (ascii ''KB'', 1024), (ascii ''B'', 1), ([], 1)]"

lemma strip_suffix_differ:
  "length u = length suf \<Longrightarrow> u \<noteq> suf \<Longrightarrow> strip_suffix suf (ds @ u) = None"
  by (cases "strip_suffix suf (ds @ u)") (auto simp: strip_suffix_Some)

lemma strip_suffix_same: "strip_suffix suf (ds @ suf) = Some ds"
  by (simp add: strip_suffix_Some)

lemma strip_suffix_longer:
  "list_all is_ascii_digit ds \<Longrightarrow> \<not> is_ascii_digit a \<Longrightarrow> strip_suffix [a, b] (ds @ [b]) = None"
  by (cases "strip_suffix [a, b] (ds @ [b])") (auto simp: strip_suffix_Some list_all_iff)

lemma size_suffix_units:
  assumes "list_all is_ascii_digit ds" "(u, m) \<in> set size_units"
  shows "size_suffix (ds @ u) = (ds, m)"
proof -
  have letters: "\<not> is_ascii_digit 84" "\<not> is_ascii_digit 71" "\<not> is_ascii_digit 77" "\<not> is_ascii_digit 75"
    "\<not> is_ascii_digit 66" by (simp_all add: is_ascii_digit_def)
  consider "u = ascii ''TB''" "m = 1024 ^ 4" | "u = ascii ''GB''" "m = 1024 ^ 3" | "u = ascii ''MB''" "m = 1024 ^ 2"
    | "u = ascii ''KB''" "m = 1024" | "u = ascii ''B''" "m = 1" | "u = []" "m = 1"
    using assms(2) by (auto simp: size_units_def)
  then show ?thesis
    using letters digits_no_suffix [OF assms(1)]
    by cases (simp_all add: size_suffix_def strip_suffix_differ strip_suffix_same strip_suffix_longer [OF assms(1)]
        split: option.split)
qed

lemma parse_size_units:
  assumes "n < u64_lim" "(u, m) \<in> set size_units"
  shows "parse_size (dec n @ u) = (if n * m < u64_lim then Inr (n * m) else Inl SizeOverflow)"
proof -
  let ?s = "dec n @ u"
  have ds: "list_all is_ascii_digit (dec n)" by (rule dec_digits)
  have hd_d: "plain_byte (hd (dec n))" "plain_byte (last (dec n))"
    using ds by (auto simp: list_all_iff intro!: plain_digit)
  have u: "u = [] \<or> plain_byte (last u)" "map ascii_upper u = u"
    using assms(2) by (auto simp: size_units_def plain_byte_def ascii_upper_def)
  have "hd ?s = hd (dec n)" by (simp add: hd_append)
  moreover have "last ?s = (if u = [] then last (dec n) else last u)" by (simp add: last_append)
  ultimately have "trim ?s = ?s" using hd_d u(1) by (intro trim_plain) auto
  moreover have "map ascii_upper ?s = ?s"
    using ds u(2) by (simp add: map_idI list_all_iff upper_digit)
  moreover have "trim (dec n) = dec n" using hd_d by (intro trim_plain) auto
  ultimately show ?thesis
    using assms size_suffix_units [OF ds assms(2)]
    by (simp add: parse_size_def Let_def parse_uint_dec checked_mul_u64_def)
qed

section \<open>Validation\<close>

definition is_valid_mac :: "rstr \<Rightarrow> bool" where
  "is_valid_mac s =
     (let octets = split_on (\<lambda>b. b = 58) s in
      length octets = 6 \<and> list_all (\<lambda>p. length p = 2 \<and> list_all is_ascii_hexdigit p) octets)"

datatype validation_error =
    DuplicateDiskId rstr
  | UnknownDisk rstr rstr
  | WrongDiskType rstr disk_type disk_type rstr
  | InvalidMac rstr
  | DuplicateMac rstr
  | HttpPortZero
  | IscsiPortZero
  | InvalidHttpUrl rstr
  | EmptyBootField rstr
  | TftpRootNotDirectory rstr
  | BootFileOutsideRoot rstr rstr

definition check_ref :: "(rstr \<Rightarrow> disk option) \<Rightarrow> rstr \<Rightarrow> disk_type \<Rightarrow> rstr \<Rightarrow> validation_error list" where
  "check_ref by_id reference expected ctxt =
     (case by_id reference of
        None \<Rightarrow> [UnknownDisk reference ctxt]
      | Some d \<Rightarrow> if dk_type d \<noteq> expected then [WrongDiskType (dk_id d) expected (dk_type d) ctxt] else [])"

definition check_profile ::
  "(rstr \<Rightarrow> disk option) \<Rightarrow> rstr \<Rightarrow> rstr list \<Rightarrow> rstr \<Rightarrow> rstr \<Rightarrow> validation_error list" where
  "check_profile by_id system games writeback who =
     check_ref by_id system Image (who @ ascii ''.system'')
     @ concat (map (\<lambda>g. check_ref by_id g Game (who @ ascii ''.games'')) games)
     @ check_ref by_id writeback Writeback (who @ ascii ''.writeback'')"

definition is_safe_filename :: "rstr \<Rightarrow> bool" where
  "is_safe_filename name =
     (if name = [] then False
      else if starts_with [47] name \<or> starts_with [92] name then False
      else if 2 \<le> length name \<and> name ! 1 = 58 then False
      else list_all (\<lambda>c. c \<noteq> [46, 46] \<and> c \<noteq> [46]) (split_on (\<lambda>b. b = 47 \<or> b = 92) name))"

definition check_boot_file :: "rstr \<Rightarrow> rstr \<Rightarrow> validation_error list" where
  "check_boot_file field_name name =
     (if name = [] then [EmptyBootField field_name]
      else if \<not> is_safe_filename name then [BootFileOutsideRoot field_name name] else [])"

definition check_boot :: "(rstr \<Rightarrow> bool) \<Rightarrow> boot_config \<Rightarrow> validation_error list" where
  "check_boot is_dir boot =
     (if bc_http_port boot = 0 then [HttpPortZero] else [])
     @ (if bc_iscsi_port boot = 0 then [IscsiPortZero] else [])
     @ (if \<not> is_dir (bc_tftp_root boot) then [TftpRootNotDirectory (bc_tftp_root boot)] else [])
     @ check_boot_file (ascii ''bios_filename'') (bc_bios_filename boot)
     @ check_boot_file (ascii ''uefi_filename'') (bc_uefi_filename boot)
     @ (let url = bc_http_script_url boot in
        if url = [] then [EmptyBootField (ascii ''http_script_url'')]
        else if \<not> (starts_with (ascii ''http://'') url \<or> starts_with (ascii ''https://'') url)
        then [InvalidHttpUrl url] else [])"

primrec check_disks ::
  "disk list \<Rightarrow> (rstr \<Rightarrow> disk option) \<Rightarrow> (rstr \<Rightarrow> disk option) \<times> validation_error list" where
  "check_disks [] by_id = (by_id, [])"
| "check_disks (d # ds) by_id =
     (let (by_id', errors) = check_disks ds (by_id(dk_id d \<mapsto> d)) in
      (by_id', (if by_id (dk_id d) \<noteq> None then [DuplicateDiskId (dk_id d)] else []) @ errors))"

definition client_who :: "client \<Rightarrow> rstr" where
  "client_who c = ascii ''client '' @ [39] @ (case cl_name c of Some n \<Rightarrow> n | None \<Rightarrow> cl_mac c) @ [39]"

primrec check_clients :: "(rstr \<Rightarrow> disk option) \<Rightarrow> client list \<Rightarrow> rstr list \<Rightarrow> validation_error list" where
  "check_clients by_id [] seen = []"
| "check_clients by_id (c # cs) seen =
     (if \<not> is_valid_mac (cl_mac c) then [InvalidMac (cl_mac c)]
      else if cl_mac c \<in> set seen then [DuplicateMac (cl_mac c)] else [])
     @ check_profile by_id (cl_system c) (cl_games c) (cl_writeback c) (client_who c)
     @ check_clients by_id cs (if is_valid_mac (cl_mac c) then cl_mac c # seen else seen)"

definition validation_errors :: "(rstr \<Rightarrow> bool) \<Rightarrow> config \<Rightarrow> validation_error list" where
  "validation_errors is_dir cfg =
     (let (by_id, disk_errors) = check_disks (cf_disks cfg) (\<lambda>_. None) in
      disk_errors
      @ check_clients by_id (cf_clients cfg) []
      @ (case cf_client_defaults cfg of None \<Rightarrow> []
         | Some d \<Rightarrow> check_profile by_id (cd_system d) (cd_games d) (cd_writeback d) (ascii ''client_defaults''))
      @ (case cf_boot cfg of None \<Rightarrow> [] | Some b \<Rightarrow> check_boot is_dir b))"

definition validate :: "(rstr \<Rightarrow> bool) \<Rightarrow> config \<Rightarrow> validation_error list + unit" where
  "validate is_dir cfg =
     (let errors = validation_errors is_dir cfg in if errors = [] then Inr () else Inl errors)"

datatype load_error = LoadIo | LoadParse | LoadInvalid "validation_error list"

definition load_from_path ::
  "(rstr \<Rightarrow> config option) \<Rightarrow> (rstr \<Rightarrow> bool) \<Rightarrow> (rstr \<Rightarrow> rstr option) \<Rightarrow> rstr \<Rightarrow> load_error + config" where
  "load_from_path toml is_dir read_text path =
     (case read_text path of None \<Rightarrow> Inl LoadIo
      | Some txt \<Rightarrow>
          (case toml txt of None \<Rightarrow> Inl LoadParse
           | Some cfg \<Rightarrow>
               (case validate is_dir cfg of Inl errors \<Rightarrow> Inl (LoadInvalid errors) | Inr _ \<Rightarrow> Inr cfg)))"

section \<open>What a validated configuration guarantees\<close>

definition is_disk :: "config \<Rightarrow> disk_type \<Rightarrow> rstr \<Rightarrow> bool" where
  "is_disk cfg ty i \<longleftrightarrow> (\<exists>d \<in> set (cf_disks cfg). dk_id d = i \<and> dk_type d = ty)"

definition profile_ok :: "config \<Rightarrow> rstr \<Rightarrow> rstr list \<Rightarrow> rstr \<Rightarrow> bool" where
  "profile_ok cfg system games writeback \<longleftrightarrow>
     is_disk cfg Image system \<and> list_all (is_disk cfg Game) games \<and> is_disk cfg Writeback writeback"

definition boot_ok :: "(rstr \<Rightarrow> bool) \<Rightarrow> boot_config \<Rightarrow> bool" where
  "boot_ok is_dir b \<longleftrightarrow> bc_http_port b \<noteq> 0 \<and> bc_iscsi_port b \<noteq> 0 \<and> is_dir (bc_tftp_root b) \<and>
     is_safe_filename (bc_bios_filename b) \<and> is_safe_filename (bc_uefi_filename b) \<and>
     (starts_with (ascii ''http://'') (bc_http_script_url b) \<or>
      starts_with (ascii ''https://'') (bc_http_script_url b))"

definition config_ok :: "(rstr \<Rightarrow> bool) \<Rightarrow> config \<Rightarrow> bool" where
  "config_ok is_dir cfg \<longleftrightarrow>
     distinct (map dk_id (cf_disks cfg)) \<and>
     list_all (\<lambda>c. is_valid_mac (cl_mac c) \<and> profile_ok cfg (cl_system c) (cl_games c) (cl_writeback c))
       (cf_clients cfg) \<and>
     distinct (map cl_mac (cf_clients cfg)) \<and>
     (\<forall>d. cf_client_defaults cfg = Some d \<longrightarrow> profile_ok cfg (cd_system d) (cd_games d) (cd_writeback d)) \<and>
     (\<forall>b. cf_boot cfg = Some b \<longrightarrow> boot_ok is_dir b)"

lemma check_disks_errors:
  "snd (check_disks ds m) = [] \<longleftrightarrow> distinct (map dk_id ds) \<and> (\<forall>d \<in> set ds. m (dk_id d) = None)"
proof (induction ds arbitrary: m)
  case (Cons d ds)
  have "snd (check_disks (d # ds) m) = [] \<longleftrightarrow> m (dk_id d) = None \<and> snd (check_disks ds (m(dk_id d \<mapsto> d))) = []"
    by (simp add: split_beta Let_def)
  also have "\<dots> \<longleftrightarrow> m (dk_id d) = None \<and> distinct (map dk_id ds) \<and>
      (\<forall>x \<in> set ds. dk_id x \<noteq> dk_id d \<and> m (dk_id x) = None)"
    by (auto simp: Cons.IH)
  finally show ?case by (simp add: image_iff) metis
qed simp

lemma check_disks_map:
  "distinct (map dk_id ds) \<Longrightarrow>
    fst (check_disks ds m) i = (case find (\<lambda>d. dk_id d = i) ds of Some d \<Rightarrow> Some d | None \<Rightarrow> m i)"
proof (induction ds arbitrary: m)
  case (Cons d ds)
  have "dk_id x \<noteq> dk_id d" if "x \<in> set ds" for x using Cons.prems that by (metis distinct.simps(2) image_eqI list.simps(9) set_map)
  then have "find (\<lambda>x. dk_id x = dk_id d) ds = None" by (auto simp: find_None_iff)
  with Cons show ?case by (auto simp: split_beta Let_def split: option.splits)
qed simp

lemma check_disks_lookup:
  assumes "distinct (map dk_id (cf_disks cfg))"
  shows "check_ref (fst (check_disks (cf_disks cfg) (\<lambda>_. None))) i ty ctxt = [] \<longleftrightarrow> is_disk cfg ty i"
proof (cases "find (\<lambda>d. dk_id d = i) (cf_disks cfg)")
  case None
  then have "fst (check_disks (cf_disks cfg) (\<lambda>_. None)) i = None" by (simp add: check_disks_map [OF assms])
  then show ?thesis
    using None by (auto simp: check_ref_def is_disk_def find_None_iff)
next
  case (Some d)
  then have d: "d \<in> set (cf_disks cfg)" "dk_id d = i" by (auto simp: find_Some_iff)
  have uniq: "d' = d" if "d' \<in> set (cf_disks cfg)" "dk_id d' = i" for d'
  proof -
    have "inj_on dk_id (set (cf_disks cfg))" using assms by (simp add: distinct_map)
    then show ?thesis using that d by (simp add: inj_on_def)
  qed
  have "is_disk cfg ty i \<longleftrightarrow> dk_type d = ty"
  proof
    assume "is_disk cfg ty i"
    then obtain d' where "d' \<in> set (cf_disks cfg)" "dk_id d' = i" "dk_type d' = ty" by (auto simp: is_disk_def)
    with uniq show "dk_type d = ty" by metis
  qed (use d in \<open>auto simp: is_disk_def\<close>)
  moreover have "fst (check_disks (cf_disks cfg) (\<lambda>_. None)) i = Some d"
    using Some by (simp add: check_disks_map [OF assms])
  ultimately show ?thesis by (simp add: check_ref_def)
qed

lemma check_profile_ok:
  assumes "distinct (map dk_id (cf_disks cfg))"
  shows "check_profile (fst (check_disks (cf_disks cfg) (\<lambda>_. None))) s gs w who = [] \<longleftrightarrow> profile_ok cfg s gs w"
  by (auto simp: check_profile_def profile_ok_def check_disks_lookup [OF assms] list_all_iff)

lemma check_clients_ok:
  assumes "distinct (map dk_id (cf_disks cfg))"
  shows "check_clients (fst (check_disks (cf_disks cfg) (\<lambda>_. None))) cs seen = [] \<longleftrightarrow>
    list_all (\<lambda>c. is_valid_mac (cl_mac c) \<and> profile_ok cfg (cl_system c) (cl_games c) (cl_writeback c)) cs \<and>
    distinct (map cl_mac cs) \<and> (\<forall>c \<in> set cs. cl_mac c \<notin> set seen)"
proof (induction cs arbitrary: seen)
  case (Cons c cs)
  have "cl_mac c \<notin> cl_mac ` set cs \<longleftrightarrow> (\<forall>x \<in> set cs. cl_mac x \<noteq> cl_mac c)" by (auto simp: image_iff)
  with Cons.IH show ?case by (auto simp: check_profile_ok [OF assms])
qed simp

lemma check_boot_ok: "check_boot is_dir b = [] \<longleftrightarrow> boot_ok is_dir b"
  by (auto simp: check_boot_def boot_ok_def check_boot_file_def Let_def is_safe_filename_def starts_with_iff)

lemma validation_errors_ok: "validation_errors is_dir cfg = [] \<longleftrightarrow> config_ok is_dir cfg"
proof (cases "distinct (map dk_id (cf_disks cfg))")
  case True
  have "snd (check_disks (cf_disks cfg) (\<lambda>_. None)) = []"
    using True by (simp add: check_disks_errors)
  then show ?thesis
    using True
    by (auto simp: validation_errors_def config_ok_def split_beta Let_def check_clients_ok [OF True]
        check_profile_ok [OF True] check_boot_ok split: option.splits)
next
  case False
  then have "snd (check_disks (cf_disks cfg) (\<lambda>_. None)) \<noteq> []" by (simp add: check_disks_errors)
  with False show ?thesis by (simp add: validation_errors_def config_ok_def split_beta Let_def)
qed

end
