(* ===== verification/Volume.thy ===== *)
theory Volume
  imports Storage
begin

text \<open>
  A client's virtual disk (\<open>volume/mod.rs\<close>, \<open>volume/overlay.rs\<close>): a read-only master under a
  volatile copy-on-write overlay of \<open>BLOCK\<close>-sized blocks. The abstract view \<open>vol_bytes\<close> is a
  plain byte array; the theorems show that reading, writing and resetting the volume are
  reading, writing and restoring that array. \<open>writable_disk\<close> is the contract the SCSI layer
  relies on.
\<close>

section \<open>The overlay\<close>

definition BLOCK :: nat where
  "BLOCK = 4096"

lemma BLOCK_pos [simp]: "0 < BLOCK"
  by (simp add: BLOCK_def)

record ram_overlay =
  ov_blocks :: "nat \<Rightarrow> bytes option"

definition ov_new :: ram_overlay where
  "ov_new = \<lparr>ov_blocks = (\<lambda>_. None)\<rparr>"

text \<open>
  \<open>read_block\<close> copies a stored block into a buffer of \<open>n\<close> bytes; \<open>copy_from_slice\<close> panics when
  the lengths differ (the block-length contract of the trait).
\<close>

definition ov_read_block :: "ram_overlay \<Rightarrow> nat \<Rightarrow> nat \<Rightarrow> bytes option io" where
  "ov_read_block ov blk n =
     (case ov_blocks ov blk of
        None \<Rightarrow> Inr None
      | Some data \<Rightarrow> if length data = n then Inr (Some data) else Inl Panicked)"

definition ov_write_block :: "ram_overlay \<Rightarrow> nat \<Rightarrow> bytes \<Rightarrow> ram_overlay" where
  "ov_write_block ov blk data = ov\<lparr>ov_blocks := (ov_blocks ov)(blk \<mapsto> data)\<rparr>"

definition ov_reset :: "ram_overlay \<Rightarrow> ram_overlay" where
  "ov_reset ov = ov\<lparr>ov_blocks := (\<lambda>_. None)\<rparr>"

text \<open>The contract of the trait \<open>OverlayStore\<close>, as \<open>Volume\<close> uses it.\<close>

locale overlay_store =
  fixes read_block :: "'o \<Rightarrow> nat \<Rightarrow> nat \<Rightarrow> bytes option io"
    and write_block :: "'o \<Rightarrow> nat \<Rightarrow> bytes \<Rightarrow> 'o"
    and reset :: "'o \<Rightarrow> 'o"
  assumes read_after_write:
      "read_block (write_block ov blk data) blk (length data) = Inr (Some data)"
    and read_other:
      "blk' \<noteq> blk \<Longrightarrow> read_block (write_block ov blk data) blk' n = read_block ov blk' n"
    and read_reset: "read_block (reset ov) blk n = Inr None"
begin

lemma last_write_wins:
  "read_block (write_block (write_block ov blk d1) blk d2) blk (length d2) = Inr (Some d2)"
  by (rule read_after_write)

lemma reset_forgets: "read_block (reset (write_block ov blk data)) blk' n = Inr None"
  by (rule read_reset)

lemma write_block_reads:
  "length data = n \<Longrightarrow> read_block (write_block ov blk data) blk' n
    = (if blk' = blk then Inr (Some data) else read_block ov blk' n)"
  using read_after_write read_other by auto

end

interpretation ram: overlay_store ov_read_block ov_write_block ov_reset
  by unfold_locales (auto simp: ov_read_block_def ov_write_block_def ov_reset_def)

section \<open>The volume\<close>

record volume =
  vol_master :: backing
  vol_overlay :: ram_overlay

definition vol_new :: "backing \<Rightarrow> ram_overlay \<Rightarrow> volume" where
  "vol_new m ov = \<lparr>vol_master = m, vol_overlay = ov\<rparr>"

definition vol_size :: "volume \<Rightarrow> nat" where
  "vol_size v = bs_size (vol_master v)"

text \<open>\<open>self.size_bytes() - start\<close> is an unsigned subtraction: it panics on underflow.\<close>

definition block_len :: "volume \<Rightarrow> nat \<Rightarrow> nat io" where
  "block_len v blk =
     (let start = blk * BLOCK in
      if vol_size v < start then Inl Panicked else Inr (min BLOCK (vol_size v - start)))"

definition check_bounds :: "volume \<Rightarrow> nat \<Rightarrow> nat \<Rightarrow> unit io" where
  "check_bounds v offset len =
     (case checked_add_u64 offset len of
        None \<Rightarrow> Inl InvalidData
      | Some end_pos \<Rightarrow> if vol_size v < end_pos then Inl InvalidData else Inr ())"

definition vol_read_chunk :: "volume \<Rightarrow> nat \<Rightarrow> nat \<Rightarrow> nat \<Rightarrow> nat \<Rightarrow> bytes io" where
  "vol_read_chunk v blk blen within take_n =
     (case ov_read_block (vol_overlay v) blk blen of
        Inl e \<Rightarrow> Inl e
      | Inr (Some block) \<Rightarrow> Inr (window within take_n block)
      | Inr None \<Rightarrow> bs_read (vol_master v) (blk * BLOCK + within) take_n)"

function vol_read_loop :: "volume \<Rightarrow> nat \<Rightarrow> nat \<Rightarrow> bytes io" where
  "vol_read_loop v pos remaining =
     (if remaining = 0 then Inr []
      else
        let blk = pos div BLOCK; within = pos mod BLOCK in
        case block_len v blk of
          Inl e \<Rightarrow> Inl e
        | Inr blen \<Rightarrow>
            if blen < within then Inl Panicked
            else
              let take_n = min (blen - within) remaining in
              if take_n = 0 then Inl Diverged
              else case vol_read_chunk v blk blen within take_n of
                Inl e \<Rightarrow> Inl e
              | Inr chunk \<Rightarrow>
                  (case vol_read_loop v (pos + take_n) (remaining - take_n) of
                     Inl e \<Rightarrow> Inl e
                   | Inr rest \<Rightarrow> Inr (chunk @ rest)))"
  by pat_completeness auto
termination
  by (relation "measure (\<lambda>(v, pos, remaining). remaining)") auto

declare vol_read_loop.simps [simp del]

definition vol_read_at :: "volume \<Rightarrow> nat \<Rightarrow> nat \<Rightarrow> bytes io" where
  "vol_read_at v offset len =
     (case check_bounds v offset len of Inl e \<Rightarrow> Inl e | Inr _ \<Rightarrow> vol_read_loop v offset len)"

text \<open>
  One block of a write: a block the range covers is stored directly, any other is
  read-modified-written. The state is returned with the result, because the blocks before a
  failing one stay written.
\<close>

definition vol_write_chunk :: "volume \<Rightarrow> nat \<Rightarrow> nat \<Rightarrow> nat \<Rightarrow> bytes \<Rightarrow> volume \<times> unit io" where
  "vol_write_chunk v blk blen within src =
     (if length src = blen then
        (v\<lparr>vol_overlay := ov_write_block (vol_overlay v) blk src\<rparr>, Inr ())
      else
        let block =
          (case ov_read_block (vol_overlay v) blk blen of
             Inl e \<Rightarrow> Inl e
           | Inr (Some data) \<Rightarrow> Inr data
           | Inr None \<Rightarrow> bs_read (vol_master v) (blk * BLOCK) blen) in
        case block of
          Inl e \<Rightarrow> (v, Inl e)
        | Inr b \<Rightarrow>
            (v\<lparr>vol_overlay := ov_write_block (vol_overlay v) blk (put within src b)\<rparr>, Inr ()))"

function vol_write_loop :: "volume \<Rightarrow> nat \<Rightarrow> bytes \<Rightarrow> volume \<times> unit io" where
  "vol_write_loop v pos buf =
     (if buf = [] then (v, Inr ())
      else
        let blk = pos div BLOCK; within = pos mod BLOCK in
        case block_len v blk of
          Inl e \<Rightarrow> (v, Inl e)
        | Inr blen \<Rightarrow>
            if blen < within then (v, Inl Panicked)
            else
              let take_n = min (blen - within) (length buf) in
              if take_n = 0 then (v, Inl Diverged)
              else case vol_write_chunk v blk blen within (take take_n buf) of
                (v', Inl e) \<Rightarrow> (v', Inl e)
              | (v', Inr _) \<Rightarrow> vol_write_loop v' (pos + take_n) (drop take_n buf))"
  by pat_completeness auto
termination
  by (relation "measure (\<lambda>(v, pos, buf). length buf)") auto

declare vol_write_loop.simps [simp del]

definition vol_write_at :: "volume \<Rightarrow> nat \<Rightarrow> bytes \<Rightarrow> volume \<times> unit io" where
  "vol_write_at v offset buf =
     (case check_bounds v offset (length buf) of
        Inl e \<Rightarrow> (v, Inl e) | Inr _ \<Rightarrow> vol_write_loop v offset buf)"

definition vol_reset :: "volume \<Rightarrow> volume" where
  "vol_reset v = v\<lparr>vol_overlay := ov_reset (vol_overlay v)\<rparr>"

section \<open>Abstract view and invariant\<close>

definition vol_byte :: "volume \<Rightarrow> nat \<Rightarrow> u8" where
  "vol_byte v i =
     (case ov_blocks (vol_overlay v) (i div BLOCK) of
        Some d \<Rightarrow> d ! (i mod BLOCK)
      | None \<Rightarrow> disk_bytes (vol_master v) ! i)"

definition vol_bytes :: "volume \<Rightarrow> bytes" where
  "vol_bytes v = map (vol_byte v) [0..<vol_size v]"

text \<open>The master keeps its contract, and every stored block is a block of the disk at its length.\<close>

definition vol_inv :: "volume \<Rightarrow> bool" where
  "vol_inv v \<longleftrightarrow>
     serves (vol_master v) \<and> vol_size v < u64_lim \<and>
     (\<forall>blk d. ov_blocks (vol_overlay v) blk = Some d \<longrightarrow>
        blk * BLOCK < vol_size v \<and> length d = min BLOCK (vol_size v - blk * BLOCK))"

lemma length_vol_bytes [simp]: "length (vol_bytes v) = vol_size v"
  by (simp add: vol_bytes_def)

lemma nth_vol_bytes [simp]: "i < vol_size v \<Longrightarrow> vol_bytes v ! i = vol_byte v i"
  by (simp add: vol_bytes_def)

lemma vol_inv_block:
  "vol_inv v \<Longrightarrow> ov_blocks (vol_overlay v) blk = Some d \<Longrightarrow>
    length d = min BLOCK (vol_size v - blk * BLOCK)"
  by (simp add: vol_inv_def)

lemma vol_inv_new: "serves m \<Longrightarrow> bs_size m < u64_lim \<Longrightarrow> vol_inv (vol_new m ov_new)"
  by (simp add: vol_inv_def vol_new_def vol_size_def ov_new_def)

lemma vol_bytes_new: "serves m \<Longrightarrow> vol_bytes (vol_new m ov_new) = disk_bytes m"
  using dyn.content_length [of m]
  by (intro nth_equalityI) (simp_all add: vol_size_def vol_new_def vol_byte_def ov_new_def)

lemma check_bounds_ok: "vol_inv v \<Longrightarrow> off + len \<le> vol_size v \<Longrightarrow> check_bounds v off len = Inr ()"
  by (simp add: check_bounds_def checked_add_u64_def vol_inv_def)

lemma check_bounds_err: "vol_size v < off + len \<Longrightarrow> check_bounds v off len = Inl InvalidData"
  by (auto simp: check_bounds_def checked_add_u64_def)

lemma block_len_at: "pos < vol_size v \<Longrightarrow>
  block_len v (pos div BLOCK) = Inr (min BLOCK (vol_size v - pos div BLOCK * BLOCK))"
proof -
  assume "pos < vol_size v"
  moreover have "pos div BLOCK * BLOCK \<le> pos" by (rule div_times_less_eq_dividend)
  ultimately have "\<not> vol_size v < pos div BLOCK * BLOCK" by linarith
  then show ?thesis by (simp add: block_len_def Let_def)
qed

lemma div_mod_add_lt: "pos mod BLOCK + i < BLOCK \<Longrightarrow>
  (pos + i) div BLOCK = pos div BLOCK \<and> (pos + i) mod BLOCK = pos mod BLOCK + i"
  by (metis add.assoc div_mult_mod_eq div_mult_self3 div_less mod_less mod_mult_self3
      BLOCK_pos add.right_neutral mult.commute neq0_conv)

section \<open>Reads\<close>

lemma vol_read_chunk_window:
  assumes inv: "vol_inv v" and n: "0 < n" "pos + n \<le> vol_size v" "pos mod BLOCK + n \<le> BLOCK"
  shows "vol_read_chunk v (pos div BLOCK) (min BLOCK (vol_size v - pos div BLOCK * BLOCK))
    (pos mod BLOCK) n = Inr (window pos n (vol_bytes v))"
proof (cases "ov_blocks (vol_overlay v) (pos div BLOCK)")
  case None
  have "window pos n (disk_bytes (vol_master v)) = window pos n (vol_bytes v)"
  proof (rule nth_equalityI)
    fix i assume "i < length (window pos n (disk_bytes (vol_master v)))"
    then have i: "i < n" by (simp add: length_window)
    then have "(pos + i) div BLOCK = pos div BLOCK"
      using n div_mod_add_lt [of pos i] by linarith
    with i n None inv show "window pos n (disk_bytes (vol_master v)) ! i = window pos n (vol_bytes v) ! i"
      using dyn.content_length [of "vol_master v"]
      by (simp add: vol_byte_def vol_inv_def vol_size_def)
  qed (use inv n dyn.content_length [of "vol_master v"] in
        \<open>simp add: vol_inv_def vol_size_def length_window\<close>)
  moreover have "bs_read (vol_master v) (pos div BLOCK * BLOCK + pos mod BLOCK) n
      = Inr (window pos n (disk_bytes (vol_master v)))"
    using inv n dyn.read_in_range [of "vol_master v" pos n] by (simp add: vol_inv_def vol_size_def)
  ultimately show ?thesis
    using None by (simp add: vol_read_chunk_def ov_read_block_def)
next
  case (Some d)
  have len: "length d = min BLOCK (vol_size v - pos div BLOCK * BLOCK)"
    using inv Some by (rule vol_inv_block)
  have "pos div BLOCK * BLOCK + pos mod BLOCK = pos" by simp
  then have fit: "pos mod BLOCK + n \<le> length d" using n len by linarith
  have "window (pos mod BLOCK) n d = window pos n (vol_bytes v)"
  proof (rule nth_equalityI)
    fix i assume "i < length (window (pos mod BLOCK) n d)"
    then have i: "i < n" using fit by simp
    then have "(pos + i) div BLOCK = pos div BLOCK \<and> (pos + i) mod BLOCK = pos mod BLOCK + i"
      using n by (intro div_mod_add_lt) linarith
    with i n fit Some show "window (pos mod BLOCK) n d ! i = window pos n (vol_bytes v) ! i"
      by (simp add: vol_byte_def)
  qed (use fit n in simp)
  with Some len show ?thesis by (simp add: vol_read_chunk_def ov_read_block_def)
qed

lemma block_take:
  fixes w b c r :: nat
  assumes "w < c" and "w < b" and "0 < r"
  shows "0 < min (min b c - w) r" "min (min b c - w) r \<le> r" "w + min (min b c - w) r \<le> b"
    "\<not> min b c < w"
  using assms by auto

lemma vol_take:
  assumes "pos + remaining \<le> vol_size v" and "0 < remaining"
  defines "n \<equiv> min (min BLOCK (vol_size v - pos div BLOCK * BLOCK) - pos mod BLOCK) remaining"
  shows "0 < n" "n \<le> remaining" "pos mod BLOCK + n \<le> BLOCK"
    "\<not> min BLOCK (vol_size v - pos div BLOCK * BLOCK) < pos mod BLOCK"
proof -
  have e: "pos div BLOCK * BLOCK + pos mod BLOCK = pos" and lt: "pos mod BLOCK < BLOCK" by simp_all
  then have "pos mod BLOCK < vol_size v - pos div BLOCK * BLOCK" using assms by linarith
  then show "0 < n" "n \<le> remaining" "pos mod BLOCK + n \<le> BLOCK"
    "\<not> min BLOCK (vol_size v - pos div BLOCK * BLOCK) < pos mod BLOCK"
    using lt assms(2) unfolding n_def by - (rule block_take; assumption)+
qed

lemma vol_read_loop_window:
  assumes "vol_inv v" and "pos + remaining \<le> vol_size v"
  shows "vol_read_loop v pos remaining = Inr (window pos remaining (vol_bytes v))"
  using assms(2)
proof (induction remaining arbitrary: pos rule: less_induct)
  case (less remaining)
  show ?case
  proof (cases "remaining = 0")
    case True
    then show ?thesis by (simp add: vol_read_loop.simps)
  next
    case False
    define n where "n = min (min BLOCK (vol_size v - pos div BLOCK * BLOCK) - pos mod BLOCK) remaining"
    note t = vol_take [OF less.prems, folded n_def]
    have "vol_read_loop v (pos + n) (remaining - n) = Inr (window (pos + n) (remaining - n) (vol_bytes v))"
      using t False less.prems by (intro less.IH) auto
    moreover have "vol_read_chunk v (pos div BLOCK) (min BLOCK (vol_size v - pos div BLOCK * BLOCK))
        (pos mod BLOCK) n = Inr (window pos n (vol_bytes v))"
      using assms(1) t False less.prems by (intro vol_read_chunk_window) auto
    moreover have "block_len v (pos div BLOCK) = Inr (min BLOCK (vol_size v - pos div BLOCK * BLOCK))"
      using False less.prems by (intro block_len_at) auto
    ultimately show ?thesis
      using False t
      by (simp add: vol_read_loop.simps [of _ pos] n_def [symmetric] Let_def window_split_le)
  qed
qed

lemma vol_read_at_ok:
  "vol_inv v \<Longrightarrow> off + len \<le> vol_size v \<Longrightarrow> vol_read_at v off len = Inr (window off len (vol_bytes v))"
  by (simp add: vol_read_at_def check_bounds_ok vol_read_loop_window)

lemma vol_read_at_err: "vol_size v < off + len \<Longrightarrow> vol_read_at v off len = Inl InvalidData"
  by (simp add: vol_read_at_def check_bounds_err)

section \<open>Writes\<close>

lemma vol_size_overlay [simp]: "vol_size (v\<lparr>vol_overlay := ov\<rparr>) = vol_size v"
  by (simp add: vol_size_def)

lemma block_start_le: "pos div BLOCK * BLOCK \<le> pos"
  by (rule div_times_less_eq_dividend)

lemma div_BLOCK_eq: "blk * BLOCK \<le> i \<Longrightarrow> i < blk * BLOCK + BLOCK \<Longrightarrow>
  i div BLOCK = blk \<and> i mod BLOCK = i - blk * BLOCK"
proof -
  assume "blk * BLOCK \<le> i" and "i < blk * BLOCK + BLOCK"
  then obtain k where "i = k + blk * BLOCK" "k < BLOCK"
    by (metis add.commute add_less_cancel_left le_iff_add)
  then show ?thesis by simp
qed

text \<open>Storing a whole block is a write of that block to the byte array.\<close>

lemma vol_store_block:
  assumes "vol_inv v" and "blk * BLOCK < vol_size v"
    and len: "length b = min BLOCK (vol_size v - blk * BLOCK)"
  defines "v' \<equiv> v\<lparr>vol_overlay := ov_write_block (vol_overlay v) blk b\<rparr>"
  shows "vol_inv v'" "vol_bytes v' = put (blk * BLOCK) b (vol_bytes v)"
proof -
  show "vol_inv v'"
    using assms by (auto simp: vol_inv_def vol_size_def ov_write_block_def)
  have fit: "blk * BLOCK + length b \<le> vol_size v" using assms by simp
  show "vol_bytes v' = put (blk * BLOCK) b (vol_bytes v)"
  proof (rule nth_equalityI)
    fix i assume "i < length (vol_bytes v')"
    then have i: "i < vol_size v" by (simp add: v'_def)
    have m: "vol_master v' = vol_master v" by (simp add: v'_def)
    have o: "ov_blocks (vol_overlay v') = (ov_blocks (vol_overlay v))(blk \<mapsto> b)"
      by (simp add: v'_def ov_write_block_def)
    have "vol_byte v' i = (if blk * BLOCK \<le> i \<and> i < blk * BLOCK + length b
        then b ! (i - blk * BLOCK) else vol_byte v i)"
    proof (cases "i div BLOCK = blk")
      case True
      then have "blk * BLOCK \<le> i" "i < blk * BLOCK + BLOCK"
        using block_start_le [of i] mod_less_divisor [OF BLOCK_pos, of i] div_mult_mod_eq [of i BLOCK]
        unfolding True by - linarith+
      moreover have "i mod BLOCK = i - blk * BLOCK" using True by (metis minus_div_mult_eq_mod)
      moreover have "i < blk * BLOCK + length b" using calculation i len by simp
      ultimately show ?thesis using True o by (simp add: vol_byte_def)
    next
      case False
      then have "\<not> (blk * BLOCK \<le> i \<and> i < blk * BLOCK + length b)"
        using div_BLOCK_eq [of blk i] len min.cobounded1 [of BLOCK "vol_size v - blk * BLOCK"]
        by linarith
      then show ?thesis using False o m by (auto simp: vol_byte_def split: option.split)
    qed
    then show "vol_bytes v' ! i = put (blk * BLOCK) b (vol_bytes v) ! i"
      using i fit by (simp add: nth_put v'_def)
  qed (use fit in \<open>simp add: length_put v'_def\<close>)
qed

lemma vol_read_block:
  assumes "vol_inv v" and "blk * BLOCK < vol_size v"
  defines "blen \<equiv> min BLOCK (vol_size v - blk * BLOCK)"
  shows "(case ov_read_block (vol_overlay v) blk blen of
      Inl e \<Rightarrow> Inl e | Inr (Some data) \<Rightarrow> Inr data
    | Inr None \<Rightarrow> bs_read (vol_master v) (blk * BLOCK) blen) = Inr (window (blk * BLOCK) blen (vol_bytes v))"
proof -
  have b: "0 < blen" "blk * BLOCK + blen \<le> vol_size v" using assms by (auto simp: blen_def)
  have "vol_read_chunk v blk blen 0 blen = Inr (window (blk * BLOCK) blen (vol_bytes v))"
    using vol_read_chunk_window [OF assms(1) b] by (simp add: blen_def)
  moreover have "length d = blen" if "ov_blocks (vol_overlay v) blk = Some d" for d
    using vol_inv_block [OF assms(1) that] by (simp add: blen_def)
  ultimately show ?thesis
    by (auto simp: vol_read_chunk_def ov_read_block_def window_all' split: option.splits)
qed

lemma vol_write_chunk_ok:
  assumes inv: "vol_inv v" and n: "src \<noteq> []" "pos + length src \<le> vol_size v"
    "pos mod BLOCK + length src \<le> BLOCK"
  defines "blen \<equiv> min BLOCK (vol_size v - pos div BLOCK * BLOCK)"
  obtains v' where "vol_write_chunk v (pos div BLOCK) blen (pos mod BLOCK) src = (v', Inr ())"
    "vol_inv v'" "vol_bytes v' = put pos src (vol_bytes v)" "vol_master v' = vol_master v"
proof -
  define blk where "blk = pos div BLOCK"
  have pos: "blk * BLOCK + pos mod BLOCK = pos" by (simp add: blk_def)
  have start: "blk * BLOCK < vol_size v" using pos n by (cases src) auto
  have "pos mod BLOCK + length src \<le> vol_size v - blk * BLOCK" using pos n by linarith
  then have fit: "pos mod BLOCK + length src \<le> blen" "blk * BLOCK + blen \<le> vol_size v"
    using n start by (auto simp: blen_def blk_def)
  define b where "b = (if length src = blen then src
      else put (pos mod BLOCK) src (window (blk * BLOCK) blen (vol_bytes v)))"
  have len: "length b = blen" using fit by (auto simp: b_def length_put)
  have "put (blk * BLOCK) b (vol_bytes v) = put pos src (vol_bytes v)"
  proof (cases "length src = blen")
    case True
    with fit have "pos mod BLOCK = 0" by simp
    with pos have "blk * BLOCK = pos" by linarith
    with True show ?thesis by (simp add: b_def)
  next
    case False
    with fit pos show ?thesis by (simp add: b_def put_put_window)
  qed
  moreover have "vol_write_chunk v blk blen (pos mod BLOCK) src
      = (v\<lparr>vol_overlay := ov_write_block (vol_overlay v) blk b\<rparr>, Inr ())"
    using vol_read_block [OF inv start, unfolded blk_def]
    unfolding vol_write_chunk_def b_def blen_def blk_def by simp
  ultimately show ?thesis
    using vol_store_block [OF inv start, of b] len that by (simp add: blen_def blk_def)
qed

lemma vol_write_loop_put:
  assumes "vol_inv v" and "pos + length buf \<le> vol_size v"
  shows "\<exists>v'. vol_write_loop v pos buf = (v', Inr ()) \<and> vol_inv v' \<and>
    vol_bytes v' = put pos buf (vol_bytes v) \<and> vol_master v' = vol_master v"
  using assms
proof (induction "length buf" arbitrary: v pos buf rule: less_induct)
  case less
  show ?case
  proof (cases "buf = []")
    case True
    with less.prems show ?thesis by (simp add: vol_write_loop.simps)
  next
    case False
    then have ne: "0 < length buf" by simp
    define n where "n = min (min BLOCK (vol_size v - pos div BLOCK * BLOCK) - pos mod BLOCK) (length buf)"
    note t = vol_take [OF less.prems(2) ne, folded n_def]
    obtain v1 where v1: "vol_write_chunk v (pos div BLOCK) (min BLOCK (vol_size v - pos div BLOCK * BLOCK))
        (pos mod BLOCK) (take n buf) = (v1, Inr ())" "vol_inv v1"
        "vol_bytes v1 = put pos (take n buf) (vol_bytes v)" "vol_master v1 = vol_master v"
      using less.prems t False by (rule_tac vol_write_chunk_ok [of v "take n buf" pos]) auto
    have sz: "vol_size v1 = vol_size v" using v1(4) by (simp add: vol_size_def)
    obtain v2 where v2: "vol_write_loop v1 (pos + n) (drop n buf) = (v2, Inr ())" "vol_inv v2"
        "vol_bytes v2 = put (pos + n) (drop n buf) (vol_bytes v1)" "vol_master v2 = vol_master v1"
      using less.hyps [of "drop n buf" v1 "pos + n"] less.prems t v1 sz ne by auto
    have "vol_bytes v2 = put pos buf (vol_bytes v)"
      using put_put_adjacent [of pos "take n buf" "drop n buf" "vol_bytes v"] less.prems t v1 v2
      by (simp add: min_absorb2)
    moreover have "block_len v (pos div BLOCK) = Inr (min BLOCK (vol_size v - pos div BLOCK * BLOCK))"
      using ne less.prems by (intro block_len_at) linarith
    ultimately show ?thesis
      using False t v1 v2 by (simp add: vol_write_loop.simps [of _ pos] n_def [symmetric] Let_def)
  qed
qed

lemma vol_write_at_ok:
  assumes "vol_inv v" and "off + length buf \<le> vol_size v"
  obtains v' where "vol_write_at v off buf = (v', Inr ())" "vol_inv v'"
    "vol_bytes v' = put off buf (vol_bytes v)" "vol_master v' = vol_master v"
  using vol_write_loop_put [OF assms] check_bounds_ok [OF assms] that by (auto simp: vol_write_at_def)

lemma vol_write_at_err: "vol_size v < off + length buf \<Longrightarrow> vol_write_at v off buf = (v, Inl InvalidData)"
  by (simp add: vol_write_at_def check_bounds_err)

section \<open>Reset\<close>

lemma vol_reset_inv: "vol_inv v \<Longrightarrow> vol_inv (vol_reset v)"
  by (simp add: vol_inv_def vol_reset_def ov_reset_def)

lemma vol_reset_bytes: "vol_inv v \<Longrightarrow> vol_bytes (vol_reset v) = disk_bytes (vol_master v)"
  using dyn.content_length [of "vol_master v"]
  by (intro nth_equalityI) (simp_all add: vol_reset_def ov_reset_def vol_byte_def vol_inv_def vol_size_def)

section \<open>The contract of a writable disk\<close>

locale writable_disk = backing_store size_of read_at content valid
  for size_of :: "'s \<Rightarrow> nat" and read_at :: "'s \<Rightarrow> nat \<Rightarrow> nat \<Rightarrow> bytes io"
    and content :: "'s \<Rightarrow> bytes" and valid :: "'s \<Rightarrow> bool" +
  fixes write_at :: "'s \<Rightarrow> nat \<Rightarrow> bytes \<Rightarrow> 's \<times> unit io"
  assumes write_in_range:
      "valid s \<Longrightarrow> off + length buf \<le> size_of s \<Longrightarrow> \<exists>s'. write_at s off buf = (s', Inr ()) \<and>
        valid s' \<and> content s' = put off buf (content s)"
    and write_out_of_range:
      "valid s \<Longrightarrow> size_of s < off + length buf \<Longrightarrow> write_at s off buf = (s, Inl InvalidData)"
begin

lemma write_cases:
  assumes "valid s"
  obtains (ok) s' where "off + length buf \<le> size_of s" "write_at s off buf = (s', Inr ())"
      "valid s'" "content s' = put off buf (content s)" "size_of s' = size_of s"
    | (err) "size_of s < off + length buf" "write_at s off buf = (s, Inl InvalidData)"
proof (cases "off + length buf \<le> size_of s")
  case True
  then obtain s' where s': "write_at s off buf = (s', Inr ())" "valid s'"
      "content s' = put off buf (content s)"
    using write_in_range assms by blast
  moreover have "size_of s' = size_of s"
    using content_length [OF assms] content_length [OF s'(2)] s'(3) True by (simp add: length_put)
  ultimately show ?thesis using ok True by blast
next
  case False
  with assms show ?thesis using err write_out_of_range by simp
qed

lemma write_valid: "valid s \<Longrightarrow> valid (fst (write_at s off buf))"
  by (rule write_cases [of s off buf]) auto

lemma write_size: "valid s \<Longrightarrow> size_of (fst (write_at s off buf)) = size_of s"
  by (rule write_cases [of s off buf]) auto

lemma read_back:
  assumes "valid s" and "write_at s off buf = (s', Inr ())"
  shows "read_at s' off (length buf) = Inr buf"
proof -
  from assms(1) show ?thesis
  proof (rule write_cases [of s off buf])
    fix s'' assume "off + length buf \<le> size_of s" "write_at s off buf = (s'', Inr ())"
      "valid s''" "content s'' = put off buf (content s)" "size_of s'' = size_of s"
    with assms content_length [OF assms(1)] show ?thesis
      by (simp add: read_in_range window_put_same)
  qed (use assms in simp)
qed

lemma read_elsewhere:
  assumes "valid s" and "write_at s off buf = (s', Inr ())"
    and "a + n \<le> off \<or> off + length buf \<le> a"
  shows "read_at s' a n = read_at s a n"
proof -
  from assms(1) show ?thesis
  proof (rule write_cases [of s off buf])
    fix s'' assume w: "off + length buf \<le> size_of s" "write_at s off buf = (s'', Inr ())"
      "valid s''" "content s'' = put off buf (content s)" "size_of s'' = size_of s"
    then show ?thesis
      using assms content_length [OF assms(1)]
      by (cases "a + n \<le> size_of s")
        (auto simp: read_in_range read_out_of_range window_put_disjoint)
  qed (use assms in simp)
qed

end

lemma vol_valid_size: "vol_inv v \<Longrightarrow> length (vol_bytes v) = vol_size v"
  by simp

interpretation vol: writable_disk vol_size vol_read_at vol_bytes vol_inv vol_write_at
proof unfold_locales
  fix s :: volume and off :: nat and buf :: bytes
  assume "vol_inv s" and "off + length buf \<le> vol_size s"
  then show "\<exists>s'. vol_write_at s off buf = (s', Inr ()) \<and> vol_inv s' \<and>
      vol_bytes s' = put off buf (vol_bytes s)"
    by (rule vol_write_at_ok) blast
qed (simp_all add: vol_read_at_ok vol_read_at_err vol_write_at_err)

lemma vol_write_master: "vol_master (fst (vol_write_at v off buf)) = vol_master v"
  if "vol_inv v"
proof (cases "off + length buf \<le> vol_size v")
  case True
  with that show ?thesis by (rule vol_write_at_ok) simp
next
  case False
  then show ?thesis by (simp add: vol_write_at_err)
qed

end
