(* ===== verification/Iscsi_Pdu.thy ===== *)
theory Iscsi_Pdu
  imports Rust_Str
begin

text \<open>
  The iSCSI wire codec (\<open>iscsi/mod.rs\<close>, \<open>iscsi/text.rs\<close>, \<open>iscsi/pdu.rs\<close>): text segments, the
  requests and their decoder, the responses and their encoders. \<open>encode_request\<close> is the
  initiator's side of the RFC 7143 layout, which the program does not contain; it states what
  \<open>decode\<close> has to invert.
\<close>

type_synonym u64 = "64 word"
type_synonym text_pairs = "(rstr \<times> rstr) list"

definition BHS_LEN :: nat where
  "BHS_LEN = 48"

definition MAX_DATA_SEGMENT :: nat where
  "MAX_DATA_SEGMENT = 256 * 1024"

definition pad4 :: "nat \<Rightarrow> nat" where
  "pad4 n = (4 - n mod 4) mod 4"

datatype pdu_error = ShortHeader | ShortData | UnexpectedAhs | DataSegmentTooLong

lemma pad4_dvd: "(n + pad4 n) mod 4 = 0"
proof -
  have "(n + pad4 n) mod 4 = (n mod 4 + pad4 n) mod 4" by (simp add: mod_add_left_eq)
  moreover have "n mod 4 < 4" by simp
  then have "n mod 4 = 0 \<or> n mod 4 = 1 \<or> n mod 4 = 2 \<or> n mod 4 = 3" by linarith
  ultimately show ?thesis by (auto simp: pad4_def)
qed

lemma pad4_lt: "pad4 n < 4"
  by (simp add: pad4_def)

section \<open>Text segments\<close>

text \<open>A chunk between NULs is a pair when it has an \<open>=\<close> after a non-empty key.\<close>

definition parse_pair :: "bytes \<Rightarrow> (rstr \<times> rstr) option" where
  "parse_pair chunk =
     (if chunk = [] then None
      else case position (\<lambda>b. b = 61) chunk of
        None \<Rightarrow> None
      | Some eq \<Rightarrow>
          let key = take eq chunk in
          if key = [] then None
          else Some (from_utf8_lossy key, from_utf8_lossy (drop (eq + 1) chunk)))"

definition parse_pairs :: "bytes \<Rightarrow> text_pairs" where
  "parse_pairs bs = List.map_filter parse_pair (split_on (\<lambda>b. b = 0) bs)"

definition encode_pairs :: "text_pairs \<Rightarrow> bytes" where
  "encode_pairs pairs = concat (map (\<lambda>(k, v). k @ [61] @ v @ [0]) pairs)"

text \<open>The pairs that survive the wire: a key without \<open>=\<close>, and neither part contains NUL.\<close>

definition text_pair_ok :: "rstr \<times> rstr \<Rightarrow> bool" where
  "text_pair_ok p \<longleftrightarrow> fst p \<noteq> [] \<and> is_utf8 (fst p) \<and> is_utf8 (snd p) \<and>
     61 \<notin> set (fst p) \<and> 0 \<notin> set (fst p) \<and> 0 \<notin> set (snd p)"

lemma parse_pair_encode: "text_pair_ok (k, v) \<Longrightarrow> parse_pair (k @ 61 # v) = Some (k, v)"
proof -
  assume ok: "text_pair_ok (k, v)"
  then have "position (\<lambda>b. b = 61) (k @ 61 # v) = Some (length k)"
    by (intro position_append_first) (auto simp: text_pair_ok_def)
  then show ?thesis
    using ok by (simp add: parse_pair_def Let_def text_pair_ok_def is_utf8_def)
qed

lemma parse_encode_pairs: "list_all text_pair_ok pairs \<Longrightarrow> parse_pairs (encode_pairs pairs) = pairs"
proof (induction pairs)
  case Nil
  then show ?case by (simp add: parse_pairs_def encode_pairs_def parse_pair_def map_filter_simps)
next
  case (Cons p pairs)
  obtain k v where p: "p = (k, v)" by (cases p)
  have ok: "text_pair_ok (k, v)" using Cons.prems p by simp
  have enc: "encode_pairs (p # pairs) = (k @ 61 # v) @ 0 # encode_pairs pairs"
    by (simp add: encode_pairs_def p)
  have "split_on (\<lambda>b. b = 0) (encode_pairs (p # pairs)) = (k @ 61 # v) # split_on (\<lambda>b. b = 0) (encode_pairs pairs)"
    unfolding enc using ok by (intro split_on_append) (auto simp: text_pair_ok_def)
  then show ?case
    using Cons parse_pair_encode [OF ok] p by (simp add: parse_pairs_def map_filter_simps)
qed

text \<open>Every key that is parsed is non-empty, whatever the segment holds.\<close>

lemma parse_pair_key: "parse_pair c = Some (k, v) \<Longrightarrow> k \<noteq> []"
  by (auto simp: parse_pair_def Let_def split: if_splits option.splits)

lemma parse_pairs_keys: "(k, v) \<in> set (parse_pairs bs) \<Longrightarrow> k \<noteq> []"
  using parse_pair_key by (force simp: parse_pairs_def map_filter_def)

section \<open>Requests\<close>

record login_request =
  lq_transit :: bool
  lq_continue :: bool
  lq_csg :: u8
  lq_nsg :: u8
  lq_version_max :: u8
  lq_version_min :: u8
  lq_isid :: bytes
  lq_tsih :: u16
  lq_itt :: u32
  lq_cid :: u16
  lq_cmd_sn :: u32
  lq_exp_stat_sn :: u32
  lq_text :: text_pairs

record text_request =
  tq_final :: bool
  tq_continue :: bool
  tq_lun :: u64
  tq_itt :: u32
  tq_ttt :: u32
  tq_cmd_sn :: u32
  tq_exp_stat_sn :: u32
  tq_text :: text_pairs

record scsi_command =
  sc_final :: bool
  sc_read :: bool
  sc_write :: bool
  sc_attr :: u8
  sc_lun :: u64
  sc_itt :: u32
  sc_edtl :: u32
  sc_cmd_sn :: u32
  sc_exp_stat_sn :: u32
  sc_cdb :: bytes
  sc_data :: bytes

record scsi_data_out =
  do_final :: bool
  do_lun :: u64
  do_itt :: u32
  do_ttt :: u32
  do_exp_stat_sn :: u32
  do_data_sn :: u32
  do_buffer_offset :: u32
  do_data :: bytes

record nop_out =
  no_lun :: u64
  no_itt :: u32
  no_ttt :: u32
  no_cmd_sn :: u32
  no_exp_stat_sn :: u32
  no_data :: bytes

record logout_request =
  lo_reason :: u8
  lo_itt :: u32
  lo_cid :: u16
  lo_cmd_sn :: u32
  lo_exp_stat_sn :: u32

record task_mgmt =
  tm_function :: u8
  tm_lun :: u64
  tm_itt :: u32
  tm_ref_task_tag :: u32
  tm_cmd_sn :: u32
  tm_exp_stat_sn :: u32

datatype request =
    Login login_request
  | Text text_request
  | ScsiCommand scsi_command
  | DataOut scsi_data_out
  | NopOut nop_out
  | Logout logout_request
  | TaskMgmt task_mgmt
  | Unsupported u8 u32

definition be16 :: "bytes \<Rightarrow> nat \<Rightarrow> u16" where
  "be16 b off = of_nat (be_val (window off 2 b))"

definition be24 :: "bytes \<Rightarrow> nat \<Rightarrow> nat" where
  "be24 b off = be_val (window off 3 b)"

definition be32 :: "bytes \<Rightarrow> nat \<Rightarrow> u32" where
  "be32 b off = of_nat (be_val (window off 4 b))"

definition be64 :: "bytes \<Rightarrow> nat \<Rightarrow> u64" where
  "be64 b off = of_nat (be_val (window off 8 b))"

definition has_bit :: "u8 \<Rightarrow> u8 \<Rightarrow> bool" where
  "has_bit b m \<longleftrightarrow> b AND m \<noteq> 0"

definition decode_request :: "bytes \<Rightarrow> bytes \<Rightarrow> request" where
  "decode_request h data =
     (let op = h ! 0 AND 0x3f in
      if op = 0x03 then
        Login \<lparr>lq_transit = has_bit (h ! 1) 0x80, lq_continue = has_bit (h ! 1) 0x40,
          lq_csg = drop_bit 2 (h ! 1) AND 3, lq_nsg = h ! 1 AND 3,
          lq_version_max = h ! 2, lq_version_min = h ! 3, lq_isid = window 8 6 h,
          lq_tsih = be16 h 14, lq_itt = be32 h 16, lq_cid = be16 h 20, lq_cmd_sn = be32 h 24,
          lq_exp_stat_sn = be32 h 28, lq_text = parse_pairs data\<rparr>
      else if op = 0x04 then
        Text \<lparr>tq_final = has_bit (h ! 1) 0x80, tq_continue = has_bit (h ! 1) 0x40,
          tq_lun = be64 h 8, tq_itt = be32 h 16, tq_ttt = be32 h 20, tq_cmd_sn = be32 h 24,
          tq_exp_stat_sn = be32 h 28, tq_text = parse_pairs data\<rparr>
      else if op = 0x01 then
        ScsiCommand \<lparr>sc_final = has_bit (h ! 1) 0x80, sc_read = has_bit (h ! 1) 0x40,
          sc_write = has_bit (h ! 1) 0x20, sc_attr = h ! 1 AND 7, sc_lun = be64 h 8,
          sc_itt = be32 h 16, sc_edtl = be32 h 20, sc_cmd_sn = be32 h 24,
          sc_exp_stat_sn = be32 h 28, sc_cdb = window 32 16 h, sc_data = data\<rparr>
      else if op = 0x05 then
        DataOut \<lparr>do_final = has_bit (h ! 1) 0x80, do_lun = be64 h 8, do_itt = be32 h 16,
          do_ttt = be32 h 20, do_exp_stat_sn = be32 h 28, do_data_sn = be32 h 36,
          do_buffer_offset = be32 h 40, do_data = data\<rparr>
      else if op = 0x00 then
        NopOut \<lparr>no_lun = be64 h 8, no_itt = be32 h 16, no_ttt = be32 h 20, no_cmd_sn = be32 h 24,
          no_exp_stat_sn = be32 h 28, no_data = data\<rparr>
      else if op = 0x06 then
        Logout \<lparr>lo_reason = h ! 1 AND 0x7f, lo_itt = be32 h 16, lo_cid = be16 h 20,
          lo_cmd_sn = be32 h 24, lo_exp_stat_sn = be32 h 28\<rparr>
      else if op = 0x02 then
        TaskMgmt \<lparr>tm_function = h ! 1 AND 0x7f, tm_lun = be64 h 8, tm_itt = be32 h 16,
          tm_ref_task_tag = be32 h 20, tm_cmd_sn = be32 h 24, tm_exp_stat_sn = be32 h 28\<rparr>
      else Unsupported op (be32 h 16))"

definition decode :: "bytes \<Rightarrow> pdu_error + request \<times> nat" where
  "decode buf =
     (if length buf < BHS_LEN then Inl ShortHeader
      else
        let h = take BHS_LEN buf in
        if h ! 4 \<noteq> 0 then Inl UnexpectedAhs
        else
          let data_len = be24 h 5 in
          if MAX_DATA_SEGMENT < data_len then Inl DataSegmentTooLong
          else
            let total = BHS_LEN + data_len + pad4 data_len in
            if length buf < total then Inl ShortData
            else Inr (decode_request h (window BHS_LEN data_len buf), total))"

text \<open>Framing: how far a PDU extends depends on its header alone.\<close>

lemma decode_consumed:
  assumes "decode buf = Inr (r, n)"
  shows "BHS_LEN \<le> n" "n \<le> length buf" "n mod 4 = 0" "n \<le> BHS_LEN + MAX_DATA_SEGMENT"
proof -
  obtain d where d: "n = BHS_LEN + d + pad4 d" "n \<le> length buf" "d \<le> MAX_DATA_SEGMENT"
    using assms by (auto simp: decode_def Let_def split: if_splits)
  then show "BHS_LEN \<le> n" "n \<le> length buf" by auto
  have "n = (d + pad4 d) + 12 * 4" using d(1) by (simp add: BHS_LEN_def)
  then show "n mod 4 = 0" using pad4_dvd [of d] by (simp only: mod_mult_self1)
  have "d + pad4 d \<le> MAX_DATA_SEGMENT"
  proof (rule ccontr)
    assume "\<not> d + pad4 d \<le> MAX_DATA_SEGMENT"
    then obtain k where k: "d + pad4 d = MAX_DATA_SEGMENT + k" "0 < k"
      by (metis less_imp_add_positive not_le)
    have "k < 4" using k(1) d(3) pad4_lt [of d] by linarith
    then show False using pad4_dvd [of d] k by (simp add: MAX_DATA_SEGMENT_def mod_add_eq [symmetric])
  qed
  then show "n \<le> BHS_LEN + MAX_DATA_SEGMENT" using d(1) by simp
qed

lemma decode_append:
  "decode buf = Inr (r, n) \<Longrightarrow> decode (buf @ rest) = Inr (r, n)"
  by (auto simp: decode_def Let_def window_append1 split: if_splits)

lemma decode_prefix:
  assumes "decode buf = Inr (r, n)"
  shows "decode (take n buf) = Inr (r, n)"
proof -
  have len: "BHS_LEN \<le> n" "n \<le> length buf" using decode_consumed [OF assms] by auto
  then have "take BHS_LEN (take n buf) = take BHS_LEN buf" by (simp add: min_def)
  moreover have "window BHS_LEN d (take n buf) = window BHS_LEN d buf" if "BHS_LEN + d \<le> n" for d
    using that len by (simp add: window_def drop_take min_def)
  ultimately show ?thesis
    using assms len by (auto simp: decode_def Let_def split: if_splits)
qed

lemma decode_error_stable:
  "decode buf = Inl e \<Longrightarrow> e = UnexpectedAhs \<or> e = DataSegmentTooLong \<Longrightarrow> decode (buf @ rest) = Inl e"
  by (auto simp: decode_def Let_def split: if_splits)

section \<open>The initiator's encoding\<close>

definition flag :: "bool \<Rightarrow> u8 \<Rightarrow> u8" where
  "flag b m = (if b then m else 0)"

text \<open>
  \<open>frame\<close>: DataSegmentLength into bytes 5 to 7 of the header, then the data and its padding.
\<close>

definition frame :: "bytes \<Rightarrow> bytes \<Rightarrow> bytes" where
  "frame bhs data = put 5 (be_bytes 3 (length data)) bhs @ data @ zeros (pad4 (length data))"

definition word_field :: "nat \<Rightarrow> 'a::len word \<Rightarrow> bytes" where
  "word_field n w = be_bytes n (unat w)"

primrec encode_request :: "bool \<Rightarrow> request \<Rightarrow> bytes" where
  "encode_request imm (Login q) = frame (puts
     [(0, [0x03 OR flag imm 0x40]),
      (1, [flag (lq_transit q) 0x80 OR flag (lq_continue q) 0x40 OR push_bit 2 (lq_csg q) OR lq_nsg q]),
      (2, [lq_version_max q]), (3, [lq_version_min q]), (8, lq_isid q), (14, word_field 2 (lq_tsih q)),
      (16, word_field 4 (lq_itt q)), (20, word_field 2 (lq_cid q)), (24, word_field 4 (lq_cmd_sn q)),
      (28, word_field 4 (lq_exp_stat_sn q))] (zeros BHS_LEN)) (encode_pairs (lq_text q))"
| "encode_request imm (Text q) = frame (puts
     [(0, [0x04 OR flag imm 0x40]), (1, [flag (tq_final q) 0x80 OR flag (tq_continue q) 0x40]),
      (8, word_field 8 (tq_lun q)), (16, word_field 4 (tq_itt q)), (20, word_field 4 (tq_ttt q)),
      (24, word_field 4 (tq_cmd_sn q)), (28, word_field 4 (tq_exp_stat_sn q))]
     (zeros BHS_LEN)) (encode_pairs (tq_text q))"
| "encode_request imm (ScsiCommand q) = frame (puts
     [(0, [0x01 OR flag imm 0x40]),
      (1, [flag (sc_final q) 0x80 OR flag (sc_read q) 0x40 OR flag (sc_write q) 0x20 OR sc_attr q]),
      (8, word_field 8 (sc_lun q)), (16, word_field 4 (sc_itt q)), (20, word_field 4 (sc_edtl q)),
      (24, word_field 4 (sc_cmd_sn q)), (28, word_field 4 (sc_exp_stat_sn q)), (32, sc_cdb q)]
     (zeros BHS_LEN)) (sc_data q)"
| "encode_request imm (DataOut q) = frame (puts
     [(0, [0x05 OR flag imm 0x40]), (1, [flag (do_final q) 0x80]), (8, word_field 8 (do_lun q)),
      (16, word_field 4 (do_itt q)), (20, word_field 4 (do_ttt q)), (28, word_field 4 (do_exp_stat_sn q)),
      (36, word_field 4 (do_data_sn q)), (40, word_field 4 (do_buffer_offset q))]
     (zeros BHS_LEN)) (do_data q)"
| "encode_request imm (NopOut q) = frame (puts
     [(0, [0x00 OR flag imm 0x40]), (1, [0x80]), (8, word_field 8 (no_lun q)),
      (16, word_field 4 (no_itt q)), (20, word_field 4 (no_ttt q)), (24, word_field 4 (no_cmd_sn q)),
      (28, word_field 4 (no_exp_stat_sn q))] (zeros BHS_LEN)) (no_data q)"
| "encode_request imm (Logout q) = frame (puts
     [(0, [0x06 OR flag imm 0x40]), (1, [0x80 OR lo_reason q]), (16, word_field 4 (lo_itt q)),
      (20, word_field 2 (lo_cid q)), (24, word_field 4 (lo_cmd_sn q)),
      (28, word_field 4 (lo_exp_stat_sn q))] (zeros BHS_LEN)) []"
| "encode_request imm (TaskMgmt q) = frame (puts
     [(0, [0x02 OR flag imm 0x40]), (1, [0x80 OR tm_function q]), (8, word_field 8 (tm_lun q)),
      (16, word_field 4 (tm_itt q)), (20, word_field 4 (tm_ref_task_tag q)),
      (24, word_field 4 (tm_cmd_sn q)), (28, word_field 4 (tm_exp_stat_sn q))] (zeros BHS_LEN)) []"
| "encode_request imm (Unsupported op itt) = frame (puts
     [(0, [op OR flag imm 0x40]), (16, word_field 4 itt)] (zeros BHS_LEN)) []"

text \<open>Field widths of RFC 7143 that the record types do not enforce.\<close>

primrec request_ok :: "request \<Rightarrow> bool" where
  "request_ok (Login q) \<longleftrightarrow> lq_csg q < 4 \<and> lq_nsg q < 4 \<and> length (lq_isid q) = 6 \<and>
     list_all text_pair_ok (lq_text q) \<and> length (encode_pairs (lq_text q)) \<le> MAX_DATA_SEGMENT"
| "request_ok (Text q) \<longleftrightarrow>
     list_all text_pair_ok (tq_text q) \<and> length (encode_pairs (tq_text q)) \<le> MAX_DATA_SEGMENT"
| "request_ok (ScsiCommand q) \<longleftrightarrow> sc_attr q < 8 \<and> length (sc_cdb q) = 16 \<and> length (sc_data q) \<le> MAX_DATA_SEGMENT"
| "request_ok (DataOut q) \<longleftrightarrow> length (do_data q) \<le> MAX_DATA_SEGMENT"
| "request_ok (NopOut q) \<longleftrightarrow> length (no_data q) \<le> MAX_DATA_SEGMENT"
| "request_ok (Logout q) \<longleftrightarrow> lo_reason q < 128"
| "request_ok (TaskMgmt q) \<longleftrightarrow> tm_function q < 128"
| "request_ok (Unsupported op itt) \<longleftrightarrow> 6 < op \<and> op < 64"

text \<open>What holds of every request that was decoded, whatever the bytes: how long its data can be.\<close>

primrec request_wf :: "request \<Rightarrow> bool" where
  "request_wf (Login q) \<longleftrightarrow> length (lq_isid q) = 6"
| "request_wf (Text q) \<longleftrightarrow> True"
| "request_wf (ScsiCommand q) \<longleftrightarrow> length (sc_cdb q) = 16 \<and> length (sc_data q) \<le> MAX_DATA_SEGMENT"
| "request_wf (DataOut q) \<longleftrightarrow> length (do_data q) \<le> MAX_DATA_SEGMENT"
| "request_wf (NopOut q) \<longleftrightarrow> length (no_data q) \<le> MAX_DATA_SEGMENT"
| "request_wf (Logout q) \<longleftrightarrow> True"
| "request_wf (TaskMgmt q) \<longleftrightarrow> True"
| "request_wf (Unsupported op itt) \<longleftrightarrow> True"

lemma request_ok_wf: "request_ok q \<Longrightarrow> request_wf q"
  by (cases q) simp_all

lemma decode_wf:
  assumes "decode buf = Inr (q, n)"
  shows "request_wf q"
proof -
  let ?len = "be24 (take 48 buf) 5"
  have "48 \<le> length buf \<and> ?len \<le> MAX_DATA_SEGMENT \<and> q = decode_request (take 48 buf) (window 48 ?len buf)"
    using assms by (auto simp: decode_def Let_def BHS_LEN_def split: if_splits)
  then show ?thesis
    by (auto simp: decode_request_def Let_def length_window)
qed

lemma length_word_field [simp]: "length (word_field n w) = n"
  by (simp add: word_field_def)

lemma be_val_word_field:
  fixes w :: "'a::len word"
  shows "LENGTH('a) = 8 * n \<Longrightarrow> be_val (word_field n w) = unat w"
proof -
  assume n: "LENGTH('a) = 8 * n"
  have "(256 :: nat) ^ n = 2 ^ LENGTH('a)" by (simp add: n power_mult)
  then show ?thesis
    using unsigned_less [of w, where ?'a = nat] by (simp add: word_field_def)
qed

lemma window_word_field [simp]: "window 0 n (word_field n w) = word_field n w"
  by (simp add: window_all')

lemma be32_puts: "puts_fit (length d) ps \<Longrightarrow> puts_clear off 4 ps \<Longrightarrow>
    be32 (puts ps d) off = of_nat (be_val (puts_field off 4 ps (window off 4 d)))"
  by (simp add: be32_def window_puts)

lemma be16_puts: "puts_fit (length d) ps \<Longrightarrow> puts_clear off 2 ps \<Longrightarrow>
    be16 (puts ps d) off = of_nat (be_val (puts_field off 2 ps (window off 2 d)))"
  by (simp add: be16_def window_puts)

lemma be64_puts: "puts_fit (length d) ps \<Longrightarrow> puts_clear off 8 ps \<Longrightarrow>
    be64 (puts ps d) off = of_nat (be_val (puts_field off 8 ps (window off 8 d)))"
  by (simp add: be64_def window_puts)

lemma nth_puts: "puts_fit (length d) ps \<Longrightarrow> i < length d \<Longrightarrow> puts_clear i 1 ps \<Longrightarrow>
    puts ps d ! i = hd (puts_field i 1 ps [d ! i])"
proof -
  assume a: "puts_fit (length d) ps" "i < length d" "puts_clear i 1 ps"
  have "[puts ps d ! i] = window i 1 (puts ps d)" using a length_puts [OF a(1)] by (simp only: window_1)
  also have "\<dots> = puts_field i 1 ps [d ! i]" using a window_puts [of 1 d ps i] by (simp add: window_1 del: One_nat_def)
  finally show ?thesis by (metis list.sel(1))
qed

lemma put_puts: "put off src (puts ps d) = puts (ps @ [(off, src)]) d"
  by (induction ps arbitrary: d) (simp_all add: puts.simps)

lemmas bhs_eval = nth_puts be16_puts be32_puts be64_puts window_puts length_puts put_puts
  puts_fit_def puts_clear_def puts_field_def be_val_word_field window_all' BHS_LEN_def

lemma decode_frame:
  assumes "length h = BHS_LEN" "h ! 4 = 0" "length data \<le> MAX_DATA_SEGMENT"
  shows "decode (frame h data @ rest) =
    Inr (decode_request (put 5 (be_bytes 3 (length data)) h) data, length (frame h data))"
proof -
  let ?h = "put 5 (be_bytes 3 (length data)) h"
  have len: "length ?h = 48" using assms(1) by (simp add: length_put BHS_LEN_def)
  have "be24 ?h 5 = length data"
    using assms(1,3) by (simp add: be24_def window_put_same' BHS_LEN_def MAX_DATA_SEGMENT_def)
  moreover have "?h ! 4 = 0" using assms(1,2) by (simp add: nth_put BHS_LEN_def)
  moreover have "window 48 (length data) (?h @ data @ zeros (pad4 (length data)) @ rest) = data"
    using len by (simp add: window_append2 window_append1 window_all')
  ultimately show ?thesis
    using len assms(3) by (simp add: decode_def frame_def BHS_LEN_def Let_def)
qed

lemma u8_lt_4: "(x :: u8) < 4 \<Longrightarrow> x = 0 \<or> x = 1 \<or> x = 2 \<or> x = 3"
proof -
  assume "x < 4"
  then have "unat x < 4" by (simp add: word_less_nat_alt)
  then have "unat x = 0 \<or> unat x = 1 \<or> unat x = 2 \<or> unat x = 3" by linarith
  then show ?thesis by (simp add: word_unat_eq_iff)
qed

lemma u8_lt_8: "(x :: u8) < 8 \<Longrightarrow> x = 0 \<or> x = 1 \<or> x = 2 \<or> x = 3 \<or> x = 4 \<or> x = 5 \<or> x = 6 \<or> x = 7"
proof -
  assume "x < 8"
  then have "unat x < 8" by (simp add: word_less_nat_alt)
  then have "unat x = 0 \<or> unat x = 1 \<or> unat x = 2 \<or> unat x = 3 \<or> unat x = 4 \<or> unat x = 5 \<or> unat x = 6 \<or> unat x = 7"
    by linarith
  then show ?thesis by (simp add: word_unat_eq_iff)
qed

lemma login_flags:
  assumes "c < 4" "n < 4"
  shows "has_bit (flag t 0x80 OR flag k 0x40 OR push_bit 2 c OR n) 0x80 = t"
    "has_bit (flag t 0x80 OR flag k 0x40 OR push_bit 2 c OR n) 0x40 = k"
    "drop_bit 2 (flag t 0x80 OR flag k 0x40 OR push_bit 2 c OR n) AND 3 = c"
    "(flag t 0x80 OR flag k 0x40 OR push_bit 2 c OR n) AND 3 = n"
    "(drop_bit 2 (flag t 0x80) OR drop_bit 2 (flag k 0x40) OR drop_bit 2 (push_bit 2 c) OR drop_bit 2 n) AND 3 = c"
  using u8_lt_4 [OF assms(1)] u8_lt_4 [OF assms(2)]
  by (elim disjE; cases t; cases k; simp add: flag_def has_bit_def)+

lemma command_flags:
  assumes "a < 8"
  shows "has_bit (flag f 0x80 OR flag r 0x40 OR flag w 0x20 OR a) 0x80 = f"
    "has_bit (flag f 0x80 OR flag r 0x40 OR flag w 0x20 OR a) 0x40 = r"
    "has_bit (flag f 0x80 OR flag r 0x40 OR flag w 0x20 OR a) 0x20 = w"
    "(flag f 0x80 OR flag r 0x40 OR flag w 0x20 OR a) AND 7 = a"
  using u8_lt_8 [OF assms] by (elim disjE; cases f; cases r; cases w; simp add: flag_def has_bit_def)+

lemma text_flags:
  "has_bit (flag f 0x80 OR flag c 0x40) 0x80 = f" "has_bit (flag f 0x80 OR flag c 0x40) 0x40 = c"
  "has_bit (flag f 0x80) 0x80 = f"
  by (cases f; cases c; simp add: flag_def has_bit_def)+

lemma opcode_flags:
  "(op OR flag imm 0x40) AND 0x3f = op AND 0x3f" "flag imm 0x40 AND 0x3f = 0"
  by (cases imm) (simp_all add: flag_def bit.conj_disj_distrib2)

lemmas request_eval = decode_frame bhs_eval decode_request_def opcode_flags

lemma low_7: "(x :: u8) < 128 \<Longrightarrow> (0x80 OR x) AND 0x7f = x"
proof -
  assume "x < 128"
  then have "take_bit 7 (unat x) = unat x"
    by (intro take_bit_nat_eq_self) (simp add: word_less_nat_alt)
  then have "x AND mask 7 = x"
    by (simp add: word_unat_eq_iff unsigned_take_bit_eq flip: take_bit_eq_mask)
  then show ?thesis by (simp add: bit.conj_disj_distrib2 mask_eq_exp_minus_1)
qed

lemma decode_encode_login: "request_ok (Login q) \<Longrightarrow>
    decode (encode_request imm (Login q) @ rest) = Inr (Login q, length (encode_request imm (Login q)))"
  by (simp add: request_eval login_flags parse_encode_pairs)

lemma decode_encode_text: "request_ok (Text q) \<Longrightarrow>
    decode (encode_request imm (Text q) @ rest) = Inr (Text q, length (encode_request imm (Text q)))"
  by (simp add: request_eval text_flags parse_encode_pairs)

lemma decode_encode_command: "request_ok (ScsiCommand q) \<Longrightarrow>
    decode (encode_request imm (ScsiCommand q) @ rest) =
      Inr (ScsiCommand q, length (encode_request imm (ScsiCommand q)))"
  by (simp add: request_eval command_flags)

lemma decode_encode_data_out: "request_ok (DataOut q) \<Longrightarrow>
    decode (encode_request imm (DataOut q) @ rest) = Inr (DataOut q, length (encode_request imm (DataOut q)))"
  by (simp add: request_eval text_flags)

lemma decode_encode_nop: "request_ok (NopOut q) \<Longrightarrow>
    decode (encode_request imm (NopOut q) @ rest) = Inr (NopOut q, length (encode_request imm (NopOut q)))"
  by (simp add: request_eval)

lemma decode_encode_logout: "request_ok (Logout q) \<Longrightarrow>
    decode (encode_request imm (Logout q) @ rest) = Inr (Logout q, length (encode_request imm (Logout q)))"
  by (simp add: request_eval low_7)

lemma decode_encode_task: "request_ok (TaskMgmt q) \<Longrightarrow>
    decode (encode_request imm (TaskMgmt q) @ rest) = Inr (TaskMgmt q, length (encode_request imm (TaskMgmt q)))"
  by (simp add: request_eval low_7)

lemma low_6: "(x :: u8) < 64 \<Longrightarrow> x AND 0x3f = x"
proof -
  assume "x < 64"
  then have "take_bit 6 (unat x) = unat x"
    by (intro take_bit_nat_eq_self) (simp add: word_less_nat_alt)
  then have "x AND mask 6 = x"
    by (simp add: word_unat_eq_iff unsigned_take_bit_eq flip: take_bit_eq_mask)
  then show ?thesis by (simp add: mask_eq_exp_minus_1)
qed

lemma decode_encode_unsupported: "request_ok (Unsupported op itt) \<Longrightarrow>
    decode (encode_request imm (Unsupported op itt) @ rest) =
      Inr (Unsupported op itt, length (encode_request imm (Unsupported op itt)))"
proof -
  assume ok: "request_ok (Unsupported op itt)"
  then have "op \<noteq> 0" "op \<noteq> 1" "op \<noteq> 2" "op \<noteq> 3" "op \<noteq> 4" "op \<noteq> 5" "op \<noteq> 6" by auto
  then show ?thesis using ok by (simp add: request_eval low_6)
qed

lemma decode_encode:
  "request_ok r \<Longrightarrow> decode (encode_request imm r @ rest) = Inr (r, length (encode_request imm r))"
  by (cases r) (simp_all only: decode_encode_login decode_encode_text decode_encode_command
      decode_encode_data_out decode_encode_nop decode_encode_logout decode_encode_task decode_encode_unsupported)

section \<open>Responses\<close>

record login_response =
  lr_transit :: bool
  lr_continue :: bool
  lr_csg :: u8
  lr_nsg :: u8
  lr_version_max :: u8
  lr_version_active :: u8
  lr_isid :: bytes
  lr_tsih :: u16
  lr_itt :: u32
  lr_stat_sn :: u32
  lr_exp_cmd_sn :: u32
  lr_max_cmd_sn :: u32
  lr_status_class :: u8
  lr_status_detail :: u8
  lr_text :: text_pairs

definition encode_login_response :: "login_response \<Rightarrow> bytes" where
  "encode_login_response r = frame (puts
     [(0, [0x23]),
      (1, [flag (lr_transit r) 0x80 OR flag (lr_continue r) 0x40 OR push_bit 2 (lr_csg r AND 3) OR (lr_nsg r AND 3)]),
      (2, [lr_version_max r]), (3, [lr_version_active r]), (8, lr_isid r), (14, word_field 2 (lr_tsih r)),
      (16, word_field 4 (lr_itt r)), (24, word_field 4 (lr_stat_sn r)),
      (28, word_field 4 (lr_exp_cmd_sn r)), (32, word_field 4 (lr_max_cmd_sn r)),
      (36, [lr_status_class r]), (37, [lr_status_detail r])] (zeros BHS_LEN)) (encode_pairs (lr_text r))"

record text_response =
  tr_final :: bool
  tr_continue :: bool
  tr_itt :: u32
  tr_ttt :: u32
  tr_stat_sn :: u32
  tr_exp_cmd_sn :: u32
  tr_max_cmd_sn :: u32
  tr_text :: text_pairs

definition encode_text_response :: "text_response \<Rightarrow> bytes" where
  "encode_text_response r = frame (puts
     [(0, [0x24]), (1, [flag (tr_final r) 0x80 OR flag (tr_continue r) 0x40]),
      (16, word_field 4 (tr_itt r)), (20, word_field 4 (tr_ttt r)), (24, word_field 4 (tr_stat_sn r)),
      (28, word_field 4 (tr_exp_cmd_sn r)), (32, word_field 4 (tr_max_cmd_sn r))]
     (zeros BHS_LEN)) (encode_pairs (tr_text r))"

record scsi_response =
  sr_response :: u8
  sr_status :: u8
  sr_itt :: u32
  sr_stat_sn :: u32
  sr_exp_cmd_sn :: u32
  sr_max_cmd_sn :: u32
  sr_residual :: u32
  sr_sense :: bytes

definition encode_scsi_response :: "scsi_response \<Rightarrow> bytes" where
  "encode_scsi_response r = frame (puts
     [(0, [0x21]), (1, [0x80]), (2, [sr_response r]), (3, [sr_status r]), (16, word_field 4 (sr_itt r)),
      (24, word_field 4 (sr_stat_sn r)), (28, word_field 4 (sr_exp_cmd_sn r)),
      (32, word_field 4 (sr_max_cmd_sn r)), (44, word_field 4 (sr_residual r))] (zeros BHS_LEN)) (sr_sense r)"

record scsi_data_in =
  di_final :: bool
  di_ack :: bool
  di_has_status :: bool
  di_status :: u8
  di_lun :: u64
  di_itt :: u32
  di_ttt :: u32
  di_stat_sn :: u32
  di_exp_cmd_sn :: u32
  di_max_cmd_sn :: u32
  di_data_sn :: u32
  di_buffer_offset :: u32
  di_data :: bytes

definition encode_data_in :: "scsi_data_in \<Rightarrow> bytes" where
  "encode_data_in r = frame (puts
     [(0, [0x25]),
      (1, [flag (di_final r) 0x80 OR flag (di_ack r) 0x40 OR flag (di_has_status r) 0x01]),
      (3, [di_status r]), (8, word_field 8 (di_lun r)), (16, word_field 4 (di_itt r)),
      (20, word_field 4 (di_ttt r)), (24, word_field 4 (di_stat_sn r)),
      (28, word_field 4 (di_exp_cmd_sn r)), (32, word_field 4 (di_max_cmd_sn r)),
      (36, word_field 4 (di_data_sn r)), (40, word_field 4 (di_buffer_offset r))]
     (zeros BHS_LEN)) (di_data r)"

record r2t =
  r2_lun :: u64
  r2_itt :: u32
  r2_ttt :: u32
  r2_stat_sn :: u32
  r2_exp_cmd_sn :: u32
  r2_max_cmd_sn :: u32
  r2_r2t_sn :: u32
  r2_buffer_offset :: u32
  r2_desired_length :: u32

definition encode_r2t :: "r2t \<Rightarrow> bytes" where
  "encode_r2t r = frame (puts
     [(0, [0x31]), (1, [0x80]), (8, word_field 8 (r2_lun r)), (16, word_field 4 (r2_itt r)),
      (20, word_field 4 (r2_ttt r)), (24, word_field 4 (r2_stat_sn r)),
      (28, word_field 4 (r2_exp_cmd_sn r)), (32, word_field 4 (r2_max_cmd_sn r)),
      (36, word_field 4 (r2_r2t_sn r)), (40, word_field 4 (r2_buffer_offset r)),
      (44, word_field 4 (r2_desired_length r))] (zeros BHS_LEN)) []"

record nop_in =
  ni_lun :: u64
  ni_itt :: u32
  ni_ttt :: u32
  ni_stat_sn :: u32
  ni_exp_cmd_sn :: u32
  ni_max_cmd_sn :: u32
  ni_data :: bytes

definition encode_nop_in :: "nop_in \<Rightarrow> bytes" where
  "encode_nop_in r = frame (puts
     [(0, [0x20]), (1, [0x80]), (8, word_field 8 (ni_lun r)), (16, word_field 4 (ni_itt r)),
      (20, word_field 4 (ni_ttt r)), (24, word_field 4 (ni_stat_sn r)),
      (28, word_field 4 (ni_exp_cmd_sn r)), (32, word_field 4 (ni_max_cmd_sn r))] (zeros BHS_LEN)) (ni_data r)"

record logout_response =
  or_response :: u8
  or_stat_sn :: u32
  or_exp_cmd_sn :: u32
  or_max_cmd_sn :: u32

definition encode_logout_response :: "logout_response \<Rightarrow> bytes" where
  "encode_logout_response r = frame (puts
     [(0, [0x26]), (1, [0x80]), (2, [or_response r]), (24, word_field 4 (or_stat_sn r)),
      (28, word_field 4 (or_exp_cmd_sn r)), (32, word_field 4 (or_max_cmd_sn r))] (zeros BHS_LEN)) []"

record task_mgmt_response =
  tmr_response :: u8
  tmr_itt :: u32
  tmr_stat_sn :: u32
  tmr_exp_cmd_sn :: u32
  tmr_max_cmd_sn :: u32

definition encode_task_mgmt_response :: "task_mgmt_response \<Rightarrow> bytes" where
  "encode_task_mgmt_response r = frame (puts
     [(0, [0x22]), (1, [0x80]), (2, [tmr_response r]), (16, word_field 4 (tmr_itt r)),
      (24, word_field 4 (tmr_stat_sn r)), (28, word_field 4 (tmr_exp_cmd_sn r)),
      (32, word_field 4 (tmr_max_cmd_sn r))] (zeros BHS_LEN)) []"

record reject =
  rj_reason :: u8
  rj_stat_sn :: u32
  rj_exp_cmd_sn :: u32
  rj_max_cmd_sn :: u32
  rj_header :: bytes

definition encode_reject :: "reject \<Rightarrow> bytes" where
  "encode_reject r = frame (puts
     [(0, [0x3f]), (1, [0x80]), (2, [rj_reason r]), (24, word_field 4 (rj_stat_sn r)),
      (28, word_field 4 (rj_exp_cmd_sn r)), (32, word_field 4 (rj_max_cmd_sn r))] (zeros BHS_LEN)) (rj_header r)"

end
