(* ===== verification/Scsi.thy ===== *)
theory Scsi
  imports Volume Iscsi_Pdu
begin

text \<open>
  SCSI command execution (\<open>iscsi/scsi/sense.rs\<close>, \<open>cdb.rs\<close>, \<open>mod.rs\<close>) against the volumes of a
  target. The code shares volumes behind \<open>&self\<close>; here a write returns the changed logical
  unit. Volume errors become CHECK CONDITION; a panic of the volume would unwind, so it stays an
  error of the result.
\<close>

section \<open>Sense data and outcomes\<close>

definition GOOD :: u8 where "GOOD = 0x00"
definition CHECK_CONDITION :: u8 where "CHECK_CONDITION = 0x02"
definition NO_SENSE :: u8 where "NO_SENSE = 0x00"
definition MEDIUM_ERROR :: u8 where "MEDIUM_ERROR = 0x03"
definition ILLEGAL_REQUEST :: u8 where "ILLEGAL_REQUEST = 0x05"
definition ASC_INVALID_OPCODE :: "u8 \<times> u8" where "ASC_INVALID_OPCODE = (0x20, 0)"
definition ASC_LBA_OUT_OF_RANGE :: "u8 \<times> u8" where "ASC_LBA_OUT_OF_RANGE = (0x21, 0)"
definition ASC_INVALID_FIELD_IN_CDB :: "u8 \<times> u8" where "ASC_INVALID_FIELD_IN_CDB = (0x24, 0)"
definition ASC_LUN_NOT_SUPPORTED :: "u8 \<times> u8" where "ASC_LUN_NOT_SUPPORTED = (0x25, 0)"
definition ASC_UNRECOVERED_READ_ERROR :: "u8 \<times> u8" where "ASC_UNRECOVERED_READ_ERROR = (0x11, 0)"
definition ASC_WRITE_ERROR :: "u8 \<times> u8" where "ASC_WRITE_ERROR = (0x0c, 0)"

definition fixed_sense :: "u8 \<Rightarrow> u8 \<Rightarrow> u8 \<Rightarrow> bytes" where
  "fixed_sense key asc ascq =
     puts [(0, [0x70]), (2, [key AND 0x0f]), (7, [10]), (12, [asc]), (13, [ascq])] (zeros 18)"

record scsi_outcome =
  oc_status :: u8
  oc_data :: bytes
  oc_sense :: bytes

definition outcome_ok :: scsi_outcome where
  "outcome_ok = \<lparr>oc_status = GOOD, oc_data = [], oc_sense = []\<rparr>"

definition outcome_good :: "bytes \<Rightarrow> scsi_outcome" where
  "outcome_good bs = \<lparr>oc_status = GOOD, oc_data = bs, oc_sense = []\<rparr>"

definition outcome_check :: "u8 \<Rightarrow> u8 \<times> u8 \<Rightarrow> scsi_outcome" where
  "outcome_check key code =
     \<lparr>oc_status = CHECK_CONDITION, oc_data = [], oc_sense = fixed_sense key (fst code) (snd code)\<rparr>"

lemma length_fixed_sense [simp]: "length (fixed_sense k a q) = 18"
  by (simp add: fixed_sense_def length_puts puts_fit_def)

lemma outcome_sel [simp]:
  "oc_status (outcome_good bs) = GOOD" "oc_data (outcome_good bs) = bs" "oc_sense (outcome_good bs) = []"
  "oc_status outcome_ok = GOOD" "oc_data outcome_ok = []" "oc_sense outcome_ok = []"
  "oc_status (outcome_check k c) = CHECK_CONDITION" "oc_data (outcome_check k c) = []"
  "oc_sense (outcome_check k c) = fixed_sense k (fst c) (snd c)"
  by (simp_all add: outcome_good_def outcome_ok_def outcome_check_def)

section \<open>Logical units\<close>

record logical_unit =
  lu_volume :: volume
  lu_block_size :: nat
  lu_vendor :: bytes
  lu_product :: bytes
  lu_revision :: bytes
  lu_serial :: rstr
  lu_removable :: bool

definition lu_new :: "volume \<Rightarrow> logical_unit" where
  "lu_new v = \<lparr>lu_volume = v, lu_block_size = 512, lu_vendor = ascii ''XBOOT   '',
     lu_product = ascii ''VDISK           '', lu_revision = ascii ''0001'',
     lu_serial = ascii ''XBOOT0000000001'', lu_removable = False\<rparr>"

definition with_block_size :: "nat \<Rightarrow> logical_unit \<Rightarrow> logical_unit" where
  "with_block_size bs lu = lu\<lparr>lu_block_size := bs\<rparr>"

definition with_serial :: "rstr \<Rightarrow> logical_unit \<Rightarrow> logical_unit" where
  "with_serial s lu = lu\<lparr>lu_serial := s\<rparr>"

definition total_blocks :: "logical_unit \<Rightarrow> nat io" where
  "total_blocks lu =
     (if lu_block_size lu = 0 then Inl Panicked else Inr (vol_size (lu_volume lu) div lu_block_size lu))"

definition standard_inquiry :: "logical_unit \<Rightarrow> bytes" where
  "standard_inquiry lu = puts
     [(0, [0]), (1, [if lu_removable lu then 0x80 else 0]), (2, [5]), (3, [2]), (4, [31]),
      (8, lu_vendor lu), (16, lu_product lu), (32, lu_revision lu)] (zeros 36)"

definition vpd_unit_serial :: "logical_unit \<Rightarrow> bytes" where
  "vpd_unit_serial lu =
     (let sn = lu_serial lu in
      puts [(0, [0]), (1, [0x80]), (3, [of_nat (length sn)]), (4, sn)] (zeros (4 + length sn)))"

definition vpd_device_id :: "logical_unit \<Rightarrow> bytes" where
  "vpd_device_id lu =
     (let ident = lu_vendor lu @ lu_product lu @ lu_serial lu;
          desc = puts [(0, [2]), (1, [1]), (3, [of_nat (length ident)])] (zeros 4) @ ident in
      puts [(0, [0]), (1, [0x83]), (2, be_bytes 2 (length desc))] (zeros 4) @ desc)"

definition vpd_supported_pages :: bytes where
  "vpd_supported_pages = [0x00, 0x00, 0x00, 0x03, 0x00, 0x80, 0x83]"

section \<open>Commands\<close>

definition lba32 :: "bytes \<Rightarrow> nat" where "lba32 cdb = be_val (window 2 4 cdb)"
definition len16 :: "bytes \<Rightarrow> nat" where "len16 cdb = be_val (window 7 2 cdb)"
definition lba64 :: "bytes \<Rightarrow> nat" where "lba64 cdb = be_val (window 2 8 cdb)"
definition len32_16 :: "bytes \<Rightarrow> nat" where "len32_16 cdb = be_val (window 10 4 cdb)"

definition request_sense :: scsi_outcome where
  "request_sense = outcome_good (fixed_sense NO_SENSE 0 0)"

definition caching_page :: bytes where
  "caching_page = puts [(0, [0x08]), (1, [0x12]), (2, [0x04])] (zeros 20)"

definition mode_sense :: "bytes \<Rightarrow> scsi_outcome" where
  "mode_sense cdb =
     (let ten = (cdb ! 0 = 0x5a);
          page_code = cdb ! 2 AND 0x3f;
          pages = (if page_code = 0x08 \<or> page_code = 0x3f then caching_page else []) in
      outcome_good
        (if ten then put 0 (be_bytes 2 (6 + length pages)) (zeros 8) @ pages
         else put 0 [of_nat (3 + length pages)] (zeros 4) @ pages))"

text \<open>An error of the volume is reported as MEDIUM ERROR; a panic is not an error value.\<close>

definition medium_error :: "u8 \<times> u8 \<Rightarrow> io_error \<Rightarrow> scsi_outcome io" where
  "medium_error code e =
     (if e = Panicked \<or> e = Diverged then Inl e else Inr (outcome_check MEDIUM_ERROR code))"

definition lba_in_range :: "nat \<Rightarrow> nat \<Rightarrow> nat \<Rightarrow> bool" where
  "lba_in_range n_blocks lba blocks =
     (case checked_add_u64 lba blocks of None \<Rightarrow> False | Some end_lba \<Rightarrow> end_lba \<le> n_blocks)"

definition scsi_write :: "logical_unit \<Rightarrow> nat \<Rightarrow> nat \<Rightarrow> bytes \<Rightarrow> logical_unit \<times> scsi_outcome io" where
  "scsi_write lu lba blocks write_data =
     (if blocks = 0 then (lu, Inr outcome_ok)
      else case total_blocks lu of Inl e \<Rightarrow> (lu, Inl e)
      | Inr n_blocks \<Rightarrow>
          if \<not> lba_in_range n_blocks lba blocks then
            (lu, Inr (outcome_check ILLEGAL_REQUEST ASC_LBA_OUT_OF_RANGE))
          else if length write_data \<noteq> blocks * lu_block_size lu then
            (lu, Inr (outcome_check ILLEGAL_REQUEST ASC_INVALID_FIELD_IN_CDB))
          else case vol_write_at (lu_volume lu) (lba * lu_block_size lu) write_data of
              (v, Inr _) \<Rightarrow> (lu\<lparr>lu_volume := v\<rparr>, Inr outcome_ok)
            | (v, Inl e) \<Rightarrow> (lu\<lparr>lu_volume := v\<rparr>, medium_error ASC_WRITE_ERROR e))"

definition scsi_read :: "logical_unit \<Rightarrow> nat \<Rightarrow> nat \<Rightarrow> scsi_outcome io" where
  "scsi_read lu lba blocks =
     (if blocks = 0 then Inr outcome_ok
      else case total_blocks lu of Inl e \<Rightarrow> Inl e
      | Inr n_blocks \<Rightarrow>
          if \<not> lba_in_range n_blocks lba blocks then
            Inr (outcome_check ILLEGAL_REQUEST ASC_LBA_OUT_OF_RANGE)
          else case vol_read_at (lu_volume lu) (lba * lu_block_size lu) (blocks * lu_block_size lu) of
              Inr bs \<Rightarrow> Inr (outcome_good bs)
            | Inl e \<Rightarrow> medium_error ASC_UNRECOVERED_READ_ERROR e)"

definition read_capacity_10 :: "logical_unit \<Rightarrow> scsi_outcome io" where
  "read_capacity_10 lu =
     (case total_blocks lu of Inl e \<Rightarrow> Inl e
      | Inr n_blocks \<Rightarrow>
          let last_lba = n_blocks - 1;
              returned = (if u32_max < last_lba then u32_max else last_lba) in
          Inr (outcome_good (puts [(0, be_bytes 4 returned), (4, be_bytes 4 (lu_block_size lu))] (zeros 8))))"

definition read_capacity_16 :: "logical_unit \<Rightarrow> scsi_outcome io" where
  "read_capacity_16 lu =
     (case total_blocks lu of Inl e \<Rightarrow> Inl e
      | Inr n_blocks \<Rightarrow>
          Inr (outcome_good (puts [(0, be_bytes 8 (n_blocks - 1)), (8, be_bytes 4 (lu_block_size lu))] (zeros 32))))"

definition inquiry :: "logical_unit \<Rightarrow> bytes \<Rightarrow> scsi_outcome" where
  "inquiry lu cdb =
     (let evpd = has_bit (cdb ! 1) 0x01; page = cdb ! 2 in
      if \<not> evpd then
        (if page \<noteq> 0 then outcome_check ILLEGAL_REQUEST ASC_INVALID_FIELD_IN_CDB
         else outcome_good (standard_inquiry lu))
      else if page = 0x00 then outcome_good vpd_supported_pages
      else if page = 0x80 then outcome_good (vpd_unit_serial lu)
      else if page = 0x83 then outcome_good (vpd_device_id lu)
      else outcome_check ILLEGAL_REQUEST ASC_INVALID_FIELD_IN_CDB)"

definition dispatch :: "logical_unit \<Rightarrow> bytes \<Rightarrow> bytes \<Rightarrow> logical_unit \<times> scsi_outcome io" where
  "dispatch lu cdb write_data =
     (let op = cdb ! 0 in
      if op = 0x00 then (lu, Inr outcome_ok)
      else if op = 0x12 then (lu, Inr (inquiry lu cdb))
      else if op = 0x25 then (lu, read_capacity_10 lu)
      else if op = 0x9e \<and> cdb ! 1 AND 0x1f = 0x10 then (lu, read_capacity_16 lu)
      else if op = 0x28 then (lu, scsi_read lu (lba32 cdb) (len16 cdb))
      else if op = 0x88 then (lu, scsi_read lu (lba64 cdb) (len32_16 cdb))
      else if op = 0x2a then scsi_write lu (lba32 cdb) (len16 cdb) write_data
      else if op = 0x8a then scsi_write lu (lba64 cdb) (len32_16 cdb) write_data
      else if op = 0x35 \<or> op = 0x91 then (lu, Inr outcome_ok)
      else if op = 0x1e \<or> op = 0x1b then (lu, Inr outcome_ok)
      else if op = 0x03 then (lu, Inr request_sense)
      else if op = 0x1a \<or> op = 0x5a then (lu, Inr (mode_sense cdb))
      else (lu, Inr (outcome_check ILLEGAL_REQUEST ASC_INVALID_OPCODE)))"

section \<open>Targets\<close>

record scsi_target =
  st_luns :: "logical_unit option list"

definition lun_number :: "u64 \<Rightarrow> nat option" where
  "lun_number lun =
     (if drop_bit 56 lun \<noteq> 0 then None else Some (unat (drop_bit 48 lun AND 0xff)))"

definition report_luns :: "scsi_target \<Rightarrow> scsi_outcome" where
  "report_luns t =
     (let present = [i \<leftarrow> [0..<length (st_luns t)]. st_luns t ! i \<noteq> None] in
      outcome_good (put 0 (be_bytes 4 (length present * 8)) (zeros 8)
        @ concat (map (\<lambda>n. put 1 [of_nat n] (zeros 8)) present)))"

definition lun_at :: "scsi_target \<Rightarrow> u64 \<Rightarrow> (nat \<times> logical_unit) option" where
  "lun_at t lun =
     (case lun_number lun of None \<Rightarrow> None
      | Some n \<Rightarrow>
          if n < length (st_luns t) then map_option (Pair n) (st_luns t ! n) else None)"

definition execute :: "scsi_target \<Rightarrow> scsi_command \<Rightarrow> bytes \<Rightarrow> scsi_target \<times> scsi_outcome io" where
  "execute t cmd write_data =
     (case lun_at t (sc_lun cmd) of
        None \<Rightarrow> (t, Inr (outcome_check ILLEGAL_REQUEST ASC_LUN_NOT_SUPPORTED))
      | Some (n, lu) \<Rightarrow>
          if sc_cdb cmd ! 0 = 0xa0 then (t, Inr (report_luns t))
          else
            let (lu', outcome) = dispatch lu (sc_cdb cmd) write_data in
            (t\<lparr>st_luns := (st_luns t)[n := Some lu']\<rparr>, outcome))"

section \<open>The invariant of a target\<close>

definition lu_inv :: "logical_unit \<Rightarrow> bool" where
  "lu_inv lu \<longleftrightarrow> vol_inv (lu_volume lu) \<and> 0 < lu_block_size lu \<and> lu_block_size lu < 2 ^ 32"

definition target_inv :: "scsi_target \<Rightarrow> bool" where
  "target_inv t \<longleftrightarrow> (\<forall>lu. Some lu \<in> set (st_luns t) \<longrightarrow> lu_inv lu)"

definition lu_capacity :: "logical_unit \<Rightarrow> nat" where
  "lu_capacity lu = vol_size (lu_volume lu) div lu_block_size lu"

definition lu_bytes :: "logical_unit \<Rightarrow> bytes" where
  "lu_bytes lu = vol_bytes (lu_volume lu)"

lemma lu_inv_new: "vol_inv v \<Longrightarrow> lu_inv (lu_new v)"
  by (simp add: lu_inv_def lu_new_def)

lemma total_blocks_inv: "lu_inv lu \<Longrightarrow> total_blocks lu = Inr (lu_capacity lu)"
  by (simp add: total_blocks_def lu_inv_def lu_capacity_def)

lemma capacity_lim: "lu_inv lu \<Longrightarrow> lu_capacity lu < u64_lim"
  unfolding lu_inv_def vol_inv_def lu_capacity_def
  using div_le_dividend order.strict_trans1 by blast

lemma lba_in_range_iff: "n < u64_lim \<Longrightarrow> lba_in_range n lba blocks \<longleftrightarrow> lba + blocks \<le> n"
  by (auto simp: lba_in_range_def checked_add_u64_def)

text \<open>Blocks inside the capacity are bytes inside the volume.\<close>

lemma capacity_bytes:
  "lba + blocks \<le> lu_capacity lu \<Longrightarrow>
    lba * lu_block_size lu + blocks * lu_block_size lu \<le> vol_size (lu_volume lu)"
proof -
  assume "lba + blocks \<le> lu_capacity lu"
  then have "(lba + blocks) * lu_block_size lu \<le> lu_capacity lu * lu_block_size lu" by (rule mult_le_mono1)
  also have "\<dots> \<le> vol_size (lu_volume lu)"
    unfolding lu_capacity_def by (rule div_times_less_eq_dividend)
  finally show ?thesis by (simp add: distrib_right)
qed

lemma scsi_read_ok:
  assumes "lu_inv lu" "0 < blocks" "lba + blocks \<le> lu_capacity lu"
  shows "scsi_read lu lba blocks = Inr (outcome_good
    (window (lba * lu_block_size lu) (blocks * lu_block_size lu) (lu_bytes lu)))"
  using assms capacity_bytes [OF assms(3)] vol.read_in_range [of "lu_volume lu"]
  by (simp add: scsi_read_def total_blocks_inv lba_in_range_iff capacity_lim lu_bytes_def lu_inv_def)

lemma scsi_read_err:
  "lu_inv lu \<Longrightarrow> 0 < blocks \<Longrightarrow> lu_capacity lu < lba + blocks \<Longrightarrow>
    scsi_read lu lba blocks = Inr (outcome_check ILLEGAL_REQUEST ASC_LBA_OUT_OF_RANGE)"
  by (simp add: scsi_read_def total_blocks_inv lba_in_range_iff capacity_lim)

lemma scsi_read_zero: "scsi_read lu lba 0 = Inr outcome_ok"
  by (simp add: scsi_read_def)

lemma scsi_write_ok:
  assumes "lu_inv lu" "0 < blocks" "lba + blocks \<le> lu_capacity lu"
    and "length buf = blocks * lu_block_size lu"
  shows "\<exists>v. scsi_write lu lba blocks buf = (lu\<lparr>lu_volume := v\<rparr>, Inr outcome_ok) \<and> vol_inv v \<and>
    vol_size v = vol_size (lu_volume lu) \<and> vol_bytes v = put (lba * lu_block_size lu) buf (lu_bytes lu)"
proof -
  have "vol_inv (lu_volume lu)" using assms(1) by (simp add: lu_inv_def)
  then show ?thesis
  proof (rule vol.write_cases [of _ "lba * lu_block_size lu" buf])
    fix v assume "vol_write_at (lu_volume lu) (lba * lu_block_size lu) buf = (v, Inr ())" "vol_inv v"
      "vol_bytes v = put (lba * lu_block_size lu) buf (vol_bytes (lu_volume lu))"
      "vol_size v = vol_size (lu_volume lu)"
    with assms show ?thesis
      by (intro exI [of _ v]) (simp add: scsi_write_def total_blocks_inv lba_in_range_iff capacity_lim lu_bytes_def)
  next
    assume "vol_size (lu_volume lu) < lba * lu_block_size lu + length buf"
    then show ?thesis using capacity_bytes [OF assms(3)] assms(4) by simp
  qed
qed

lemma scsi_write_range:
  "lu_inv lu \<Longrightarrow> 0 < blocks \<Longrightarrow> lu_capacity lu < lba + blocks \<Longrightarrow>
    scsi_write lu lba blocks buf = (lu, Inr (outcome_check ILLEGAL_REQUEST ASC_LBA_OUT_OF_RANGE))"
  by (simp add: scsi_write_def total_blocks_inv lba_in_range_iff capacity_lim)

lemma scsi_write_length:
  "lu_inv lu \<Longrightarrow> 0 < blocks \<Longrightarrow> lba + blocks \<le> lu_capacity lu \<Longrightarrow> length buf \<noteq> blocks * lu_block_size lu \<Longrightarrow>
    scsi_write lu lba blocks buf = (lu, Inr (outcome_check ILLEGAL_REQUEST ASC_INVALID_FIELD_IN_CDB))"
  by (simp add: scsi_write_def total_blocks_inv lba_in_range_iff capacity_lim)

lemma scsi_write_zero: "scsi_write lu lba 0 buf = (lu, Inr outcome_ok)"
  by (simp add: scsi_write_def)

text \<open>
  What a command may do to a logical unit: nothing but replace the volume by one of the same
  size that still satisfies its invariant, and only for a WRITE.
\<close>

definition lu_step :: "logical_unit \<Rightarrow> logical_unit \<Rightarrow> bool" where
  "lu_step lu lu' \<longleftrightarrow> lu_inv lu' \<and> vol_size (lu_volume lu') = vol_size (lu_volume lu) \<and>
     (\<exists>v. lu' = lu\<lparr>lu_volume := v\<rparr>)"

lemma lu_step_refl: "lu_inv lu \<Longrightarrow> lu_step lu lu"
  by (auto simp: lu_step_def intro: exI [of _ "lu_volume lu"])

lemma lu_step_capacity: "lu_step lu lu' \<Longrightarrow> lu_capacity lu' = lu_capacity lu \<and> lu_block_size lu' = lu_block_size lu"
  by (auto simp: lu_step_def lu_capacity_def)

lemma scsi_read_cases:
  assumes "lu_inv lu"
  obtains bs where "scsi_read lu lba blocks = Inr (outcome_good bs)" "length bs = blocks * lu_block_size lu"
    | k c where "scsi_read lu lba blocks = Inr (outcome_check k c)"
proof -
  consider "blocks = 0" | "0 < blocks" "lba + blocks \<le> lu_capacity lu" | "0 < blocks" "lu_capacity lu < lba + blocks"
    by linarith
  then show ?thesis
  proof cases
    case 1
    then show ?thesis
      using that(1) [of "[]"] by (simp add: scsi_read_zero outcome_ok_def outcome_good_def)
  next
    case 2
    then show ?thesis
      using scsi_read_ok [OF assms 2] capacity_bytes [OF 2(2)]
      by (intro that(1)) (auto simp: length_window lu_bytes_def)
  next
    case 3
    then show ?thesis using scsi_read_err [OF assms 3] that(2) by blast
  qed
qed

lemma scsi_write_cases:
  assumes "lu_inv lu"
  shows "\<exists>lu' oc. scsi_write lu lba blocks buf = (lu', Inr oc) \<and> lu_step lu lu' \<and> oc_data oc = []"
proof -
  consider "blocks = 0" | "0 < blocks" "lu_capacity lu < lba + blocks"
    | "0 < blocks" "lba + blocks \<le> lu_capacity lu" "length buf \<noteq> blocks * lu_block_size lu"
    | "0 < blocks" "lba + blocks \<le> lu_capacity lu" "length buf = blocks * lu_block_size lu"
    by linarith
  then show ?thesis
  proof cases
    case 4
    with scsi_write_ok [OF assms 4] assms show ?thesis by (auto simp: lu_step_def lu_inv_def)
  qed (simp_all add: scsi_write_zero scsi_write_range scsi_write_length assms lu_step_refl)
qed

lemma dispatch_step:
  assumes "lu_inv lu"
  shows "\<exists>lu' oc. dispatch lu cdb buf = (lu', Inr oc) \<and> lu_step lu lu'"
proof -
  have rd: "\<exists>oc. scsi_read lu lba blocks = Inr oc" for lba blocks
    by (rule scsi_read_cases [OF assms, of lba blocks]) auto
  show ?thesis
    using scsi_write_cases [OF assms, of "lba32 cdb" "len16 cdb" buf]
      scsi_write_cases [OF assms, of "lba64 cdb" "len32_16 cdb" buf]
      rd [of "lba32 cdb" "len16 cdb"] rd [of "lba64 cdb" "len32_16 cdb"]
      lu_step_refl [OF assms]
    by (auto simp: dispatch_def Let_def read_capacity_10_def read_capacity_16_def
        total_blocks_inv [OF assms] simp del: One_nat_def)
qed

definition is_write_op :: "u8 \<Rightarrow> bool" where
  "is_write_op op \<longleftrightarrow> op = 0x2a \<or> op = 0x8a"

lemma dispatch_pure: "\<not> is_write_op (cdb ! 0) \<Longrightarrow> fst (dispatch lu cdb buf) = lu"
  by (simp add: dispatch_def Let_def is_write_op_def)

section \<open>Targets: preservation and isolation\<close>

lemma lun_at_Some:
  "lun_at t lun = Some (n, lu) \<longleftrightarrow> lun_number lun = Some n \<and> n < length (st_luns t) \<and> st_luns t ! n = Some lu"
  by (auto simp: lun_at_def split: option.splits)

lemma target_inv_lun: "target_inv t \<Longrightarrow> lun_at t lun = Some (n, lu) \<Longrightarrow> lu_inv lu"
  by (metis lun_at_Some nth_mem target_inv_def)

text \<open>A command changes at most the logical unit it addresses.\<close>

definition target_step :: "nat \<Rightarrow> scsi_target \<Rightarrow> scsi_target \<Rightarrow> bool" where
  "target_step n t t' \<longleftrightarrow> length (st_luns t') = length (st_luns t) \<and>
     (\<forall>m. m \<noteq> n \<longrightarrow> st_luns t' ! m = st_luns t ! m) \<and>
     (\<forall>lu. n < length (st_luns t) \<longrightarrow> st_luns t ! n = Some lu \<longrightarrow>
        (\<exists>lu'. st_luns t' ! n = Some lu' \<and> lu_step lu lu')) \<and>
     (st_luns t ! n = None \<longrightarrow> st_luns t' ! n = None)"

lemma target_step_refl: "target_inv t \<Longrightarrow> target_step n t t"
  by (auto simp: target_step_def intro!: lu_step_refl) (metis nth_mem target_inv_def)

lemma execute_step:
  assumes "target_inv t"
  shows "\<exists>t' oc. execute t cmd buf = (t', Inr oc) \<and> target_inv t' \<and>
    (case lun_at t (sc_lun cmd) of None \<Rightarrow> t' = t | Some (n, lu) \<Rightarrow> target_step n t t')"
proof (cases "lun_at t (sc_lun cmd)")
  case None
  then show ?thesis using assms target_step_refl by (auto simp: execute_def)
next
  case (Some p)
  then obtain n lu where at: "lun_at t (sc_lun cmd) = Some (n, lu)" by (cases p) auto
  then have n: "lun_number (sc_lun cmd) = Some n" "n < length (st_luns t)" "st_luns t ! n = Some lu"
    by (simp_all add: lun_at_Some)
  obtain lu' oc where d: "dispatch lu (sc_cdb cmd) buf = (lu', Inr oc)" "lu_step lu lu'"
    using dispatch_step [OF target_inv_lun [OF assms at]] by blast
  let ?t = "t\<lparr>st_luns := (st_luns t)[n := Some lu']\<rparr>"
  have "target_inv ?t"
    using assms d(2) set_update_subset_insert [of "st_luns t" n "Some lu'"]
    by (auto simp: target_inv_def lu_step_def)
  moreover have "target_step n t ?t" using n d(2) by (auto simp: target_step_def)
  ultimately show ?thesis
    using at n d assms target_step_refl [OF assms] by (auto simp: execute_def)
qed

lemma execute_inv: "target_inv t \<Longrightarrow> target_inv (fst (execute t cmd buf))"
  using execute_step [of t cmd buf] by auto

lemma execute_defined: "target_inv t \<Longrightarrow> \<exists>oc. snd (execute t cmd buf) = Inr oc"
  using execute_step [of t cmd buf] by auto

text \<open>READ CAPACITY reports the last block that READ accepts.\<close>

lemma read_capacity_16_data:
  assumes "lu_inv lu"
  shows "\<exists>bs. read_capacity_16 lu = Inr (outcome_good bs) \<and> length bs = 32 \<and>
    be_val (window 0 8 bs) = lu_capacity lu - 1 \<and> be_val (window 8 4 bs) = lu_block_size lu"
proof -
  have "lu_capacity lu - 1 < 256 ^ 8" using capacity_lim [OF assms] by (simp add: u64_lim_def)
  moreover have "lu_block_size lu < 256 ^ 4" using assms by (simp add: lu_inv_def)
  ultimately show ?thesis
    unfolding read_capacity_16_def total_blocks_inv [OF assms] sum.case
    by - (intro exI conjI, rule refl,
      simp_all add: length_puts puts_fit_def window_puts puts_clear_def puts_field_def window_all')
qed

lemma read_capacity_10_data:
  assumes "lu_inv lu"
  shows "\<exists>bs. read_capacity_10 lu = Inr (outcome_good bs) \<and> length bs = 8 \<and>
    be_val (window 0 4 bs) = min u32_max (lu_capacity lu - 1) \<and> be_val (window 4 4 bs) = lu_block_size lu"
proof -
  have "min u32_max (lu_capacity lu - 1) < 256 ^ 4" by (simp add: u32_max_def)
  moreover have "lu_block_size lu < 256 ^ 4" using assms by (simp add: lu_inv_def)
  moreover have ret: "(if u32_max < lu_capacity lu - 1 then u32_max else lu_capacity lu - 1)
      = min u32_max (lu_capacity lu - 1)" by (simp add: min_def)
  ultimately show ?thesis
    unfolding read_capacity_10_def total_blocks_inv [OF assms] sum.case Let_def ret
    by - (intro exI conjI, rule refl,
      simp_all add: length_puts puts_fit_def window_puts puts_clear_def puts_field_def window_all')
qed

lemma capacity_readable:
  "lu_inv lu \<Longrightarrow> 0 < lu_capacity lu \<Longrightarrow>
    (\<exists>bs. scsi_read lu lba 1 = Inr (outcome_good bs)) \<longleftrightarrow> lba \<le> lu_capacity lu - 1"
  using scsi_read_ok [of lu 1 lba] scsi_read_err [of lu 1 lba]
  by (cases "lba + 1 \<le> lu_capacity lu") (auto simp: outcome_good_def outcome_check_def GOOD_def CHECK_CONDITION_def)

end
