(* ===== verification/Session.thy ===== *)
theory Session
  imports Scsi "HOL-Library.AList"
begin

text \<open>
  The iSCSI session layer (\<open>iscsi/registry.rs\<close>, \<open>iscsi/session/params.rs\<close>, \<open>login.rs\<close>,
  \<open>mod.rs\<close>): one connection as a state machine over decoded requests. Targets are shared
  behind \<open>Arc\<close>: a connection keeps the target it resolved at login even when the registry
  entry is replaced later, so targets live in a heap and the registry maps names to heap
  indices. \<open>handle\<close> returns the changed world, the changed connection and the PDUs to send, or
  the panic that ends the connection task.
\<close>

section \<open>The registry\<close>

record registry =
  reg_heap :: "scsi_target list"
  reg_targets :: "(rstr \<times> nat) list"

definition registry_new :: registry where
  "registry_new = \<lparr>reg_heap = [], reg_targets = []\<rparr>"

definition registry_insert :: "rstr \<Rightarrow> scsi_target \<Rightarrow> registry \<Rightarrow> registry" where
  "registry_insert iqn t r =
     \<lparr>reg_heap = reg_heap r @ [t], reg_targets = AList.update iqn (length (reg_heap r)) (reg_targets r)\<rparr>"

definition registry_get :: "registry \<Rightarrow> rstr \<Rightarrow> nat option" where
  "registry_get r iqn = map_of (reg_targets r) iqn"

text \<open>The iteration order of the hash map is unspecified; only the set of names is used below.\<close>

definition registry_iqns :: "registry \<Rightarrow> rstr list" where
  "registry_iqns r = map fst (reg_targets r)"

definition registry_inv :: "registry \<Rightarrow> bool" where
  "registry_inv r \<longleftrightarrow> list_all target_inv (reg_heap r) \<and> distinct (map fst (reg_targets r)) \<and>
     (\<forall>(iqn, i) \<in> set (reg_targets r). i < length (reg_heap r))"

lemma registry_inv_new: "registry_inv registry_new"
  by (simp add: registry_inv_def registry_new_def)

lemma registry_get_insert:
  "registry_get (registry_insert iqn t r) iqn' =
     (if iqn' = iqn then Some (length (reg_heap r)) else registry_get r iqn')"
  by (simp add: registry_get_def registry_insert_def update_conv)

lemma registry_heap_insert:
  "reg_heap (registry_insert iqn t r) ! length (reg_heap r) = t"
  "i < length (reg_heap r) \<Longrightarrow> reg_heap (registry_insert iqn t r) ! i = reg_heap r ! i"
  by (simp_all add: registry_insert_def nth_append)

lemma registry_inv_insert: "registry_inv r \<Longrightarrow> target_inv t \<Longrightarrow> registry_inv (registry_insert iqn t r)"
proof -
  assume r: "registry_inv r" and t: "target_inv t"
  have "i < Suc (length (reg_heap r))"
    if "(n, i) \<in> set (AList.update iqn (length (reg_heap r)) (reg_targets r))" for n i
  proof -
    have "distinct (map fst (AList.update iqn (length (reg_heap r)) (reg_targets r)))"
      using r by (simp add: registry_inv_def distinct_update)
    then have "map_of (AList.update iqn (length (reg_heap r)) (reg_targets r)) n = Some i"
      using that by simp
    then show ?thesis
      using r by (auto simp: update_conv registry_inv_def split: if_splits dest!: map_of_SomeD)
  qed
  then show ?thesis
    using r t by (auto simp: registry_inv_def registry_insert_def distinct_update)
qed

lemma registry_inv_get: "registry_inv r \<Longrightarrow> registry_get r iqn = Some i \<Longrightarrow> i < length (reg_heap r)"
  by (auto simp: registry_inv_def registry_get_def dest!: map_of_SomeD)

section \<open>Negotiated parameters\<close>

record session_params =
  sp_max_recv :: nat
  sp_first_burst :: nat
  sp_max_burst :: nat
  sp_immediate_data :: bool
  sp_initial_r2t :: bool

definition params_default :: session_params where
  "params_default = \<lparr>sp_max_recv = 8192, sp_first_burst = 65536, sp_max_burst = 262144,
     sp_immediate_data = True, sp_initial_r2t = True\<rparr>"

definition negotiate :: "rstr \<times> rstr \<Rightarrow> session_params \<Rightarrow> session_params" where
  "negotiate kv p =
     (let key = fst kv; v = snd kv in
      if key = ascii ''MaxRecvDataSegmentLength'' then
        (case parse_uint (2 ^ 32) v of None \<Rightarrow> p | Some n \<Rightarrow> p\<lparr>sp_max_recv := n\<rparr>)
      else if key = ascii ''FirstBurstLength'' then
        (case parse_uint (2 ^ 32) v of None \<Rightarrow> p | Some n \<Rightarrow> p\<lparr>sp_first_burst := min (sp_first_burst p) n\<rparr>)
      else if key = ascii ''MaxBurstLength'' then
        (case parse_uint (2 ^ 32) v of None \<Rightarrow> p | Some n \<Rightarrow> p\<lparr>sp_max_burst := min (sp_max_burst p) n\<rparr>)
      else if key = ascii ''ImmediateData'' then
        p\<lparr>sp_immediate_data := sp_immediate_data p \<and> eq_ignore_ascii_case v (ascii ''Yes'')\<rparr>
      else if key = ascii ''InitialR2T'' then
        p\<lparr>sp_initial_r2t := sp_initial_r2t p \<and> eq_ignore_ascii_case v (ascii ''Yes'')\<rparr>
      else p)"

definition params_ok :: "session_params \<Rightarrow> bool" where
  "params_ok p \<longleftrightarrow> sp_max_recv p < 2 ^ 32 \<and> sp_first_burst p \<le> 65536 \<and> sp_max_burst p \<le> 262144"

lemma params_ok_default: "params_ok params_default"
  by (simp add: params_ok_def params_default_def)

lemma params_ok_negotiate: "params_ok p \<Longrightarrow> params_ok (negotiate kv p)"
  by (auto simp: params_ok_def negotiate_def Let_def min_le_iff_disj dest: parse_uint_bound split: option.splits)

text \<open>No offer loosens a limit: sizes only shrink, the flags only go from yes to no.\<close>

lemma negotiate_tightens:
  "sp_first_burst (negotiate kv p) \<le> sp_first_burst p \<and> sp_max_burst (negotiate kv p) \<le> sp_max_burst p \<and>
    (sp_immediate_data (negotiate kv p) \<longrightarrow> sp_immediate_data p) \<and>
    (sp_initial_r2t (negotiate kv p) \<longrightarrow> sp_initial_r2t p)"
  by (auto simp: negotiate_def Let_def split: option.splits)

section \<open>Connections\<close>

datatype stage = LoginStage | FullFeature | Closing

datatype outbound =
    LoginOut login_response
  | ScsiRespOut scsi_response
  | DataInOut scsi_data_in
  | R2tOut r2t
  | NopInOut nop_in
  | TextOut text_response
  | LogoutOut logout_response
  | TaskMgmtOut task_mgmt_response
  | RejectOut reject

primrec encode_outbound :: "outbound \<Rightarrow> bytes" where
  "encode_outbound (LoginOut p) = encode_login_response p"
| "encode_outbound (ScsiRespOut p) = encode_scsi_response p"
| "encode_outbound (DataInOut p) = encode_data_in p"
| "encode_outbound (R2tOut p) = encode_r2t p"
| "encode_outbound (NopInOut p) = encode_nop_in p"
| "encode_outbound (TextOut p) = encode_text_response p"
| "encode_outbound (LogoutOut p) = encode_logout_response p"
| "encode_outbound (TaskMgmtOut p) = encode_task_mgmt_response p"
| "encode_outbound (RejectOut p) = encode_reject p"

text \<open>Counters that the code adds to with \<open>+=\<close> are \<open>nat\<close> with the overflow panic written out.\<close>

record pending_write =
  pw_cmd :: scsi_command
  pw_buf :: bytes
  pw_received :: nat
  pw_r2t_sn :: nat

record connection =
  cn_stage :: stage
  cn_params :: session_params
  cn_target :: "nat option"
  cn_stat_sn :: u32
  cn_exp_cmd_sn :: u32
  cn_in_flight :: "u32 \<Rightarrow> pending_write option"

definition connection_new :: connection where
  "connection_new = \<lparr>cn_stage = LoginStage, cn_params = params_default, cn_target = None,
     cn_stat_sn = 0, cn_exp_cmd_sn = 0, cn_in_flight = (\<lambda>_. None)\<rparr>"

definition QUEUE_DEPTH :: u32 where
  "QUEUE_DEPTH = 16"

definition max_cmd_sn :: "connection \<Rightarrow> u32" where
  "max_cmd_sn c = cn_exp_cmd_sn c + QUEUE_DEPTH"

definition bump_stat_sn :: "connection \<Rightarrow> connection" where
  "bump_stat_sn c = c\<lparr>cn_stat_sn := cn_stat_sn c + 1\<rparr>"

type_synonym handled = "(registry \<times> connection \<times> outbound list) io"

definition PROTOCOL_ERROR :: u8 where "PROTOCOL_ERROR = 0x04"
definition COMMAND_NOT_SUPPORTED :: u8 where "COMMAND_NOT_SUPPORTED = 0x05"

text \<open>\<open>header.resize(48, 0)\<close> truncates or zero-fills the echoed header.\<close>

definition resize :: "nat \<Rightarrow> bytes \<Rightarrow> bytes" where
  "resize n bs = take n bs @ zeros (n - length bs)"

definition reject_pdu :: "connection \<Rightarrow> u8 \<Rightarrow> bytes \<Rightarrow> connection \<times> outbound" where
  "reject_pdu c reason bhs =
     (bump_stat_sn c, RejectOut \<lparr>rj_reason = reason, rj_stat_sn = cn_stat_sn c,
        rj_exp_cmd_sn = cn_exp_cmd_sn c, rj_max_cmd_sn = max_cmd_sn c, rj_header = resize BHS_LEN bhs\<rparr>)"

definition rejected :: "registry \<Rightarrow> connection \<Rightarrow> u8 \<Rightarrow> bytes \<Rightarrow> handled" where
  "rejected r c reason bhs = (let (c', out) = reject_pdu c reason bhs in Inr (r, c', [out]))"

definition handle_nop :: "registry \<Rightarrow> connection \<Rightarrow> nop_out \<Rightarrow> handled" where
  "handle_nop r c n = Inr (r, c, [NopInOut \<lparr>ni_lun = no_lun n, ni_itt = no_itt n, ni_ttt = 0xffffffff,
     ni_stat_sn = cn_stat_sn c, ni_exp_cmd_sn = cn_exp_cmd_sn c, ni_max_cmd_sn = max_cmd_sn c,
     ni_data = no_data n\<rparr>])"

definition handle_text :: "registry \<Rightarrow> connection \<Rightarrow> text_request \<Rightarrow> handled" where
  "handle_text r c t =
     (let keys = (if list_ex (\<lambda>kv. fst kv = ascii ''SendTargets'') (tq_text t)
                  then map (Pair (ascii ''TargetName'')) (registry_iqns r) else []) in
      Inr (r, bump_stat_sn c, [TextOut \<lparr>tr_final = True, tr_continue = False, tr_itt = tq_itt t,
        tr_ttt = 0xffffffff, tr_stat_sn = cn_stat_sn c, tr_exp_cmd_sn = cn_exp_cmd_sn c,
        tr_max_cmd_sn = max_cmd_sn c, tr_text = keys\<rparr>]))"

definition handle_task_mgmt :: "registry \<Rightarrow> connection \<Rightarrow> task_mgmt \<Rightarrow> handled" where
  "handle_task_mgmt r c t = Inr (r, bump_stat_sn c, [TaskMgmtOut \<lparr>tmr_response = 0, tmr_itt = tm_itt t,
     tmr_stat_sn = cn_stat_sn c, tmr_exp_cmd_sn = cn_exp_cmd_sn c, tmr_max_cmd_sn = max_cmd_sn c\<rparr>])"

definition handle_logout :: "registry \<Rightarrow> connection \<Rightarrow> logout_request \<Rightarrow> handled" where
  "handle_logout r c l = Inr (r, bump_stat_sn (c\<lparr>cn_stage := Closing\<rparr>), [LogoutOut \<lparr>or_response = 0,
     or_stat_sn = cn_stat_sn c, or_exp_cmd_sn = cn_exp_cmd_sn c, or_max_cmd_sn = max_cmd_sn c\<rparr>])"

section \<open>Reads\<close>

text \<open>
  The Data-In loop: chunks of at most \<open>seg\<close> bytes, status and StatSN on the last. \<open>data_sn\<close> is a
  \<open>u32\<close> that the code increments with \<open>+=\<close>.
\<close>

function data_in_loop ::
  "scsi_command \<Rightarrow> bytes \<Rightarrow> nat \<Rightarrow> connection \<Rightarrow> nat \<Rightarrow> nat \<Rightarrow> (connection \<times> outbound list) io" where
  "data_in_loop cmd bs seg c offset data_sn =
     (if length bs \<le> offset then Inr (c, [])
      else if seg = 0 then Inl Diverged
      else
        let end_pos = min (offset + seg) (length bs);
            is_last = (end_pos = length bs);
            c' = (if is_last then bump_stat_sn c else c);
            pdu = DataInOut \<lparr>di_final = is_last, di_ack = False, di_has_status = is_last, di_status = 0,
              di_lun = sc_lun cmd, di_itt = sc_itt cmd, di_ttt = 0xffffffff, di_stat_sn = cn_stat_sn c,
              di_exp_cmd_sn = cn_exp_cmd_sn c, di_max_cmd_sn = max_cmd_sn c,
              di_data_sn = of_nat data_sn, di_buffer_offset = of_nat offset,
              di_data = window offset (end_pos - offset) bs\<rparr> in
        if 2 ^ 32 \<le> data_sn + 1 then Inl Panicked
        else case data_in_loop cmd bs seg c' end_pos (data_sn + 1) of
            Inl e \<Rightarrow> Inl e
          | Inr (c'', outs) \<Rightarrow> Inr (c'', pdu # outs))"
  by pat_completeness auto
termination
  by (relation "measure (\<lambda>(cmd, bs, seg, c, offset, data_sn). length bs - offset)") auto

declare data_in_loop.simps [simp del]

definition data_in_chunks :: "connection \<Rightarrow> scsi_command \<Rightarrow> bytes \<Rightarrow> (connection \<times> outbound list) io" where
  "data_in_chunks c cmd bs = data_in_loop cmd bs (max (sp_max_recv (cn_params c)) 512) c 0 0"

section \<open>Writes\<close>

definition scsi_resp :: "connection \<Rightarrow> scsi_command \<Rightarrow> scsi_outcome \<Rightarrow> u32 \<Rightarrow> outbound" where
  "scsi_resp c cmd oc residual = ScsiRespOut \<lparr>sr_response = 0, sr_status = oc_status oc,
     sr_itt = sc_itt cmd, sr_stat_sn = cn_stat_sn c, sr_exp_cmd_sn = cn_exp_cmd_sn c,
     sr_max_cmd_sn = max_cmd_sn c, sr_residual = residual, sr_sense = oc_sense oc\<rparr>"

definition r2t_pdu :: "connection \<Rightarrow> pending_write \<Rightarrow> u32 \<Rightarrow> outbound" where
  "r2t_pdu c p itt =
     (let offset = pw_received p in
      R2tOut \<lparr>r2_lun = sc_lun (pw_cmd p), r2_itt = itt, r2_ttt = itt, r2_stat_sn = cn_stat_sn c,
        r2_exp_cmd_sn = cn_exp_cmd_sn c, r2_max_cmd_sn = max_cmd_sn c, r2_r2t_sn = of_nat (pw_r2t_sn p),
        r2_buffer_offset = of_nat offset,
        r2_desired_length = of_nat (min (unat (sc_edtl (pw_cmd p)) - offset) (sp_max_burst (cn_params c)))\<rparr>)"

text \<open>Running a command on the bound target; \<open>expect\<close> panics when there is none.\<close>

definition run_target ::
  "registry \<Rightarrow> connection \<Rightarrow> scsi_command \<Rightarrow> bytes \<Rightarrow> (registry \<times> scsi_outcome) io" where
  "run_target r c cmd bs =
     (case cn_target c of None \<Rightarrow> Inl Panicked
      | Some i \<Rightarrow>
          (case execute (reg_heap r ! i) cmd bs of
             (t, Inl e) \<Rightarrow> Inl e
           | (t, Inr oc) \<Rightarrow> Inr (r\<lparr>reg_heap := (reg_heap r)[i := t]\<rparr>, oc)))"

definition finish_write :: "registry \<Rightarrow> connection \<Rightarrow> pending_write \<Rightarrow> handled" where
  "finish_write r c p =
     (case run_target r c (pw_cmd p) (pw_buf p) of
        Inl e \<Rightarrow> Inl e
      | Inr (r', oc) \<Rightarrow> Inr (r', bump_stat_sn c, [scsi_resp c (pw_cmd p) oc 0]))"

text \<open>
  \<open>immediate.len() as u32\<close> truncates; the slice copy panics when the whole length does not fit.
\<close>

definition begin_write :: "registry \<Rightarrow> connection \<Rightarrow> scsi_command \<Rightarrow> bytes \<Rightarrow> handled" where
  "begin_write r c cmd bhs =
     (let edtl = unat (sc_edtl cmd);
          immediate = sc_data cmd;
          received = length immediate mod 2 ^ 32 in
      if edtl < received then rejected r c PROTOCOL_ERROR bhs
      else if edtl < length immediate then Inl Panicked
      else
        let pending = \<lparr>pw_cmd = cmd, pw_buf = put 0 immediate (zeros edtl), pw_received = received,
              pw_r2t_sn = 0\<rparr> in
        if received = edtl then finish_write r c pending
        else Inr (r, c\<lparr>cn_in_flight := (cn_in_flight c)(sc_itt cmd \<mapsto> pending)\<rparr>,
               [r2t_pdu c pending (sc_itt cmd)]))"

definition handle_data_out :: "registry \<Rightarrow> connection \<Rightarrow> scsi_data_out \<Rightarrow> bytes \<Rightarrow> handled" where
  "handle_data_out r c d bhs =
     (let itt = do_itt d in
      case cn_in_flight c itt of
        None \<Rightarrow> rejected r c PROTOCOL_ERROR bhs
      | Some p \<Rightarrow>
          let start = unat (do_buffer_offset d); end_pos = start + length (do_data d) in
          if length (pw_buf p) < end_pos then
            rejected r (c\<lparr>cn_in_flight := (cn_in_flight c)(itt := None)\<rparr>) PROTOCOL_ERROR bhs
          else
            let received = pw_received p + length (do_data d) mod 2 ^ 32;
                p1 = p\<lparr>pw_buf := put start (do_data d) (pw_buf p), pw_received := received\<rparr> in
            if 2 ^ 32 \<le> received then Inl Panicked
            else if received < unat (sc_edtl (pw_cmd p)) then
              (if 2 ^ 32 \<le> pw_r2t_sn p + 1 then Inl Panicked
               else
                 let p2 = p1\<lparr>pw_r2t_sn := pw_r2t_sn p + 1\<rparr> in
                 Inr (r, c\<lparr>cn_in_flight := (cn_in_flight c)(itt \<mapsto> p2)\<rparr>, [r2t_pdu c p2 itt]))
            else finish_write r (c\<lparr>cn_in_flight := (cn_in_flight c)(itt := None)\<rparr>) p1)"

definition handle_command :: "registry \<Rightarrow> connection \<Rightarrow> scsi_command \<Rightarrow> bytes \<Rightarrow> handled" where
  "handle_command r c cmd bhs =
     (if cn_target c = None then rejected r c PROTOCOL_ERROR bhs
      else
        let c1 = c\<lparr>cn_exp_cmd_sn := cn_exp_cmd_sn c + 1\<rparr> in
        if sc_write cmd then begin_write r c1 cmd bhs
        else case run_target r c1 cmd (sc_data cmd) of
          Inl e \<Rightarrow> Inl e
        | Inr (r', oc) \<Rightarrow>
            if sc_read cmd \<and> oc_status oc = 0 \<and> oc_data oc \<noteq> [] then
              (case data_in_chunks c1 cmd (oc_data oc) of
                 Inl e \<Rightarrow> Inl e | Inr (c2, outs) \<Rightarrow> Inr (r', c2, outs))
            else
              let residual = unat (sc_edtl cmd) - length (oc_data oc) mod 2 ^ 32 in
              Inr (r', bump_stat_sn c1, [scsi_resp c1 cmd oc (of_nat residual)]))"

section \<open>Login\<close>

definition login_fail :: "connection \<Rightarrow> login_request \<Rightarrow> connection \<times> outbound" where
  "login_fail c q =
     (bump_stat_sn (c\<lparr>cn_stage := Closing\<rparr>), LoginOut \<lparr>lr_transit = False, lr_continue = False,
        lr_csg = lq_csg q, lr_nsg = lq_csg q, lr_version_max = 0, lr_version_active = 0,
        lr_isid = lq_isid q, lr_tsih = lq_tsih q, lr_itt = lq_itt q, lr_stat_sn = cn_stat_sn c,
        lr_exp_cmd_sn = cn_exp_cmd_sn c, lr_max_cmd_sn = max_cmd_sn c, lr_status_class = 0x02,
        lr_status_detail = 0x03, lr_text = []\<rparr>)"

definition yes_no :: "bool \<Rightarrow> rstr" where
  "yes_no b = (if b then ascii ''Yes'' else ascii ''No'')"

text \<open>The target of the connection after this PDU, or \<open>None\<close> when the login fails.\<close>

definition resolve_target :: "registry \<Rightarrow> connection \<Rightarrow> login_request \<Rightarrow> nat option option" where
  "resolve_target r c q =
     (case cn_target c of
        Some i \<Rightarrow> Some (Some i)
      | None \<Rightarrow>
          (case find (\<lambda>kv. fst kv = ascii ''TargetName'') (lq_text q) of
             Some (k, iqn) \<Rightarrow>
               (case registry_get r iqn of None \<Rightarrow> None | Some i \<Rightarrow> Some (Some i))
           | None \<Rightarrow> if lq_transit q \<and> lq_nsg q = 3 then None else Some None))"

definition reply_keys :: "session_params \<Rightarrow> text_pairs" where
  "reply_keys p =
     [(ascii ''MaxBurstLength'', dec (sp_max_burst p)), (ascii ''FirstBurstLength'', dec (sp_first_burst p)),
      (ascii ''ImmediateData'', yes_no (sp_immediate_data p)), (ascii ''InitialR2T'', yes_no (sp_initial_r2t p)),
      (ascii ''HeaderDigest'', ascii ''None''), (ascii ''DataDigest'', ascii ''None'')]"

definition handle_login :: "registry \<Rightarrow> connection \<Rightarrow> login_request \<Rightarrow> handled" where
  "handle_login r c0 q =
     (let c = c0\<lparr>cn_stat_sn := (if cn_stat_sn c0 = 0 then lq_exp_stat_sn q else cn_stat_sn c0),
                cn_exp_cmd_sn := lq_cmd_sn q\<rparr> in
      case resolve_target r c q of
        None \<Rightarrow> (let (c', out) = login_fail c q in Inr (r, c', [out]))
      | Some target \<Rightarrow>
          let operational = (lq_csg q = 1 \<or> lq_csg q = 0 \<and> lq_nsg q = 3);
              params = (if operational then fold negotiate (lq_text q) (cn_params c) else cn_params c);
              keys = (if operational then reply_keys params else []);
              transit = (lq_transit q \<and> (lq_nsg q = 1 \<or> lq_nsg q = 3));
              c1 = c\<lparr>cn_target := target, cn_params := params,
                     cn_stage := (if transit \<and> lq_nsg q = 3 then FullFeature else cn_stage c)\<rparr> in
          Inr (r, bump_stat_sn c1, [LoginOut \<lparr>lr_transit = transit, lr_continue = False,
            lr_csg = lq_csg q, lr_nsg = lq_nsg q, lr_version_max = 0, lr_version_active = 0,
            lr_isid = lq_isid q, lr_tsih = (if lq_tsih q = 0 then 1 else lq_tsih q), lr_itt = lq_itt q,
            lr_stat_sn = cn_stat_sn c1, lr_exp_cmd_sn = cn_exp_cmd_sn c1, lr_max_cmd_sn = max_cmd_sn c1,
            lr_status_class = 0, lr_status_detail = 0, lr_text = keys\<rparr>]))"

section \<open>The state machine\<close>

primrec handle_full_feature :: "registry \<Rightarrow> connection \<Rightarrow> bytes \<Rightarrow> request \<Rightarrow> handled" where
  "handle_full_feature r c bhs (ScsiCommand cmd) = handle_command r c cmd bhs"
| "handle_full_feature r c bhs (DataOut d) = handle_data_out r c d bhs"
| "handle_full_feature r c bhs (NopOut n) = handle_nop r c n"
| "handle_full_feature r c bhs (Text t) = handle_text r c t"
| "handle_full_feature r c bhs (TaskMgmt t) = handle_task_mgmt r c t"
| "handle_full_feature r c bhs (Logout l) = handle_logout r c l"
| "handle_full_feature r c bhs (Login q) = rejected r c PROTOCOL_ERROR bhs"
| "handle_full_feature r c bhs (Unsupported op itt) = rejected r c COMMAND_NOT_SUPPORTED bhs"

definition handle :: "registry \<Rightarrow> connection \<Rightarrow> request \<Rightarrow> bytes \<Rightarrow> handled" where
  "handle r c req bhs =
     (case cn_stage c of
        LoginStage \<Rightarrow>
          (case req of Login q \<Rightarrow> handle_login r c q
           | _ \<Rightarrow> rejected r (c\<lparr>cn_stage := Closing\<rparr>) PROTOCOL_ERROR bhs)
      | FullFeature \<Rightarrow> handle_full_feature r c bhs req
      | Closing \<Rightarrow> rejected r (c\<lparr>cn_stage := Closing\<rparr>) PROTOCOL_ERROR bhs)"

end
