(* ===== verification/Session_Props.thy ===== *)
theory Session_Props
  imports Session
begin

text \<open>
  What the session layer guarantees: the invariant of a connection and its registry, which
  requests can panic, the StatSN discipline, the Data-In segmentation against its closed form,
  and the assembly of write data.
\<close>

section \<open>Data-In segmentation\<close>

definition data_in_pdu :: "connection \<Rightarrow> scsi_command \<Rightarrow> bytes \<Rightarrow> nat \<Rightarrow> nat \<Rightarrow> scsi_data_in" where
  "data_in_pdu c cmd bs seg i =
     (let is_last = (length bs \<le> (i + 1) * seg) in
      \<lparr>di_final = is_last, di_ack = False, di_has_status = is_last, di_status = 0,
       di_lun = sc_lun cmd, di_itt = sc_itt cmd, di_ttt = 0xffffffff, di_stat_sn = cn_stat_sn c,
       di_exp_cmd_sn = cn_exp_cmd_sn c, di_max_cmd_sn = max_cmd_sn c,
       di_data_sn = of_nat i, di_buffer_offset = of_nat (i * seg),
       di_data = window (i * seg) (min seg (length bs - i * seg)) bs\<rparr>)"

lemma data_in_loop_closed:
  assumes "0 < seg" "div_ceil (length bs) seg < 2 ^ 32" "i < div_ceil (length bs) seg"
  shows "data_in_loop cmd bs seg c (i * seg) i =
    Inr (bump_stat_sn c, map (\<lambda>j. DataInOut (data_in_pdu c cmd bs seg j)) [i..<div_ceil (length bs) seg])"
  using assms(3)
proof (induction "div_ceil (length bs) seg - i" arbitrary: i)
  case (Suc m)
  let ?n = "div_ceil (length bs) seg"
  have lt: "i * seg < length bs" using Suc.prems div_ceil_le_iff [OF assms(1)] by blast
  have sn: "\<not> 2 ^ 32 \<le> i + 1" using Suc.prems assms(2) by simp
  have up: "[i..<?n] = i # [Suc i..<?n]" using Suc.prems by (rule upt_conv_Cons)
  show ?case
  proof (cases "length bs \<le> (i + 1) * seg")
    case True
    have "\<not> Suc i < ?n" using True div_ceil_le_iff [OF assms(1), of "Suc i" "length bs"] by simp
    then have "[Suc i..<?n] = []" by simp
    moreover have "min (i * seg + seg) (length bs) = length bs" using True by simp
    moreover have "min seg (length bs - i * seg) = length bs - i * seg" using True by simp
    ultimately show ?thesis
      using lt assms(1) sn True up
      by (simp add: data_in_loop.simps [of _ _ _ _ "i * seg"] data_in_loop.simps [of _ _ _ _ "length bs"]
          Let_def data_in_pdu_def max_cmd_sn_def)
  next
    case False
    then have nx: "Suc i < ?n" using div_ceil_le_iff [OF assms(1), of "Suc i" "length bs"] by simp
    have "data_in_loop cmd bs seg c (Suc i * seg) (Suc i) = Inr (bump_stat_sn c,
        map (\<lambda>j. DataInOut (data_in_pdu c cmd bs seg j)) [Suc i..<?n])"
      using Suc.hyps(2) nx by (intro Suc.hyps(1)) auto
    moreover have "min (i * seg + seg) (length bs) = Suc i * seg" "min seg (length bs - i * seg) = seg"
      using False by simp_all
    ultimately show ?thesis
      using lt assms(1) sn False up
      by (simp add: data_in_loop.simps [of _ _ _ _ "i * seg"] Let_def data_in_pdu_def max_cmd_sn_def add.commute)
  qed
qed simp

lemma data_in_chunks_closed:
  assumes "bs \<noteq> []" "length bs < 2 ^ 32"
  shows "data_in_chunks c cmd bs = Inr (bump_stat_sn c,
    map (\<lambda>j. DataInOut (data_in_pdu c cmd bs (max (sp_max_recv (cn_params c)) 512) j))
      [0..<div_ceil (length bs) (max (sp_max_recv (cn_params c)) 512)])"
proof -
  let ?seg = "max (sp_max_recv (cn_params c)) 512"
  have "div_ceil (length bs) ?seg \<le> length bs"
    using div_ceil_le_iff [of ?seg "length bs" "length bs"] by (simp add: not_less [symmetric])
  moreover have "0 < div_ceil (length bs) ?seg" using assms(1) by (simp add: div_ceil_le_iff)
  ultimately show ?thesis
    using data_in_loop_closed [of ?seg bs 0] assms(2) by (simp add: data_in_chunks_def)
qed

text \<open>The initiator places each Data-In payload at its buffer offset.\<close>

primrec place :: "outbound \<Rightarrow> bytes \<Rightarrow> bytes" where
  "place (DataInOut p) buf = put (unat (di_buffer_offset p)) (di_data p) buf"
| "place (LoginOut p) buf = buf"
| "place (ScsiRespOut p) buf = buf"
| "place (R2tOut p) buf = buf"
| "place (NopInOut p) buf = buf"
| "place (TextOut p) buf = buf"
| "place (LogoutOut p) buf = buf"
| "place (TaskMgmtOut p) buf = buf"
| "place (RejectOut p) buf = buf"

lemma place_prefix:
  assumes "length bs < 2 ^ 32" "0 < seg"
  shows "k \<le> div_ceil (length bs) seg \<Longrightarrow>
    fold place (map (\<lambda>j. DataInOut (data_in_pdu c cmd bs seg j)) [0..<k]) (zeros (length bs))
      = take (k * seg) bs @ zeros (length bs - k * seg)"
proof (induction k)
  case (Suc k)
  have lt: "k * seg < length bs" using Suc.prems div_ceil_le_iff [OF assms(2), of k "length bs"] by simp
  have off: "unat (of_nat (k * seg) :: u32) = k * seg"
    using lt assms(1) by (simp add: unat_of_nat del: of_nat_mult)
  have "put (k * seg) (window (k * seg) (min seg (length bs - k * seg)) bs)
      (take (k * seg) bs @ zeros (length bs - k * seg)) = take (Suc k * seg) bs @ zeros (length bs - Suc k * seg)"
  proof (rule nth_equalityI)
    fix j
    assume "j < length (put (k * seg) (window (k * seg) (min seg (length bs - k * seg)) bs)
        (take (k * seg) bs @ zeros (length bs - k * seg)))"
    then have j: "j < length bs" using lt by (simp add: length_put length_window)
    have "window (k * seg) (min seg (length bs - k * seg)) bs ! (j - k * seg) = bs ! j"
      if "k * seg \<le> j" "j < k * seg + min seg (length bs - k * seg)"
    proof -
      have "j - k * seg < min seg (length bs - k * seg)" using that by linarith
      then show ?thesis
        using that j nth_window [of "j - k * seg" "min seg (length bs - k * seg)" "k * seg" bs] by simp
    qed
    then show "put (k * seg) (window (k * seg) (min seg (length bs - k * seg)) bs)
        (take (k * seg) bs @ zeros (length bs - k * seg)) ! j =
      (take (Suc k * seg) bs @ zeros (length bs - Suc k * seg)) ! j"
      using j lt by (auto simp: nth_put nth_append length_window)
  qed (use lt in \<open>auto simp: length_put length_window\<close>)
  then show ?case
    using Suc by (simp add: data_in_pdu_def Let_def off del: of_nat_mult)
qed simp

lemma data_in_reassembly:
  assumes "bs \<noteq> []" "length bs < 2 ^ 32" "data_in_chunks c cmd bs = Inr (c', outs)"
  shows "fold place outs (zeros (length bs)) = bs"
proof -
  let ?seg = "max (sp_max_recv (cn_params c)) 512"
  have "outs = map (\<lambda>j. DataInOut (data_in_pdu c cmd bs ?seg j)) [0..<div_ceil (length bs) ?seg]"
    using data_in_chunks_closed [OF assms(1,2), of c cmd] assms(3) by simp
  then show ?thesis
    using place_prefix [OF assms(2), of ?seg "div_ceil (length bs) ?seg" c cmd]
      div_ceil_upper [of ?seg "length bs"] by (simp add: zeros_def)
qed

section \<open>The invariant\<close>

definition pending_ok :: "u32 \<Rightarrow> pending_write \<Rightarrow> bool" where
  "pending_ok itt p \<longleftrightarrow> sc_itt (pw_cmd p) = itt \<and> length (pw_buf p) = unat (sc_edtl (pw_cmd p)) \<and>
     pw_received p < unat (sc_edtl (pw_cmd p)) \<and> pw_r2t_sn p < 2 ^ 32"

definition conn_inv :: "registry \<Rightarrow> connection \<Rightarrow> bool" where
  "conn_inv r c \<longleftrightarrow> params_ok (cn_params c) \<and>
     (\<forall>i. cn_target c = Some i \<longrightarrow> i < length (reg_heap r)) \<and>
     (cn_stage c = FullFeature \<longrightarrow> cn_target c \<noteq> None) \<and>
     (\<forall>itt p. cn_in_flight c itt = Some p \<longrightarrow> pending_ok itt p \<and> cn_target c \<noteq> None)"

lemma conn_inv_new: "conn_inv r connection_new"
  by (simp add: conn_inv_def connection_new_def params_ok_default)

text \<open>A step keeps the names and the number of targets, so it disturbs no other connection.\<close>

definition registry_step :: "registry \<Rightarrow> registry \<Rightarrow> bool" where
  "registry_step r r' \<longleftrightarrow> reg_targets r' = reg_targets r \<and> length (reg_heap r') = length (reg_heap r)"

lemma registry_step_refl [simp]: "registry_step r r"
  by (simp add: registry_step_def)

lemma conn_inv_other: "conn_inv r c \<Longrightarrow> registry_step r r' \<Longrightarrow> conn_inv r' c"
  by (auto simp: conn_inv_def registry_step_def)

lemma run_target_ok:
  assumes "registry_inv r" "cn_target c = Some i" "i < length (reg_heap r)"
  shows "\<exists>r' oc. run_target r c cmd bs = Inr (r', oc) \<and> registry_inv r' \<and> registry_step r r' \<and>
    (\<forall>j. j \<noteq> i \<longrightarrow> reg_heap r' ! j = reg_heap r ! j)"
proof -
  have "target_inv (reg_heap r ! i)" using assms by (simp add: registry_inv_def list_all_length)
  then obtain t oc where ex: "execute (reg_heap r ! i) cmd bs = (t, Inr oc)" "target_inv t"
    using execute_step by blast
  have "registry_inv (r\<lparr>reg_heap := (reg_heap r)[i := t]\<rparr>)"
    using assms(1,3) ex(2) by (auto simp: registry_inv_def list_all_length nth_list_update)
  then show ?thesis using assms(2) ex by (simp add: run_target_def registry_step_def)
qed

lemma run_target_cong:
  "cn_target c' = cn_target c \<Longrightarrow> run_target r c' cmd bs = run_target r c cmd bs"
  by (simp add: run_target_def)

text \<open>The result of a handler: an invariant-preserving step.\<close>

definition good_step :: "registry \<Rightarrow> handled \<Rightarrow> bool" where
  "good_step r res \<longleftrightarrow>
     (\<forall>r' c' outs. res = Inr (r', c', outs) \<longrightarrow> registry_inv r' \<and> registry_step r r' \<and> conn_inv r' c')"

lemma conn_inv_stat_sn [simp]: "conn_inv r (bump_stat_sn c) = conn_inv r c"
  by (simp add: conn_inv_def bump_stat_sn_def)

lemma conn_inv_exp_cmd_sn [simp]: "conn_inv r (c\<lparr>cn_exp_cmd_sn := n\<rparr>) = conn_inv r c"
  by (simp add: conn_inv_def)

lemma conn_inv_closing: "conn_inv r c \<Longrightarrow> conn_inv r (c\<lparr>cn_stage := Closing\<rparr>)"
  by (simp add: conn_inv_def)

lemma conn_inv_drop: "conn_inv r c \<Longrightarrow> conn_inv r (c\<lparr>cn_in_flight := (cn_in_flight c)(itt := None)\<rparr>)"
  by (simp add: conn_inv_def)

lemma conn_inv_pending:
  "conn_inv r c \<Longrightarrow> pending_ok itt p \<Longrightarrow> cn_target c \<noteq> None \<Longrightarrow>
    conn_inv r (c\<lparr>cn_in_flight := (cn_in_flight c)(itt \<mapsto> p)\<rparr>)"
  by (simp add: conn_inv_def)

lemma good_rejected: "registry_inv r \<Longrightarrow> conn_inv r c \<Longrightarrow> good_step r (rejected r c reason bhs)"
  by (simp add: good_step_def rejected_def reject_pdu_def)

lemma good_finish_write:
  assumes "registry_inv r" "conn_inv r c" "cn_target c \<noteq> None"
  shows "good_step r (finish_write r c p)"
proof -
  obtain i where i: "cn_target c = Some i" "i < length (reg_heap r)"
    using assms by (auto simp: conn_inv_def)
  obtain r' oc where "run_target r c (pw_cmd p) (pw_buf p) = Inr (r', oc)" "registry_inv r'" "registry_step r r'"
    using run_target_ok [OF assms(1) i] by blast
  then show ?thesis
    using assms(2) by (simp add: finish_write_def good_step_def conn_inv_other)
qed

lemma good_begin_write:
  assumes "registry_inv r" "conn_inv r c" "cn_target c \<noteq> None"
  shows "good_step r (begin_write r c cmd bhs)"
proof -
  let ?p = "\<lparr>pw_cmd = cmd, pw_buf = put 0 (sc_data cmd) (zeros (unat (sc_edtl cmd))),
    pw_received = length (sc_data cmd) mod 2 ^ 32, pw_r2t_sn = 0\<rparr>"
  consider "unat (sc_edtl cmd) < length (sc_data cmd) mod 2 ^ 32"
    | "\<not> unat (sc_edtl cmd) < length (sc_data cmd) mod 2 ^ 32" "unat (sc_edtl cmd) < length (sc_data cmd)"
    | "length (sc_data cmd) \<le> unat (sc_edtl cmd)" "length (sc_data cmd) mod 2 ^ 32 = unat (sc_edtl cmd)"
    | "length (sc_data cmd) \<le> unat (sc_edtl cmd)" "length (sc_data cmd) mod 2 ^ 32 < unat (sc_edtl cmd)"
    by linarith
  then show ?thesis
  proof cases
    case 1
    then show ?thesis using assms good_rejected by (simp add: begin_write_def Let_def)
  next
    case 2
    then show ?thesis by (simp add: begin_write_def Let_def good_step_def)
  next
    case 3
    then show ?thesis using good_finish_write [OF assms] by (simp add: begin_write_def Let_def)
  next
    case 4
    then have "pending_ok (sc_itt cmd) ?p" by (simp add: pending_ok_def length_put)
    then show ?thesis
      using 4 assms conn_inv_pending by (simp add: begin_write_def Let_def good_step_def)
  qed
qed

lemma good_data_out:
  assumes "registry_inv r" "conn_inv r c"
  shows "good_step r (handle_data_out r c d bhs)"
proof (cases "cn_in_flight c (do_itt d)")
  case None
  then show ?thesis using assms good_rejected by (simp add: handle_data_out_def)
next
  case (Some p)
  let ?itt = "do_itt d" and ?n = "length (do_data d)"
  let ?rec = "pw_received p + ?n mod 2 ^ 32"
  have p: "pending_ok ?itt p" "cn_target c \<noteq> None" using assms(2) Some by (auto simp: conn_inv_def)
  define p1 where "p1 = p\<lparr>pw_buf := put (unat (do_buffer_offset d)) (do_data d) (pw_buf p), pw_received := ?rec\<rparr>"
  have drop: "conn_inv r (c\<lparr>cn_in_flight := (cn_in_flight c)(?itt := None)\<rparr>)"
    using conn_inv_drop [OF assms(2)] .
  consider "length (pw_buf p) < unat (do_buffer_offset d) + ?n" | "2 ^ 32 \<le> ?rec"
    | "unat (do_buffer_offset d) + ?n \<le> length (pw_buf p)" "?rec < 2 ^ 32" "?rec < unat (sc_edtl (pw_cmd p))"
    | "unat (do_buffer_offset d) + ?n \<le> length (pw_buf p)" "?rec < 2 ^ 32" "\<not> ?rec < unat (sc_edtl (pw_cmd p))"
    by linarith
  then show ?thesis
  proof cases
    case 1
    then show ?thesis using Some good_rejected [OF assms(1) drop] by (simp add: handle_data_out_def Let_def)
  next
    case 2
    then show ?thesis
      using Some good_rejected [OF assms(1) drop] by (simp add: handle_data_out_def Let_def good_step_def)
  next
    case 3
    have "pending_ok ?itt (p1\<lparr>pw_r2t_sn := pw_r2t_sn p + 1\<rparr>)" if "pw_r2t_sn p + 1 < 2 ^ 32"
      using p(1) 3 that by (simp add: pending_ok_def p1_def length_put)
    then show ?thesis
      using Some 3 assms p(2) conn_inv_pending
      by (simp add: handle_data_out_def Let_def good_step_def p1_def)
  next
    case 4
    then show ?thesis
      using Some good_finish_write [OF assms(1) drop, of p1] p(2)
      by (simp add: handle_data_out_def Let_def p1_def)
  qed
qed

lemma data_in_loop_state:
  "data_in_loop cmd bs seg c off sn = Inr (c', outs) \<Longrightarrow> c' = c \<or> c' = bump_stat_sn c"
proof (induction cmd bs seg c off sn arbitrary: c' outs rule: data_in_loop.induct)
  case (1 cmd bs seg c off sn)
  show ?case
  proof (cases "length bs \<le> off \<or> seg = 0 \<or> 2 ^ 32 \<le> sn + 1")
    case True
    with "1.prems" show ?thesis
      by (auto simp: data_in_loop.simps [of _ _ _ _ off] Let_def split: if_splits)
  next
    case False
    define e where "e = min (off + seg) (length bs)"
    obtain outs' where rec: "data_in_loop cmd bs seg (if e = length bs then bump_stat_sn c else c) e (sn + 1) = Inr (c', outs')"
      using "1.prems" False
      by (auto simp: data_in_loop.simps [of _ _ _ _ off] Let_def e_def [symmetric] split: sum.splits)
    show ?thesis
    proof (cases "e = length bs")
      case True
      with rec show ?thesis by (simp add: data_in_loop.simps)
    next
      case e: False
      from False have c: "\<not> length bs \<le> off" "seg \<noteq> 0" "\<not> 2 ^ 32 \<le> sn + 1" by auto
      show ?thesis
        using "1.IH" [OF c(1,2) e_def refl refl refl c(3)] rec e by simp
    qed
  qed
qed

lemma good_command:
  assumes "registry_inv r" "conn_inv r c"
  shows "good_step r (handle_command r c cmd bhs)"
proof (cases "cn_target c")
  case None
  then show ?thesis using assms good_rejected by (simp add: handle_command_def)
next
  case (Some i)
  let ?c = "c\<lparr>cn_exp_cmd_sn := cn_exp_cmd_sn c + 1\<rparr>"
  have c: "conn_inv r ?c" "cn_target ?c = Some i" "i < length (reg_heap r)"
    using assms(2) Some by (simp_all add: conn_inv_def)
  show ?thesis
  proof (cases "sc_write cmd")
    case True
    then show ?thesis using Some good_begin_write [OF assms(1) c(1)] by (simp add: handle_command_def Let_def)
  next
    case False
    obtain r' oc where rt: "run_target r ?c cmd (sc_data cmd) = Inr (r', oc)" "registry_inv r'" "registry_step r r'"
      using run_target_ok [OF assms(1) c(2,3)] by blast
    have "conn_inv r' c2" if "data_in_chunks ?c cmd (oc_data oc) = Inr (c2, outs)" for c2 outs
      using data_in_loop_state [OF that [unfolded data_in_chunks_def]] conn_inv_other [OF c(1) rt(3)] by auto
    then show ?thesis
      using Some False rt conn_inv_other [OF c(1) rt(3)]
      by (auto simp: handle_command_def Let_def good_step_def split: sum.splits if_splits)
  qed
qed

lemma resolve_target_inv:
  assumes "registry_inv r" "conn_inv r c" "resolve_target r c q = Some t"
  shows "\<forall>i. t = Some i \<longrightarrow> i < length (reg_heap r)" "lq_transit q \<Longrightarrow> lq_nsg q = 3 \<Longrightarrow> t \<noteq> None"
    "cn_target c \<noteq> None \<Longrightarrow> t = cn_target c"
proof -
  from assms(3) consider (bound) i where "cn_target c = Some i" "t = Some i"
    | (found) iqn i where "cn_target c = None" "registry_get r iqn = Some i" "t = Some i"
    | (later) "cn_target c = None" "t = None" "\<not> (lq_transit q \<and> lq_nsg q = 3)"
    by (cases "cn_target c") (auto simp: resolve_target_def split: option.splits if_splits, metis)
  then show "\<forall>i. t = Some i \<longrightarrow> i < length (reg_heap r)" "lq_transit q \<Longrightarrow> lq_nsg q = 3 \<Longrightarrow> t \<noteq> None"
    "cn_target c \<noteq> None \<Longrightarrow> t = cn_target c"
    using assms(2) registry_inv_get [OF assms(1)] by (cases; simp add: conn_inv_def)+
qed

lemma params_ok_fold: "params_ok p \<Longrightarrow> params_ok (fold negotiate kvs p)"
  by (induction kvs arbitrary: p) (simp_all add: params_ok_negotiate)

text \<open>No text a login offers raises a limit or turns immediate data or the initial R2T back on.\<close>

lemma negotiate_fold_tightens:
  "sp_first_burst (fold negotiate kvs p) \<le> sp_first_burst p \<and> sp_max_burst (fold negotiate kvs p) \<le> sp_max_burst p \<and>
    (sp_immediate_data (fold negotiate kvs p) \<longrightarrow> sp_immediate_data p) \<and>
    (sp_initial_r2t (fold negotiate kvs p) \<longrightarrow> sp_initial_r2t p)"
proof (induction kvs arbitrary: p)
  case (Cons kv kvs)
  show ?case using Cons.IH [of "negotiate kv p"] negotiate_tightens [of kv p] by auto
qed simp

lemma good_login:
  assumes "registry_inv r" "conn_inv r c" "cn_stage c = LoginStage"
  shows "good_step r (handle_login r c q)"
proof -
  define c1 where "c1 = c\<lparr>cn_stat_sn := (if cn_stat_sn c = 0 then lq_exp_stat_sn q else cn_stat_sn c),
    cn_exp_cmd_sn := lq_cmd_sn q\<rparr>"
  have c1: "conn_inv r c1" "cn_stage c1 = LoginStage" using assms by (simp_all add: c1_def conn_inv_def)
  show ?thesis
  proof (cases "resolve_target r c1 q")
    case None
    then show ?thesis
      using assms(1) conn_inv_closing [OF c1(1)]
      by (simp add: handle_login_def c1_def [symmetric] login_fail_def good_step_def Let_def)
  next
    case (Some t)
    note rt = resolve_target_inv [OF assms(1) c1(1) Some]
    have "conn_inv r (c1\<lparr>cn_target := t, cn_params := ps, cn_stage :=
        (if (lq_transit q \<and> (lq_nsg q = 1 \<or> lq_nsg q = 3)) \<and> lq_nsg q = 3 then FullFeature else cn_stage c1)\<rparr>)"
      if "params_ok ps" for ps
      using c1 rt that by (auto simp: conn_inv_def)
    moreover have "params_ok (cn_params c1)" using c1(1) by (simp add: conn_inv_def)
    ultimately show ?thesis
      using assms(1) Some params_ok_fold
      unfolding handle_login_def c1_def [symmetric] Let_def good_step_def by simp
  qed
qed

lemma good_simple:
  assumes "registry_inv r" "conn_inv r c"
  shows "good_step r (handle_nop r c n)" "good_step r (handle_text r c t)"
    "good_step r (handle_task_mgmt r c tm)" "good_step r (handle_logout r c l)"
  using assms conn_inv_closing [OF assms(2)]
  by (simp_all add: good_step_def handle_nop_def handle_text_def handle_task_mgmt_def handle_logout_def Let_def)

lemma good_handle:
  assumes "registry_inv r" "conn_inv r c"
  shows "good_step r (handle r c req bhs)"
proof (cases "cn_stage c")
  case LoginStage
  show ?thesis
    using LoginStage good_login [OF assms LoginStage] good_rejected [OF assms(1) conn_inv_closing [OF assms(2)]]
    by (cases req) (simp_all add: handle_def)
next
  case FullFeature
  then show ?thesis
    using good_command [OF assms] good_data_out [OF assms] good_rejected [OF assms] good_simple [OF assms]
    by (cases req) (simp_all add: handle_def)
next
  case Closing
  then show ?thesis
    using good_rejected [OF assms(1) conn_inv_closing [OF assms(2)]] by (simp add: handle_def)
qed

section \<open>Which requests can panic\<close>

text \<open>
  Three 32-bit counters are added to without a check: the bytes received and the number of R2Ts of
  a pending write, and the DataSN of an answer. The buffer offset of a Data-In is truncated and
  cannot panic.
\<close>

definition data_out_overflows :: "connection \<Rightarrow> request \<Rightarrow> bool" where
  "data_out_overflows c req \<longleftrightarrow>
     (\<exists>d p. req = DataOut d \<and> cn_in_flight c (do_itt d) = Some p \<and>
        unat (do_buffer_offset d) + length (do_data d) \<le> length (pw_buf p) \<and>
        (2 ^ 32 \<le> pw_received p + length (do_data d) \<or>
         pw_received p + length (do_data d) < unat (sc_edtl (pw_cmd p)) \<and> pw_r2t_sn p + 1 = 2 ^ 32))"

definition answer_overflows :: "connection \<Rightarrow> scsi_outcome \<Rightarrow> bool" where
  "answer_overflows c oc \<longleftrightarrow> 2 ^ 32 \<le> div_ceil (length (oc_data oc)) (max (sp_max_recv (cn_params c)) 512)"

definition panics :: "registry \<Rightarrow> connection \<Rightarrow> request \<Rightarrow> bool" where
  "panics r c req \<longleftrightarrow> data_out_overflows c req \<or>
     (\<exists>cmd r' oc. req = ScsiCommand cmd \<and> sc_read cmd \<and> \<not> sc_write cmd \<and>
        run_target r c cmd (sc_data cmd) = Inr (r', oc) \<and> answer_overflows c oc)"

lemma data_in_chunks_panics:
  assumes "data_in_chunks c cmd bs = Inl e"
  shows "e = Panicked \<and> 2 ^ 32 \<le> div_ceil (length bs) (max (sp_max_recv (cn_params c)) 512)"
proof -
  let ?seg = "max (sp_max_recv (cn_params c)) 512"
  have ne: "bs \<noteq> []" using assms by (auto simp: data_in_chunks_def data_in_loop.simps [of _ _ _ _ 0])
  have "0 < div_ceil (length bs) ?seg" using ne by (simp add: div_ceil_le_iff)
  moreover have "0 < ?seg" by (simp add: less_max_iff_disj)
  ultimately have "\<not> div_ceil (length bs) ?seg < 2 ^ 32"
    using data_in_loop_closed [of ?seg bs 0 cmd c] assms by (auto simp: data_in_chunks_def)
  moreover have "e' = Panicked" if "data_in_loop cmd bs seg c0 off sn = Inl e'" "0 < seg" for bs seg c0 off sn e'
    using that
  proof (induction cmd bs seg c0 off sn arbitrary: e' rule: data_in_loop.induct)
    case (1 cmd bs seg c0 off sn)
    define en where "en = min (off + seg) (length bs)"
    from "1.prems" have ne: "\<not> length bs \<le> off" by (auto simp: data_in_loop.simps [of _ _ _ _ off])
    show ?case
    proof (cases "2 ^ 32 \<le> sn + 1")
      case True
      with "1.prems" ne show ?thesis by (simp add: data_in_loop.simps [of _ _ _ _ off] Let_def)
    next
      case False
      then have "data_in_loop cmd bs seg (if en = length bs then bump_stat_sn c0 else c0) en (sn + 1) = Inl e'"
        using "1.prems" ne by (auto simp: data_in_loop.simps [of _ _ _ _ off] Let_def en_def [symmetric] split: sum.splits)
      then show ?thesis
        using "1.IH" [OF ne _ en_def refl refl refl False] "1.prems"(2) by simp
    qed
  qed
  ultimately show ?thesis using assms by (auto simp: data_in_chunks_def not_less)
qed

lemma rejected_not_Inl [simp]: "rejected r c reason bhs \<noteq> Inl e"
  by (simp add: rejected_def reject_pdu_def)

lemma finish_write_not_Inl:
  assumes "registry_inv r" "conn_inv r c" "cn_target c \<noteq> None"
  shows "finish_write r c p \<noteq> Inl e"
proof -
  obtain i where i: "cn_target c = Some i" "i < length (reg_heap r)"
    using assms by (auto simp: conn_inv_def)
  show ?thesis using run_target_ok [OF assms(1) i, of "pw_cmd p" "pw_buf p"] by (auto simp: finish_write_def)
qed

lemma command_panics:
  assumes "registry_inv r" "conn_inv r c" "length (sc_data cmd) \<le> MAX_DATA_SEGMENT"
    and "handle_command r c cmd bhs = Inl e"
  shows "e = Panicked \<and> panics r c (ScsiCommand cmd)"
proof -
  let ?c = "c\<lparr>cn_exp_cmd_sn := cn_exp_cmd_sn c + 1\<rparr>"
  obtain i where i: "cn_target c = Some i" using assms(4) by (cases "cn_target c") (auto simp: handle_command_def)
  have c: "conn_inv r ?c" "cn_target ?c = Some i" "i < length (reg_heap r)"
    using assms(2) i by (simp_all add: conn_inv_def)
  have m: "length (sc_data cmd) mod 2 ^ 32 = length (sc_data cmd)"
    using assms(3) by (simp add: MAX_DATA_SEGMENT_def)
  have nw: "\<not> sc_write cmd"
    using assms(4) i m finish_write_not_Inl [OF assms(1) c(1)] c(2)
    by (auto simp: handle_command_def begin_write_def Let_def split: if_splits)
  obtain r' oc where rt: "run_target r ?c cmd (sc_data cmd) = Inr (r', oc)"
    using run_target_ok [OF assms(1) c(2,3)] by blast
  then have rt': "run_target r c cmd (sc_data cmd) = Inr (r', oc)" by (simp add: run_target_def)
  have di: "oc_data oc \<noteq> []" "data_in_chunks ?c cmd (oc_data oc) = Inl e" "sc_read cmd"
    using assms(4) i nw rt by (auto simp: handle_command_def Let_def split: sum.splits if_splits)
  from data_in_chunks_panics [OF di(2)] show ?thesis
    using di(3) nw rt' by (auto simp: panics_def answer_overflows_def)
qed

lemma data_out_panics:
  assumes "registry_inv r" "conn_inv r c" "length (do_data d) \<le> MAX_DATA_SEGMENT"
    and "handle_data_out r c d bhs = Inl e"
  shows "e = Panicked \<and> panics r c (DataOut d)"
proof -
  obtain p where p: "cn_in_flight c (do_itt d) = Some p"
    using assms(4) by (auto simp: handle_data_out_def Let_def split: option.splits)
  have m: "length (do_data d) mod 2 ^ 32 = length (do_data d)"
    using assms(3) by (simp add: MAX_DATA_SEGMENT_def)
  have "cn_target c \<noteq> None" "pending_ok (do_itt d) p" using assms(2) p by (auto simp: conn_inv_def)
  then have fw: "finish_write r (c\<lparr>cn_in_flight := (cn_in_flight c)(do_itt d := None)\<rparr>) p' \<noteq> Inl e" for p'
    using finish_write_not_Inl [OF assms(1) conn_inv_drop [OF assms(2)]] by simp
  have "e = Panicked \<and> unat (do_buffer_offset d) + length (do_data d) \<le> length (pw_buf p) \<and>
      (2 ^ 32 \<le> pw_received p + length (do_data d) \<or>
       pw_received p + length (do_data d) < unat (sc_edtl (pw_cmd p)) \<and> 2 ^ 32 \<le> pw_r2t_sn p + 1)"
    using assms(4) p m fw by (auto simp: handle_data_out_def Let_def split: if_splits)
  then show ?thesis
    using p \<open>pending_ok (do_itt d) p\<close> unfolding panics_def data_out_overflows_def pending_ok_def by auto
qed

lemma handle_panics_lemma:
  assumes "registry_inv r" "conn_inv r c" "request_wf req" "handle r c req bhs = Inl e"
  shows "e = Panicked \<and> panics r c req"
proof -
  have "cn_stage c = FullFeature"
    using assms(4)
    by (cases "cn_stage c"; cases req)
      (auto simp: handle_def handle_login_def login_fail_def Let_def split: option.splits)
  then have ff: "handle_full_feature r c bhs req = Inl e" using assms(4) by (simp add: handle_def)
  show ?thesis
  proof (cases req)
    case (ScsiCommand cmd)
    then show ?thesis using command_panics [OF assms(1,2), of cmd bhs e] ff assms(3) by simp
  next
    case (DataOut d)
    then show ?thesis using data_out_panics [OF assms(1,2), of d bhs e] ff assms(3) by simp
  qed (use ff in \<open>simp_all add: handle_nop_def handle_text_def handle_task_mgmt_def handle_logout_def Let_def\<close>)
qed

section \<open>Sequence numbers\<close>

primrec out_sn :: "outbound \<Rightarrow> u32 \<times> u32 \<times> u32" where
  "out_sn (LoginOut p) = (lr_stat_sn p, lr_exp_cmd_sn p, lr_max_cmd_sn p)"
| "out_sn (ScsiRespOut p) = (sr_stat_sn p, sr_exp_cmd_sn p, sr_max_cmd_sn p)"
| "out_sn (DataInOut p) = (di_stat_sn p, di_exp_cmd_sn p, di_max_cmd_sn p)"
| "out_sn (R2tOut p) = (r2_stat_sn p, r2_exp_cmd_sn p, r2_max_cmd_sn p)"
| "out_sn (NopInOut p) = (ni_stat_sn p, ni_exp_cmd_sn p, ni_max_cmd_sn p)"
| "out_sn (TextOut p) = (tr_stat_sn p, tr_exp_cmd_sn p, tr_max_cmd_sn p)"
| "out_sn (LogoutOut p) = (or_stat_sn p, or_exp_cmd_sn p, or_max_cmd_sn p)"
| "out_sn (TaskMgmtOut p) = (tmr_stat_sn p, tmr_exp_cmd_sn p, tmr_max_cmd_sn p)"
| "out_sn (RejectOut p) = (rj_stat_sn p, rj_exp_cmd_sn p, rj_max_cmd_sn p)"

text \<open>The PDUs that carry a status and so consume a StatSN.\<close>

primrec consumes :: "outbound \<Rightarrow> bool" where
  "consumes (LoginOut p) = True"
| "consumes (ScsiRespOut p) = True"
| "consumes (DataInOut p) = di_has_status p"
| "consumes (R2tOut p) = False"
| "consumes (NopInOut p) = False"
| "consumes (TextOut p) = True"
| "consumes (LogoutOut p) = True"
| "consumes (TaskMgmtOut p) = True"
| "consumes (RejectOut p) = True"

definition sn_step :: "u32 \<Rightarrow> connection \<Rightarrow> outbound list \<Rightarrow> bool" where
  "sn_step sn c' outs \<longleftrightarrow>
     (\<forall>out \<in> set outs. out_sn out = (sn, cn_exp_cmd_sn c', cn_exp_cmd_sn c' + QUEUE_DEPTH)) \<and>
     (\<forall>out \<in> set (butlast outs). \<not> consumes out) \<and>
     cn_stat_sn c' = (if outs \<noteq> [] \<and> consumes (last outs) then sn + 1 else sn)"

definition sn_result :: "u32 \<Rightarrow> handled \<Rightarrow> bool" where
  "sn_result sn res \<longleftrightarrow> (\<forall>r' c' outs. res = Inr (r', c', outs) \<longrightarrow> sn_step sn c' outs)"

lemma bump_sel [simp]: "cn_stat_sn (bump_stat_sn c) = cn_stat_sn c + 1"
  "cn_exp_cmd_sn (bump_stat_sn c) = cn_exp_cmd_sn c"
  by (simp_all add: bump_stat_sn_def)

lemma sn_rejected: "sn_result (cn_stat_sn c) (rejected r c reason bhs)"
  by (simp add: sn_result_def sn_step_def rejected_def reject_pdu_def max_cmd_sn_def)

lemma sn_finish_write: "sn_result (cn_stat_sn c) (finish_write r c p)"
  by (auto simp: sn_result_def sn_step_def finish_write_def scsi_resp_def max_cmd_sn_def split: sum.splits)

lemma sn_data_in_loop:
  "data_in_loop cmd bs seg c off sn = Inr (c', outs) \<Longrightarrow>
    sn_step (cn_stat_sn c) c' outs \<and> cn_exp_cmd_sn c' = cn_exp_cmd_sn c"
proof (induction cmd bs seg c off sn arbitrary: c' outs rule: data_in_loop.induct)
  case (1 cmd bs seg c off sn)
  define en where "en = min (off + seg) (length bs)"
  show ?case
  proof (cases "length bs \<le> off \<or> seg = 0 \<or> 2 ^ 32 \<le> sn + 1")
    case True
    with "1.prems" show ?thesis
      by (auto simp: data_in_loop.simps [of _ _ _ _ off] Let_def sn_step_def split: if_splits)
  next
    case False
    then have cs: "\<not> length bs \<le> off" "seg \<noteq> 0" "\<not> 2 ^ 32 \<le> sn + 1" by auto
    obtain pdu outs' where rec: "outs = DataInOut pdu # outs'"
      "data_in_loop cmd bs seg (if en = length bs then bump_stat_sn c else c) en (sn + 1) = Inr (c', outs')"
      "di_has_status pdu = (en = length bs)"
      "out_sn (DataInOut pdu) = (cn_stat_sn c, cn_exp_cmd_sn c, cn_exp_cmd_sn c + QUEUE_DEPTH)"
      using "1.prems" cs
      by (auto simp: data_in_loop.simps [of _ _ _ _ off] Let_def en_def [symmetric] max_cmd_sn_def split: sum.splits)
    show ?thesis
    proof (cases "en = length bs")
      case True
      with rec(2) have "c' = bump_stat_sn c" "outs' = []" by (simp_all add: data_in_loop.simps)
      with rec True show ?thesis by (simp add: sn_step_def)
    next
      case e: False
      then have "sn_step (cn_stat_sn c) c' outs' \<and> cn_exp_cmd_sn c' = cn_exp_cmd_sn c"
        using "1.IH" [OF cs(1,2) en_def refl refl refl cs(3)] rec(2) by simp
      with rec e show ?thesis by (auto simp: sn_step_def)
    qed
  qed
qed

lemma sn_begin_write: "sn_result (cn_stat_sn c) (begin_write r c cmd bhs)"
  using sn_rejected [of c] sn_finish_write [of c]
  by (auto simp: begin_write_def Let_def)
    (auto simp: sn_result_def sn_step_def r2t_pdu_def Let_def max_cmd_sn_def)

lemma sn_data_out: "sn_result (cn_stat_sn c) (handle_data_out r c d bhs)"
proof -
  let ?c = "c\<lparr>cn_in_flight := (cn_in_flight c)(do_itt d := None)\<rparr>"
  have "sn_result (cn_stat_sn c) (rejected r ?c reason bhs)" "sn_result (cn_stat_sn c) (finish_write r ?c p)" for reason p
    using sn_rejected [of ?c] sn_finish_write [of ?c] by simp_all
  then show ?thesis
    using sn_rejected [of c]
    by (auto simp: handle_data_out_def Let_def split: option.split)
      (auto simp: sn_result_def sn_step_def r2t_pdu_def Let_def max_cmd_sn_def)
qed

lemma sn_command: "sn_result (cn_stat_sn c) (handle_command r c cmd bhs)"
proof -
  let ?c = "c\<lparr>cn_exp_cmd_sn := cn_exp_cmd_sn c + 1\<rparr>"
  have "sn_result (cn_stat_sn c) (begin_write r ?c cmd bhs)" using sn_begin_write [of ?c] by simp
  moreover have "sn_result (cn_stat_sn c)
      (case data_in_chunks ?c cmd bs of Inl e \<Rightarrow> Inl e | Inr (c2, outs) \<Rightarrow> Inr (r', c2, outs))" for bs r'
    using sn_data_in_loop [of cmd bs _ ?c]
    by (auto simp: sn_result_def data_in_chunks_def split: sum.splits)
  moreover have "sn_result (cn_stat_sn c) (Inr (r', bump_stat_sn ?c, [scsi_resp ?c cmd oc res]))" for r' oc res
    by (simp add: sn_result_def sn_step_def scsi_resp_def max_cmd_sn_def)
  moreover have "sn_result (cn_stat_sn c) (Inl e)" for e by (simp add: sn_result_def)
  ultimately show ?thesis
    using sn_rejected [of c] by (simp add: handle_command_def Let_def split: sum.split prod.split)
qed

lemma sn_login: "cn_stat_sn c \<noteq> 0 \<Longrightarrow> sn_result (cn_stat_sn c) (handle_login r c q)"
  by (auto simp: handle_login_def Let_def login_fail_def sn_result_def sn_step_def max_cmd_sn_def split: option.split)

lemma sn_simple:
  "sn_result (cn_stat_sn c) (handle_nop r c n)" "sn_result (cn_stat_sn c) (handle_text r c t)"
  "sn_result (cn_stat_sn c) (handle_task_mgmt r c tm)" "sn_result (cn_stat_sn c) (handle_logout r c l)"
  by (simp_all add: sn_result_def sn_step_def handle_nop_def handle_text_def handle_task_mgmt_def
      handle_logout_def Let_def max_cmd_sn_def)

lemma sn_handle:
  assumes "cn_stage c \<noteq> LoginStage \<or> cn_stat_sn c \<noteq> 0"
  shows "sn_result (cn_stat_sn c) (handle r c req bhs)"
proof -
  have closing: "sn_result (cn_stat_sn c) (rejected r (c\<lparr>cn_stage := Closing\<rparr>) reason bhs)" for reason
    using sn_rejected [of "c\<lparr>cn_stage := Closing\<rparr>"] by simp
  show ?thesis
  proof (cases "cn_stage c")
    case LoginStage
    then show ?thesis using closing sn_login [of c] assms by (cases req) (simp_all add: handle_def)
  next
    case FullFeature
    then show ?thesis
      using sn_command sn_data_out sn_simple sn_rejected by (cases req) (simp_all add: handle_def)
  next
    case Closing
    then show ?thesis using closing by (simp add: handle_def)
  qed
qed

end
