(* ===== verification/Session_Data.thy ===== *)
theory Session_Data
  imports Session_Props
begin

text \<open>
  The data path end to end: the R2T loop that gathers a write, driven by an initiator that
  answers every R2T exactly; a write followed by a read of the same blocks; and what happens when
  an initiator sends the same range twice.
\<close>

section \<open>Gathering a write\<close>

definition answer_r2t :: "bytes \<Rightarrow> r2t \<Rightarrow> scsi_data_out" where
  "answer_r2t payload q = \<lparr>do_final = True, do_lun = r2_lun q, do_itt = r2_itt q, do_ttt = r2_ttt q,
     do_exp_stat_sn = r2_stat_sn q, do_data_sn = 0, do_buffer_offset = r2_buffer_offset q,
     do_data = window (unat (r2_buffer_offset q)) (unat (r2_desired_length q)) payload\<rparr>"

text \<open>The initiator keeps answering while the target's only response is an R2T.\<close>

primrec drive_write :: "nat \<Rightarrow> bytes \<Rightarrow> registry \<Rightarrow> connection \<Rightarrow> outbound list \<Rightarrow> handled" where
  "drive_write 0 payload r c outs = Inl Diverged"
| "drive_write (Suc n) payload r c outs =
     (case outs of
        [R2tOut q] \<Rightarrow>
          (case handle r c (DataOut (answer_r2t payload q)) [] of
             Inl e \<Rightarrow> Inl e
           | Inr (r', c', outs') \<Rightarrow> drive_write n payload r' c' outs')
      | _ \<Rightarrow> Inr (r, c, outs))"

definition gathered :: "bytes \<Rightarrow> pending_write \<Rightarrow> bool" where
  "gathered payload p \<longleftrightarrow> length payload = unat (sc_edtl (pw_cmd p)) \<and>
     length (pw_buf p) = length payload \<and> pw_received p \<le> length payload \<and>
     take (pw_received p) (pw_buf p) = take (pw_received p) payload \<and> pw_r2t_sn p \<le> pw_received p"

lemma finish_write_shape:
  "finish_write r c p = (case run_target r c (pw_cmd p) (pw_buf p) of Inl e \<Rightarrow> Inl e
     | Inr (r', oc) \<Rightarrow> Inr (r', bump_stat_sn c, [scsi_resp c (pw_cmd p) oc 0]))"
  by (simp add: finish_write_def)

lemma drive_write_done:
  assumes "run_target r c cmd bs = Inr (r', oc)"
  shows "drive_write (Suc n) payload r' (bump_stat_sn c) [scsi_resp c cmd oc 0]
    = Inr (r', bump_stat_sn c, [scsi_resp c cmd oc 0])"
  by (simp add: scsi_resp_def)

lemma put_take_payload:
  assumes "length buf = length payload" "off + n \<le> length payload" "take off buf = take off payload"
  shows "take (off + n) (put off (window off n payload) buf) = take (off + n) payload"
proof (rule nth_equalityI)
  fix j assume "j < length (take (off + n) (put off (window off n payload) buf))"
  then have j: "j < off + n" using assms by (simp add: length_put)
  have "buf ! j = payload ! j" if "j < off" using assms(3) that by (metis nth_take)
  moreover have "window off n payload ! (j - off) = payload ! j" if "off \<le> j"
    using that j assms(2) by simp
  ultimately show "take (off + n) (put off (window off n payload) buf) ! j = take (off + n) payload ! j"
    using j assms(1,2) by (auto simp: nth_put)
qed (use assms in \<open>simp add: length_put\<close>)

text \<open>One round: the Data-Out that answers the R2T moves the write forward or completes it.\<close>

lemma burst_step:
  assumes "cn_stage c = FullFeature" "0 < sp_max_burst (cn_params c)" "cn_in_flight c itt = Some p"
    and "gathered payload p" "pw_received p < length payload" "length payload < 2 ^ 32"
  shows "\<exists>p'. pw_cmd p' = pw_cmd p \<and> gathered payload p' \<and> pw_received p < pw_received p' \<and>
    drive_write (Suc fuel) payload r c [r2t_pdu c p itt] =
      (if pw_received p' < length payload
       then drive_write fuel payload r (c\<lparr>cn_in_flight := (cn_in_flight c)(itt \<mapsto> p')\<rparr>) [r2t_pdu c p' itt]
       else case finish_write r (c\<lparr>cn_in_flight := (cn_in_flight c)(itt := None)\<rparr>) p' of Inl e \<Rightarrow> Inl e
         | Inr (r', c', outs) \<Rightarrow> drive_write fuel payload r' c' outs)"
proof -
  let ?off = "pw_received p" and ?N = "length payload"
  define n where "n = min (?N - ?off) (sp_max_burst (cn_params c))"
  have edtl: "unat (sc_edtl (pw_cmd p)) = ?N" and len: "length (pw_buf p) = ?N"
    and pre: "take ?off (pw_buf p) = take ?off payload" and sn: "pw_r2t_sn p \<le> ?off"
    using assms(4) by (simp_all add: gathered_def)
  have n: "0 < n" "?off + n \<le> ?N" using assms(2,5) by (auto simp: n_def)
  have small: "?off < 2 ^ 32" "n < 2 ^ 32" "?off + n < 2 ^ 32" using n assms(6) by auto
  define d where "d = answer_r2t payload \<lparr>r2_lun = sc_lun (pw_cmd p), r2_itt = itt, r2_ttt = itt,
    r2_stat_sn = cn_stat_sn c, r2_exp_cmd_sn = cn_exp_cmd_sn c, r2_max_cmd_sn = max_cmd_sn c,
    r2_r2t_sn = of_nat (pw_r2t_sn p), r2_buffer_offset = of_nat ?off, r2_desired_length = of_nat n\<rparr>"
  have d: "do_itt d = itt" "unat (do_buffer_offset d) = ?off" "do_data d = window ?off n payload" "length (do_data d) = n"
    using small n by (simp_all add: d_def answer_r2t_def unat_of_nat)
  have go: "drive_write (Suc fuel) payload r c [r2t_pdu c p itt] =
      (case handle_data_out r c d [] of Inl e \<Rightarrow> Inl e
       | Inr (r', c', outs') \<Rightarrow> drive_write fuel payload r' c' outs')"
    using assms(1) by (simp add: r2t_pdu_def Let_def edtl n_def [symmetric] d_def handle_def)
  define p' where "p' = p\<lparr>pw_buf := put ?off (window ?off n payload) (pw_buf p), pw_received := ?off + n,
    pw_r2t_sn := (if ?off + n < ?N then pw_r2t_sn p + 1 else pw_r2t_sn p)\<rparr>"
  have "take (?off + n) (pw_buf p') = take (?off + n) payload" "length (pw_buf p') = ?N"
    using put_take_payload [OF len n(2) pre] n len by (simp_all add: p'_def length_put)
  then have whole: "gathered payload p'" using n sn by (simp add: gathered_def p'_def edtl)
  have sel: "pw_cmd p' = pw_cmd p" "pw_received p' = ?off + n" by (simp_all add: p'_def)
  have round: "drive_write (Suc fuel) payload r c [r2t_pdu c p itt] =
      (if ?off + n < ?N
       then drive_write fuel payload r (c\<lparr>cn_in_flight := (cn_in_flight c)(itt \<mapsto> p')\<rparr>) [r2t_pdu c p' itt]
       else case finish_write r (c\<lparr>cn_in_flight := (cn_in_flight c)(itt := None)\<rparr>) p' of Inl e \<Rightarrow> Inl e
         | Inr (r', c', outs) \<Rightarrow> drive_write fuel payload r' c' outs)"
  proof (cases "?off + n < ?N")
    case True
    then have p': "p' = p\<lparr>pw_buf := put ?off (window ?off n payload) (pw_buf p), pw_received := ?off + n,
        pw_r2t_sn := pw_r2t_sn p + 1\<rparr>" by (simp add: p'_def)
    have "handle_data_out r c d [] = Inr (r, c\<lparr>cn_in_flight := (cn_in_flight c)(itt \<mapsto> p')\<rparr>, [r2t_pdu c p' itt])"
      using assms(3) True n small d sn unfolding p' by (simp add: handle_data_out_def Let_def edtl len)
    then show ?thesis using True unfolding go by (simp only: sum.case prod.case if_True)
  next
    case False
    then have p': "p' = p\<lparr>pw_buf := put ?off (window ?off n payload) (pw_buf p), pw_received := ?off + n\<rparr>"
      by (simp add: p'_def)
    have "handle_data_out r c d [] = finish_write r (c\<lparr>cn_in_flight := (cn_in_flight c)(itt := None)\<rparr>) p'"
      using assms(3,6) False n small d unfolding p' by (simp add: handle_data_out_def Let_def edtl len)
    then show ?thesis using False unfolding go by (simp only: if_False)
  qed
  have "?off < pw_received p'" using n(1) sel by simp
  then show ?thesis
    by (intro exI [of _ p'] conjI) (rule sel(1), rule whole, assumption, rule round [folded sel(2)])
qed

lemma gathered_full: "gathered payload p \<Longrightarrow> \<not> pw_received p < length payload \<Longrightarrow> pw_buf p = payload"
proof -
  assume g: "gathered payload p" "\<not> pw_received p < length payload"
  then have "pw_received p = length payload" "length (pw_buf p) = length payload" by (auto simp: gathered_def)
  moreover have "take (pw_received p) (pw_buf p) = take (pw_received p) payload" using g(1) by (simp only: gathered_def)
  ultimately show ?thesis by simp
qed

lemma drive_write_gathers:
  assumes "cn_stage c = FullFeature" "0 < sp_max_burst (cn_params c)"
    and "cn_in_flight c itt = Some p" "gathered payload p" "pw_received p < length payload"
    and "length payload - pw_received p < fuel" "length payload < 2 ^ 32"
    and "run_target r c (pw_cmd p) payload = Inr (r', oc)"
  shows "\<exists>c'. cn_stage c' = FullFeature \<and> cn_in_flight c' = (cn_in_flight c)(itt := None) \<and>
    cn_target c' = cn_target c \<and>
    drive_write fuel payload r c [r2t_pdu c p itt] = Inr (r', bump_stat_sn c', [scsi_resp c' (pw_cmd p) oc 0])"
  using assms
proof (induction "length payload - pw_received p" arbitrary: c p fuel rule: less_induct)
  case less
  obtain fuel' where fuel: "fuel = Suc (Suc fuel')"
    using less.prems(5,6) by (metis Suc_lessI less_Suc_eq_0_disj not_less_zero old.nat.exhaust zero_less_diff)
  obtain p' where p': "pw_cmd p' = pw_cmd p" "gathered payload p'" "pw_received p < pw_received p'"
    and go: "drive_write fuel payload r c [r2t_pdu c p itt] =
      (if pw_received p' < length payload
       then drive_write (Suc fuel') payload r (c\<lparr>cn_in_flight := (cn_in_flight c)(itt \<mapsto> p')\<rparr>) [r2t_pdu c p' itt]
       else case finish_write r (c\<lparr>cn_in_flight := (cn_in_flight c)(itt := None)\<rparr>) p' of Inl e \<Rightarrow> Inl e
         | Inr (r', c', outs) \<Rightarrow> drive_write (Suc fuel') payload r' c' outs)"
    using burst_step [OF less.prems(1-5,7), of "Suc fuel'" r] fuel by auto
  show ?case
  proof (cases "pw_received p' < length payload")
    case True
    let ?c = "c\<lparr>cn_in_flight := (cn_in_flight c)(itt \<mapsto> p')\<rparr>"
    have "r2t_pdu c p' itt = r2t_pdu ?c p' itt" by (simp add: r2t_pdu_def Let_def max_cmd_sn_def)
    moreover have "run_target r ?c (pw_cmd p') payload = Inr (r', oc)"
      using less.prems(8) p'(1) run_target_cong [of ?c c] by simp
    ultimately show ?thesis
      using less.hyps [of p' ?c "Suc fuel'"] less.prems(1,2,5-7) p' go True fuel by auto
  next
    case False
    let ?c = "c\<lparr>cn_in_flight := (cn_in_flight c)(itt := None)\<rparr>"
    have "run_target r ?c (pw_cmd p') (pw_buf p') = Inr (r', oc)"
      using less.prems(8) p'(1) gathered_full [OF p'(2) False] run_target_cong [of ?c c] by simp
    then have "drive_write fuel payload r c [r2t_pdu c p itt] = Inr (r', bump_stat_sn ?c, [scsi_resp ?c (pw_cmd p) oc 0])"
      using go False p'(1) by (simp add: finish_write_def scsi_resp_def)
    then show ?thesis using less.prems(1) by (intro exI [of _ ?c]) simp
  qed
qed

text \<open>A whole WRITE: the command with its immediate data, then the R2T loop.\<close>

definition run_write :: "registry \<Rightarrow> connection \<Rightarrow> scsi_command \<Rightarrow> bytes \<Rightarrow> bytes \<Rightarrow> handled" where
  "run_write r c cmd bhs payload =
     (case handle r c (ScsiCommand cmd) bhs of Inl e \<Rightarrow> Inl e
      | Inr (r1, c1, outs) \<Rightarrow> drive_write (Suc (length payload)) payload r1 c1 outs)"

lemma run_write_gathers:
  assumes inv: "registry_inv r" "conn_inv r c" and ff: "cn_stage c = FullFeature"
    and w: "sc_write cmd" "length payload = unat (sc_edtl cmd)" "sc_data cmd = take k payload" "k \<le> length payload"
    and burst: "0 < sp_max_burst (cn_params c)" and free: "cn_in_flight c (sc_itt cmd) = None"
  shows "\<exists>r' oc c'. run_target r c cmd payload = Inr (r', oc) \<and> registry_inv r' \<and>
    cn_stage c' = FullFeature \<and> cn_in_flight c' = cn_in_flight c \<and> cn_target c' = cn_target c \<and>
    run_write r c cmd bhs payload = Inr (r', bump_stat_sn c', [scsi_resp c' cmd oc 0])"
proof -
  obtain i where i: "cn_target c = Some i" "i < length (reg_heap r)"
    using inv(2) ff by (auto simp: conn_inv_def)
  obtain r' oc where rt: "run_target r c cmd payload = Inr (r', oc)" "registry_inv r'"
    using run_target_ok [OF inv(1) i] by blast
  let ?c = "c\<lparr>cn_exp_cmd_sn := cn_exp_cmd_sn c + 1\<rparr>"
  have lim: "length payload < 2 ^ 32" using w(2) unsigned_less [of "sc_edtl cmd", where ?'a = nat] by simp
  have k: "length (sc_data cmd) = k" "k mod 2 ^ 32 = k" "unat (sc_edtl cmd) = length payload"
    using w lim by simp_all
  define p where "p = \<lparr>pw_cmd = cmd, pw_buf = put 0 (take k payload) (zeros (length payload)),
    pw_received = k, pw_r2t_sn = 0\<rparr>"
  have h: "handle r c (ScsiCommand cmd) bhs = begin_write r ?c cmd bhs"
    using ff i(1) w(1) by (simp add: handle_def handle_command_def Let_def)
  show ?thesis
  proof (cases "k = length payload")
    case True
    then have "put 0 (take k payload) (zeros (length payload)) = payload" by (simp add: put_whole)
    then have "begin_write r ?c cmd bhs = Inr (r', bump_stat_sn ?c, [scsi_resp ?c cmd oc 0])"
      using k True w(3) rt(1) run_target_cong [of ?c c]
      by (simp add: begin_write_def Let_def finish_write_def)
    then have "run_write r c cmd bhs payload = Inr (r', bump_stat_sn ?c, [scsi_resp ?c cmd oc 0])"
      using h drive_write_done [OF rt(1)] by (simp add: run_write_def scsi_resp_def)
    then show ?thesis using rt ff by (intro exI [of _ r'] exI [of _ oc] exI [of _ ?c]) simp
  next
    case False
    let ?c2 = "?c\<lparr>cn_in_flight := (cn_in_flight c)(sc_itt cmd \<mapsto> p)\<rparr>"
    have "begin_write r ?c cmd bhs = Inr (r, ?c2, [r2t_pdu ?c2 p (sc_itt cmd)])"
      using False k w(3,4) by (simp add: begin_write_def Let_def p_def r2t_pdu_def max_cmd_sn_def)
    then have rw: "run_write r c cmd bhs payload
        = drive_write (Suc (length payload)) payload r ?c2 [r2t_pdu ?c2 p (sc_itt cmd)]"
      using h by (simp add: run_write_def)
    have "gathered payload p"
      using w(4) k(3) by (simp add: gathered_def p_def length_put) (simp add: put_def)
    moreover have "run_target r ?c2 (pw_cmd p) payload = Inr (r', oc)"
      using rt(1) run_target_cong [of ?c2 c] by (simp add: p_def)
    moreover have "pw_cmd p = cmd" "pw_received p = k" by (simp_all add: p_def)
    moreover have "length payload - pw_received p < Suc (length payload)"
      unfolding less_Suc_eq_le by (rule diff_le_self)
    ultimately obtain c' where "cn_stage c' = FullFeature"
      "cn_in_flight c' = (cn_in_flight ?c2)(sc_itt cmd := None)" "cn_target c' = cn_target ?c2"
      "drive_write (Suc (length payload)) payload r ?c2 [r2t_pdu ?c2 p (sc_itt cmd)]
        = Inr (r', bump_stat_sn c', [scsi_resp c' (pw_cmd p) oc 0])"
      using drive_write_gathers [of ?c2 "sc_itt cmd" p payload "Suc (length payload)" r r' oc] ff burst False w(4) lim
      by (auto simp del: drive_write.simps)
    then show ?thesis
      using rw rt free \<open>pw_cmd p = cmd\<close>
      by (intro exI [of _ r'] exI [of _ oc] exI [of _ c']) (simp add: fun_upd_idem del: drive_write.simps)
  qed
qed

section \<open>A write is read back\<close>

definition is_read_op :: "u8 \<Rightarrow> bool" where
  "is_read_op op \<longleftrightarrow> op = 0x28 \<or> op = 0x88"

definition rw_extent :: "bytes \<Rightarrow> nat \<times> nat" where
  "rw_extent cdb =
     (if cdb ! 0 = 0x28 \<or> cdb ! 0 = 0x2a then (lba32 cdb, len16 cdb) else (lba64 cdb, len32_16 cdb))"

lemma dispatch_read: "is_read_op (cdb ! 0) \<Longrightarrow> rw_extent cdb = (lba, blocks) \<Longrightarrow>
    dispatch lu cdb buf = (lu, scsi_read lu lba blocks)"
  by (auto simp: is_read_op_def rw_extent_def dispatch_def)

lemma dispatch_write: "is_write_op (cdb ! 0) \<Longrightarrow> rw_extent cdb = (lba, blocks) \<Longrightarrow>
    dispatch lu cdb buf = scsi_write lu lba blocks buf"
  by (auto simp: is_write_op_def rw_extent_def dispatch_def)

lemma execute_dispatch:
  "lun_at t (sc_lun cmd) = Some (n, lu) \<Longrightarrow> sc_cdb cmd ! 0 \<noteq> 0xa0 \<Longrightarrow>
    dispatch lu (sc_cdb cmd) buf = (lu', res) \<Longrightarrow>
    execute t cmd buf = (t\<lparr>st_luns := (st_luns t)[n := Some lu']\<rparr>, res)"
  by (simp add: execute_def)

lemma lun_at_update:
  "lun_at t lun = Some (n, lu) \<Longrightarrow> lun_at (t\<lparr>st_luns := (st_luns t)[n := Some lu']\<rparr>) lun = Some (n, lu')"
  by (simp add: lun_at_Some)

lemma write_then_read_target:
  assumes inv: "target_inv t" and at: "lun_at t (sc_lun w) = Some (n, lu)"
    and w: "is_write_op (sc_cdb w ! 0)" "rw_extent (sc_cdb w) = (lba, blocks)"
    and rd: "is_read_op (sc_cdb rd ! 0)" "rw_extent (sc_cdb rd) = (lba, blocks)" "sc_lun rd = sc_lun w"
    and ext: "0 < blocks" "lba + blocks \<le> lu_capacity lu" "length payload = blocks * lu_block_size lu"
  shows "\<exists>t'. execute t w payload = (t', Inr outcome_ok) \<and> execute t' rd buf = (t', Inr (outcome_good payload))"
proof -
  have lu: "lu_inv lu" using target_inv_lun [OF inv at] .
  obtain v where v: "scsi_write lu lba blocks payload = (lu\<lparr>lu_volume := v\<rparr>, Inr outcome_ok)" "vol_inv v"
    "vol_size v = vol_size (lu_volume lu)" "vol_bytes v = put (lba * lu_block_size lu) payload (lu_bytes lu)"
    using scsi_write_ok [OF lu ext] by blast
  let ?lu = "lu\<lparr>lu_volume := v\<rparr>" and ?t = "t\<lparr>st_luns := (st_luns t)[n := Some (lu\<lparr>lu_volume := v\<rparr>)]\<rparr>"
  have ops: "sc_cdb w ! 0 \<noteq> 0xa0" "sc_cdb rd ! 0 \<noteq> 0xa0"
    using w(1) rd(1) by (auto simp: is_write_op_def is_read_op_def)
  have "execute t w payload = (?t, Inr outcome_ok)"
    using execute_dispatch [OF at ops(1)] dispatch_write [OF w] v(1) by simp
  moreover have lu': "lu_inv ?lu" "lu_capacity ?lu = lu_capacity lu"
    using lu v(2,3) by (simp_all add: lu_inv_def lu_capacity_def)
  have "scsi_read ?lu lba blocks = Inr (outcome_good payload)"
  proof -
    have "lba * lu_block_size lu + length payload \<le> length (lu_bytes lu)"
      using capacity_bytes [OF ext(2)] ext(3) by (simp add: lu_bytes_def)
    then have "window (lba * lu_block_size lu) (length payload) (lu_bytes ?lu) = payload"
      using v(4) by (simp add: lu_bytes_def window_put_same)
    then show ?thesis using scsi_read_ok [OF lu'(1) ext(1), of lba] ext(2,3) lu'(2) by simp
  qed
  then have "execute ?t rd buf = (?t, Inr (outcome_good payload))"
    using execute_dispatch [of ?t rd n ?lu buf] lun_at_update [OF at] rd(3) ops(2) dispatch_read [OF rd(1,2)]
    by simp
  ultimately show ?thesis by blast
qed

lemma write_then_read_session:
  assumes inv: "registry_inv r" "conn_inv r c" and ff: "cn_stage c = FullFeature"
    and tgt: "cn_target c = Some i" "lun_at (reg_heap r ! i) (sc_lun w) = Some (n, lu)"
    and w: "sc_write w" "is_write_op (sc_cdb w ! 0)" "rw_extent (sc_cdb w) = (lba, blocks)"
    and data: "length payload = unat (sc_edtl w)" "sc_data w = take k payload" "k \<le> length payload"
    and ext: "0 < blocks" "lba + blocks \<le> lu_capacity lu" "length payload = blocks * lu_block_size lu"
    and burst: "0 < sp_max_burst (cn_params c)" and free: "cn_in_flight c (sc_itt w) = None"
    and rd: "sc_read rd" "\<not> sc_write rd" "is_read_op (sc_cdb rd ! 0)" "rw_extent (sc_cdb rd) = (lba, blocks)"
      "sc_lun rd = sc_lun w"
  shows "\<exists>r1 c1 p c2 outs. run_write r c w bhs payload = Inr (r1, c1, [ScsiRespOut p]) \<and> sr_status p = GOOD \<and>
    handle r1 c1 (ScsiCommand rd) bhs' = Inr (r1, c2, outs) \<and> fold place outs (zeros (length payload)) = payload"
proof -
  have i: "i < length (reg_heap r)" using inv(2) tgt(1) by (simp add: conn_inv_def)
  have ti: "target_inv (reg_heap r ! i)" using inv(1) i by (simp add: registry_inv_def list_all_length)
  obtain t' where t': "execute (reg_heap r ! i) w payload = (t', Inr outcome_ok)"
    "\<And>buf. execute t' rd buf = (t', Inr (outcome_good payload))"
  proof -
    assume *: "\<And>t'. execute (reg_heap r ! i) w payload = (t', Inr outcome_ok) \<Longrightarrow>
      (\<And>buf. execute t' rd buf = (t', Inr (outcome_good payload))) \<Longrightarrow> thesis"
    have "\<exists>t'. execute (reg_heap r ! i) w payload = (t', Inr outcome_ok) \<and>
        execute t' rd buf = (t', Inr (outcome_good payload))" for buf
      by (rule write_then_read_target [OF ti tgt(2) w(2,3) rd(3-5) ext])
    then show thesis by (metis * prod.inject)
  qed
  let ?r = "r\<lparr>reg_heap := (reg_heap r)[i := t']\<rparr>"
  have rt: "run_target r c w payload = Inr (?r, outcome_ok)" using tgt(1) t'(1) by (simp add: run_target_def)
  obtain c' where c': "cn_stage c' = FullFeature" "cn_target c' = cn_target c"
    "run_write r c w bhs payload = Inr (?r, bump_stat_sn c', [scsi_resp c' w outcome_ok 0])"
    using run_write_gathers [OF inv ff w(1) data burst free, of bhs] rt by auto
  let ?c = "bump_stat_sn c'" and ?c1 = "(bump_stat_sn c')\<lparr>cn_exp_cmd_sn := cn_exp_cmd_sn (bump_stat_sn c') + 1\<rparr>"
  have "payload \<noteq> []"
    using ext(1,3) target_inv_lun [OF ti tgt(2)] by (auto simp: lu_inv_def)
  moreover have "length payload < 2 ^ 32" using data(1) unsigned_less [of "sc_edtl w", where ?'a = nat] by simp
  ultimately obtain c2 outs where d: "data_in_chunks ?c1 rd payload = Inr (c2, outs)"
      "fold place outs (zeros (length payload)) = payload"
    using data_in_chunks_closed [of payload ?c1 rd] data_in_reassembly [of payload ?c1 rd] by blast
  have "?r\<lparr>reg_heap := (reg_heap ?r)[i := t']\<rparr> = ?r" by simp
  then have "run_target ?r ?c1 rd (sc_data rd) = Inr (?r, outcome_good payload)"
    using c'(2) tgt(1) t'(2) i by (simp add: run_target_def bump_stat_sn_def)
  then have "handle ?r ?c (ScsiCommand rd) bhs' = Inr (?r, c2, outs)"
    using c'(1,2) tgt(1) rd(1,2) d(1) \<open>payload \<noteq> []\<close>
    by (simp add: handle_def handle_command_def Let_def GOOD_def bump_stat_sn_def)
  then show ?thesis
    using c'(3) d(2) by (intro exI) (auto simp: scsi_resp_def)
qed

section \<open>Isolation and duplicates\<close>

definition heap_step :: "registry \<Rightarrow> connection \<Rightarrow> handled \<Rightarrow> bool" where
  "heap_step r c res \<longleftrightarrow> (\<forall>r' c' outs j. res = Inr (r', c', outs) \<longrightarrow> cn_target c \<noteq> Some j \<longrightarrow>
     reg_heap r' ! j = reg_heap r ! j)"

lemma heap_run_target: "run_target r c cmd bs = Inr (r', oc) \<Longrightarrow> cn_target c \<noteq> Some j \<Longrightarrow>
    reg_heap r' ! j = reg_heap r ! j"
  by (auto simp: run_target_def split: option.splits prod.splits sum.splits)

lemma heap_finish: "cn_target c' = cn_target c \<Longrightarrow> heap_step r c (finish_write r c' p)"
  by (auto simp: heap_step_def finish_write_def split: sum.splits dest: heap_run_target)

lemma heap_rejected: "heap_step r c (rejected r c' reason bhs)"
  by (simp add: heap_step_def rejected_def reject_pdu_def)

lemma heap_same: "heap_step r c (Inr (r, c', outs))" "heap_step r c (Inl e)"
  by (simp_all add: heap_step_def)

lemma heap_handle: "heap_step r c (handle r c req bhs)"
proof -
  have bw: "heap_step r c (begin_write r c' cmd bhs)" if "cn_target c' = cn_target c" for c' cmd
    using that by (simp add: begin_write_def Let_def heap_rejected heap_finish heap_same)
  have "heap_step r c (handle_command r c cmd bhs)" for cmd
  proof -
    let ?c = "c\<lparr>cn_exp_cmd_sn := cn_exp_cmd_sn c + 1\<rparr>"
    have "heap_step r c (Inr (r', c', outs))" if "run_target r ?c cmd bs = Inr (r', oc)" for r' c' outs bs oc
      using heap_run_target [OF that] by (simp add: heap_step_def)
    then show ?thesis
      using bw [of ?c cmd] by (simp add: handle_command_def Let_def heap_rejected heap_same split: sum.split)
  qed
  moreover have "heap_step r c (handle_data_out r c d bhs)" for d
    by (simp add: handle_data_out_def Let_def heap_rejected heap_finish heap_same split: option.split)
  ultimately show ?thesis
    by (cases "cn_stage c"; cases req)
      (simp_all add: handle_def heap_rejected heap_same handle_nop_def handle_text_def handle_task_mgmt_def
        handle_logout_def handle_login_def login_fail_def Let_def split: option.split)
qed

text \<open>
  \<open>received\<close> counts bytes, not coverage: the same half sent twice completes the write, and the
  other half is written as zeros.
\<close>

lemma duplicate_completes:
  assumes "registry_inv r" "conn_inv r c" "cn_stage c = FullFeature"
    and "cn_in_flight c (do_itt d) = Some p" "pw_received p = 0" "pw_buf p = zeros (2 * m)" "pw_r2t_sn p = 0"
    and "do_buffer_offset d = 0" "length (do_data d) = m" "0 < m"
  shows "\<exists>c1 q r2 c2 p2 oc. handle r c (DataOut d) bhs = Inr (r, c1, [R2tOut q]) \<and>
    unat (r2_buffer_offset q) = m \<and> handle r c1 (DataOut d) bhs = Inr (r2, c2, [ScsiRespOut p2]) \<and>
    run_target r c (pw_cmd p) (do_data d @ zeros m) = Inr (r2, oc) \<and> sr_status p2 = oc_status oc"
proof -
  have pk: "pending_ok (do_itt d) p" using assms(2,4) by (auto simp: conn_inv_def)
  then have edtl: "unat (sc_edtl (pw_cmd p)) = 2 * m" using assms(6) by (simp add: pending_ok_def)
  then have lim: "2 * m < 2 ^ 32" using unsigned_less [of "sc_edtl (pw_cmd p)", where ?'a = nat] by simp
  obtain i where i: "cn_target c = Some i" "i < length (reg_heap r)"
    using assms(2,3) by (auto simp: conn_inv_def)
  obtain r2 oc where rt: "run_target r c (pw_cmd p) (do_data d @ zeros m) = Inr (r2, oc)"
    using run_target_ok [OF assms(1) i] by blast
  have half: "put 0 (do_data d) (zeros (2 * m)) = do_data d @ zeros m"
    using assms(9) by (simp add: put_def zeros_def)
  have full: "put 0 (do_data d) (do_data d @ zeros m) = do_data d @ zeros m" by (simp add: put_def)
  define p1 where "p1 = p\<lparr>pw_buf := do_data d @ zeros m, pw_received := m, pw_r2t_sn := 1\<rparr>"
  define c1 where "c1 = c\<lparr>cn_in_flight := (cn_in_flight c)(do_itt d \<mapsto> p1)\<rparr>"
  have h1: "handle r c (DataOut d) bhs = Inr (r, c1, [r2t_pdu c p1 (do_itt d)])"
    using assms lim edtl half by (simp add: handle_def handle_data_out_def Let_def c1_def p1_def)
  have off: "unat (of_nat m :: u32) = m" using lim by (simp add: unat_of_nat)
  let ?c2 = "c1\<lparr>cn_in_flight := (cn_in_flight c1)(do_itt d := None)\<rparr>"
  have "run_target r ?c2 (pw_cmd p) (do_data d @ zeros m) = Inr (r2, oc)"
    using rt run_target_cong [of ?c2 c] by (simp add: c1_def)
  then have h2: "handle r c1 (DataOut d) bhs = Inr (r2, bump_stat_sn ?c2, [scsi_resp ?c2 (pw_cmd p) oc 0])"
    using assms(3,8,9) lim edtl full
    by (simp add: handle_def handle_data_out_def Let_def c1_def p1_def finish_write_def)
  show ?thesis
    using h1 h2 rt off by (auto simp: r2t_pdu_def Let_def p1_def scsi_resp_def)
qed

end
