(* ===== verification/Transport.thy ===== *)
theory Transport
  imports Session_Data
begin

text \<open>
  The framing loop of the TCP adapter (\<open>iscsi/transport.rs\<close> \<open>handle_conn\<close>), without the socket:
  \<open>drain\<close> is the inner loop over the receive buffer, \<open>feed\<close> one turn of the outer loop with the
  bytes of one \<open>read\<close>, and \<open>drain_link\<close> and \<open>link_feed\<close> the same when writes can fail. \<open>dr_sent\<close> is what
  \<open>write_all\<close> was given. The loop around is in \<open>Link\<close>; lines that only log are not modelled.
\<close>

section \<open>The framing loop\<close>

record drained =
  dr_registry :: registry
  dr_conn :: connection
  dr_buf :: bytes
  dr_sent :: bytes
  dr_open :: bool

definition waiting :: "registry \<Rightarrow> connection \<Rightarrow> bytes \<Rightarrow> drained" where
  "waiting r c buf = \<lparr>dr_registry = r, dr_conn = c, dr_buf = buf, dr_sent = [], dr_open = True\<rparr>"

definition closed :: "registry \<Rightarrow> connection \<Rightarrow> bytes \<Rightarrow> drained" where
  "closed r c sent = \<lparr>dr_registry = r, dr_conn = c, dr_buf = [], dr_sent = sent, dr_open = False\<rparr>"

definition encode_all :: "outbound list \<Rightarrow> bytes" where
  "encode_all outs = concat (map encode_outbound outs)"

definition after_sending :: "bytes \<Rightarrow> drained io \<Rightarrow> drained io" where
  "after_sending sent res =
     (case res of Inl e \<Rightarrow> Inl e | Inr d \<Rightarrow> Inr (d\<lparr>dr_sent := sent @ dr_sent d\<rparr>))"

function drain :: "registry \<Rightarrow> connection \<Rightarrow> bytes \<Rightarrow> drained io" where
  "drain r c buf =
     (case decode buf of
        Inr (req, used) \<Rightarrow>
          (case handle r c req (take BHS_LEN buf) of
             Inl e \<Rightarrow> Inl e
           | Inr (r', c', outs) \<Rightarrow>
               if cn_stage c' = Closing then Inr (closed r' c' (encode_all outs))
               else after_sending (encode_all outs) (drain r' c' (drop used buf)))
      | Inl e \<Rightarrow>
          Inr (if e = ShortHeader \<or> e = ShortData then waiting r c buf else closed r c []))"
  by pat_completeness auto
termination
proof (relation "measure (\<lambda>(r, c, buf). length buf)")
  fix r :: registry and c :: connection and buf and x and req and used
  fix y and r' :: registry and z and c' :: connection and outs
  assume "decode buf = Inr x" "(req, used) = x"
  then have "decode buf = Inr (req, used)" by simp
  then have "BHS_LEN \<le> used" "used \<le> length buf" using decode_consumed by blast+
  then show "((r', c', drop used buf), (r, c, buf)) \<in> measure (\<lambda>(r, c, buf). length buf)"
    by (simp add: BHS_LEN_def)
qed simp

declare drain.simps [simp del]

definition feed :: "drained io \<Rightarrow> bytes \<Rightarrow> drained io" where
  "feed s chunk =
     (case s of Inl e \<Rightarrow> Inl e
      | Inr d \<Rightarrow>
          if dr_open d then after_sending (dr_sent d) (drain (dr_registry d) (dr_conn d) (dr_buf d @ chunk))
          else Inr d)"

definition conn_start :: "registry \<Rightarrow> drained io" where
  "conn_start r = Inr (waiting r connection_new [])"

lemma after_sending_simps [simp]:
  "after_sending s (Inl e) = Inl e" "after_sending s (Inr d) = Inr (d\<lparr>dr_sent := s @ dr_sent d\<rparr>)"
  by (simp_all add: after_sending_def)

lemma after_sending_twice: "after_sending s (after_sending t res) = after_sending (s @ t) res"
  by (cases res) simp_all

text \<open>
  The same loop with a socket whose writes can fail: \<open>wr n\<close> is what the connection's \<open>n\<close>-th
  \<open>write_all\<close> does, \<open>None\<close> to write all its bytes and \<open>Some j\<close> to fail after \<open>j\<close> of them. A connection
  that has returned (\<open>Finished\<close> with \<open>Ok\<close>, \<open>Broken\<close> with an error) has no buffer any more.
\<close>

datatype conn_end = Reading | Finished | Broken

record conn_link =
  lk_registry :: registry
  lk_conn :: connection
  lk_buf :: bytes
  lk_sent :: bytes
  lk_writes :: nat
  lk_end :: conn_end

type_synonym write_results = "nat \<Rightarrow> nat option"

primrec write_outs :: "write_results \<Rightarrow> nat \<Rightarrow> outbound list \<Rightarrow> bytes \<times> nat \<times> bool" where
  "write_outs wr n [] = ([], n, True)"
| "write_outs wr n (out # outs) =
     (case wr n of
        Some j \<Rightarrow> (take j (encode_outbound out), Suc n, False)
      | None \<Rightarrow>
          (case write_outs wr (Suc n) outs of (sent, n', ok) \<Rightarrow> (encode_outbound out @ sent, n', ok)))"

definition sending :: "bytes \<Rightarrow> conn_link io \<Rightarrow> conn_link io" where
  "sending sent = map_sum id (\<lambda>l. l\<lparr>lk_sent := sent @ lk_sent l\<rparr>)"

function drain_link :: "write_results \<Rightarrow> registry \<Rightarrow> connection \<Rightarrow> bytes \<Rightarrow> nat \<Rightarrow> conn_link io" where
  "drain_link wr r c buf n =
     (case decode buf of
        Inr (req, used) \<Rightarrow>
          (case handle r c req (take BHS_LEN buf) of
             Inl e \<Rightarrow> Inl e
           | Inr (r', c', outs) \<Rightarrow>
               (case write_outs wr n outs of (sent, n', ok) \<Rightarrow>
                  if \<not> ok then Inr \<lparr>lk_registry = r', lk_conn = c', lk_buf = [], lk_sent = sent, lk_writes = n', lk_end = Broken\<rparr>
                  else if cn_stage c' = Closing then
                    Inr \<lparr>lk_registry = r', lk_conn = c', lk_buf = [], lk_sent = sent, lk_writes = n', lk_end = Finished\<rparr>
                  else sending sent (drain_link wr r' c' (drop used buf) n')))
      | Inl e \<Rightarrow>
          Inr (if e = ShortHeader \<or> e = ShortData
               then \<lparr>lk_registry = r, lk_conn = c, lk_buf = buf, lk_sent = [], lk_writes = n, lk_end = Reading\<rparr>
               else \<lparr>lk_registry = r, lk_conn = c, lk_buf = [], lk_sent = [], lk_writes = n, lk_end = Finished\<rparr>))"
  by pat_completeness auto
termination
proof (relation "measure (\<lambda>(wr, r, c, buf, n). length buf)")
  fix wr :: write_results and r :: registry and c :: connection and buf n x req used y and r' :: registry
  fix z and c' :: connection and outs u and sent :: bytes and v n' ok
  assume "decode buf = Inr x" "(req, used) = x"
  then have "decode buf = Inr (req, used)" by simp
  then have "BHS_LEN \<le> used" "used \<le> length buf" using decode_consumed by blast+
  then show "((wr, r', c', drop used buf, n'), (wr, r, c, buf, n)) \<in> measure (\<lambda>(wr, r, c, buf, n). length buf)"
    by (simp add: BHS_LEN_def)
qed simp

declare drain_link.simps [simp del]

definition link_feed :: "write_results \<Rightarrow> conn_link io \<Rightarrow> bytes \<Rightarrow> conn_link io" where
  "link_feed wr s chunk =
     (case s of Inl e \<Rightarrow> Inl e
      | Inr l \<Rightarrow>
          if lk_end l = Reading
          then sending (lk_sent l) (drain_link wr (lk_registry l) (lk_conn l) (lk_buf l @ chunk) (lk_writes l))
          else Inr l)"

lemma sending_simps [simp]:
  "sending s (Inl e) = Inl e" "sending s (Inr l) = Inr (l\<lparr>lk_sent := s @ lk_sent l\<rparr>)"
  by (simp_all add: sending_def)

lemma sending_twice: "sending s (sending t res) = sending (s @ t) res"
  by (cases res) simp_all

lemma sending_feed: "link_feed wr (sending t res) b = sending t (link_feed wr res b)"
  by (cases res) (auto simp: link_feed_def sending_twice)

text \<open>Bytes that arrive later are handled as if they had been there from the start.\<close>

lemma drain_link_append: "drain_link wr r c (a @ b) n = link_feed wr (drain_link wr r c a n) b"
proof (induction wr r c a n rule: drain_link.induct)
  case (1 wr r c a n)
  show ?case
  proof (cases "decode a")
    case (Inl e)
    show ?thesis
    proof (cases "e = ShortHeader \<or> e = ShortData")
      case True
      then show ?thesis
        using Inl by (cases "drain_link wr r c (a @ b) n") (auto simp: drain_link.simps [of wr r c a] link_feed_def)
    next
      case False
      then have "decode (a @ b) = Inl e" using Inl decode_error_stable by (cases e) auto
      with Inl False show ?thesis
        by (simp add: drain_link.simps [of wr r c a] drain_link.simps [of wr r c "a @ b"] link_feed_def)
    qed
  next
    case (Inr p)
    obtain req used where d: "decode a = Inr (req, used)" using Inr by (cases p) auto
    have len: "BHS_LEN \<le> used" "used \<le> length a" using decode_consumed [OF d] by auto
    have ab: "decode (a @ b) = Inr (req, used)" "take BHS_LEN (a @ b) = take BHS_LEN a"
      "drop used (a @ b) = drop used a @ b"
      using decode_append [OF d] len by simp_all
    show ?thesis
    proof (cases "handle r c req (take BHS_LEN a)")
      case (Inl e)
      then show ?thesis
        using d ab by (simp add: drain_link.simps [of wr r c a] drain_link.simps [of wr r c "a @ b"] link_feed_def
            del: take_append drop_append)
    next
      case (Inr q)
      obtain r' c' outs where h: "handle r c req (take BHS_LEN a) = Inr (r', c', outs)"
        using Inr by (cases q) auto
      obtain sent n' ok where w: "write_outs wr n outs = (sent, n', ok)" by (cases "write_outs wr n outs")
      have IH: "drain_link wr r' c' (drop used a @ b) n' = link_feed wr (drain_link wr r' c' (drop used a) n') b"
        if "ok" "cn_stage c' \<noteq> Closing"
        using "1.IH" [OF d refl h refl refl w [symmetric] refl] that by simp
      show ?thesis
        using d ab h w IH
        by (simp add: drain_link.simps [of wr r c a] drain_link.simps [of wr r c "a @ b"] sending_feed
            del: take_append drop_append) (simp add: link_feed_def)
    qed
  qed
qed

text \<open>When no write fails it is \<open>drain\<close>.\<close>

definition link_view :: "conn_link io \<Rightarrow> drained io" where
  "link_view = map_sum id (\<lambda>l. \<lparr>dr_registry = lk_registry l, dr_conn = lk_conn l, dr_buf = lk_buf l,
     dr_sent = lk_sent l, dr_open = (lk_end l = Reading)\<rparr>)"

lemma link_view_simps [simp]:
  "link_view (Inl e) = Inl e"
  "link_view (Inr l) = Inr \<lparr>dr_registry = lk_registry l, dr_conn = lk_conn l, dr_buf = lk_buf l,
     dr_sent = lk_sent l, dr_open = (lk_end l = Reading)\<rparr>"
  by (simp_all add: link_view_def)

lemma link_view_sending: "link_view (sending s res) = after_sending s (link_view res)"
  by (cases res) simp_all

lemma write_outs_all: "\<forall>n. wr n = None \<Longrightarrow> write_outs wr n outs = (encode_all outs, n + length outs, True)"
  by (induction outs arbitrary: n) (simp_all add: encode_all_def)

lemma drain_view: "link_view (drain_link (\<lambda>_. None) r c buf n) = drain r c buf"
proof (induction r c buf arbitrary: n rule: drain.induct)
  case (1 r c buf)
  show ?case
  proof (cases "decode buf")
    case (Inl e)
    then show ?thesis by (simp add: drain.simps [of r c buf] drain_link.simps [of _ r c buf] waiting_def closed_def)
  next
    case (Inr p)
    obtain req used where d: "decode buf = Inr (req, used)" using Inr by (cases p) auto
    show ?thesis
    proof (cases "handle r c req (take BHS_LEN buf)")
      case (Inl e)
      then show ?thesis using d by (simp add: drain.simps [of r c buf] drain_link.simps [of _ r c buf])
    next
      case (Inr q)
      obtain r' c' outs where h: "handle r c req (take BHS_LEN buf) = Inr (r', c', outs)"
        using Inr by (cases q) auto
      show ?thesis
        using d h "1.IH" [OF d refl h refl refl]
        by (simp add: drain.simps [of r c buf] drain_link.simps [of _ r c buf] write_outs_all link_view_sending closed_def)
    qed
  qed
qed

lemma feed_view: "link_view (link_feed (\<lambda>_. None) s b) = feed (link_view s) b"
  by (cases s) (auto simp: link_feed_def feed_def link_view_sending drain_view)

lemma drain_append: "drain r c (a @ b) = feed (drain r c a) b"
  by (simp add: drain_view [of r c _ 0, symmetric] drain_link_append feed_view)

text \<open>Between two reads the loop has nothing left to do with the bytes it has.\<close>

definition settled :: "drained io \<Rightarrow> bool" where
  "settled s \<longleftrightarrow> feed s [] = s"

lemma settled_start: "settled (conn_start r)"
  by (simp add: settled_def conn_start_def feed_def waiting_def drain.simps decode_def BHS_LEN_def)

lemma feed_feed: "feed (feed s a) b = feed s (a @ b)"
proof (cases s)
  case (Inr d)
  have "feed (after_sending t res) b = after_sending t (feed res b)" for t res
    by (cases res) (auto simp: feed_def after_sending_twice)
  then show ?thesis
    using drain_append [of "dr_registry d" "dr_conn d" "dr_buf d @ a" b] Inr
    by (simp add: feed_def [of s] ) (simp add: feed_def)
qed (simp add: feed_def)

lemma settled_feed: "settled (feed s a)"
  by (simp add: settled_def feed_feed)

lemma feed_concat: "settled s \<Longrightarrow> foldl feed s chunks = feed s (concat chunks)"
proof (induction chunks arbitrary: s)
  case (Cons a chunks)
  then show ?case using settled_feed by (simp add: feed_feed)
qed (simp add: settled_def)

section \<open>A stream of requests\<close>

text \<open>What the loop does with well-formed requests, request by request.\<close>

primrec serve_all :: "bool \<Rightarrow> registry \<Rightarrow> connection \<Rightarrow> request list \<Rightarrow> drained io" where
  "serve_all imm r c [] = Inr (waiting r c [])"
| "serve_all imm r c (req # reqs) =
     (case handle r c req (take BHS_LEN (encode_request imm req)) of
        Inl e \<Rightarrow> Inl e
      | Inr (r', c', outs) \<Rightarrow>
          if cn_stage c' = Closing then Inr (closed r' c' (encode_all outs))
          else after_sending (encode_all outs) (serve_all imm r' c' reqs))"

lemma drain_requests:
  "list_all request_ok reqs \<Longrightarrow> drain r c (concat (map (encode_request imm) reqs)) = serve_all imm r c reqs"
proof (induction reqs arbitrary: r c)
  case Nil
  then show ?case by (simp add: drain.simps decode_def BHS_LEN_def)
next
  case (Cons req reqs)
  have d: "decode (encode_request imm req @ concat (map (encode_request imm) reqs)) =
      Inr (req, length (encode_request imm req))"
    using Cons.prems by (intro decode_encode) simp
  then have "BHS_LEN \<le> length (encode_request imm req)" using decode_consumed(1) by blast
  then show ?case
    using d Cons
    by (simp add: drain.simps [of r c "encode_request imm req @ concat (map (encode_request imm) reqs)"]
        split: sum.split prod.split)
qed

section \<open>What goes on the wire\<close>

text \<open>A PDU the initiator can frame: its header says how long it is.\<close>

definition pdu_wf :: "bytes \<Rightarrow> bool" where
  "pdu_wf p \<longleftrightarrow> BHS_LEN \<le> length p \<and> p ! 4 = 0 \<and>
     length p = BHS_LEN + be24 p 5 + pad4 (be24 p 5) \<and> length p mod 4 = 0"

primrec out_ok :: "outbound \<Rightarrow> bool" where
  "out_ok (LoginOut p) \<longleftrightarrow> length (lr_isid p) = 6 \<and> length (encode_pairs (lr_text p)) < 2 ^ 24"
| "out_ok (ScsiRespOut p) \<longleftrightarrow> length (sr_sense p) < 2 ^ 24"
| "out_ok (DataInOut p) \<longleftrightarrow> length (di_data p) < 2 ^ 24"
| "out_ok (R2tOut p) \<longleftrightarrow> True"
| "out_ok (NopInOut p) \<longleftrightarrow> length (ni_data p) < 2 ^ 24"
| "out_ok (TextOut p) \<longleftrightarrow> length (encode_pairs (tr_text p)) < 2 ^ 24"
| "out_ok (LogoutOut p) \<longleftrightarrow> True"
| "out_ok (TaskMgmtOut p) \<longleftrightarrow> True"
| "out_ok (RejectOut p) \<longleftrightarrow> length (rj_header p) < 2 ^ 24"

lemma frame_window: "length h = BHS_LEN \<Longrightarrow> off + n \<le> BHS_LEN \<Longrightarrow>
    window off n (frame h d) = window off n (put 5 (be_bytes 3 (length d)) h)"
  by (simp add: frame_def window_append1 length_put BHS_LEN_def)

lemma frame_be32: "length h = BHS_LEN \<Longrightarrow> off + 4 \<le> BHS_LEN \<Longrightarrow>
    be32 (frame h d) off = be32 (put 5 (be_bytes 3 (length d)) h) off"
  by (simp add: be32_def frame_window)

lemma frame_wf:
  assumes "length h = BHS_LEN" "h ! 4 = 0" "length d < 2 ^ 24"
  shows "pdu_wf (frame h d)"
proof -
  have len: "length (frame h d) = BHS_LEN + length d + pad4 (length d)"
    using assms(1) by (simp add: frame_def length_put BHS_LEN_def)
  moreover have "be24 (frame h d) 5 = length d"
    using assms frame_window [of h 5 3 d]
    by (simp add: be24_def window_put_same' BHS_LEN_def)
  moreover have "frame h d ! 4 = 0"
    using assms(1,2) by (simp add: frame_def nth_append length_put nth_put BHS_LEN_def)
  moreover have "length (frame h d) mod 4 = 0"
  proof -
    have "length (frame h d) = (length d + pad4 (length d)) + 12 * 4" using len by (simp add: BHS_LEN_def)
    then show ?thesis using pad4_dvd [of "length d"] by (simp only: mod_mult_self1)
  qed
  ultimately show ?thesis by (simp add: pdu_wf_def)
qed

lemma puts_wf: "puts_fit 48 ps \<Longrightarrow> puts_clear 4 1 ps \<Longrightarrow> puts_field 4 1 ps [0] = [0] \<Longrightarrow> length d < 2 ^ 24 \<Longrightarrow>
    pdu_wf (frame (puts ps (zeros 48)) d)"
  by (rule frame_wf) (simp_all add: length_puts nth_puts BHS_LEN_def)

lemma encode_outbound_wf: "out_ok out \<Longrightarrow> pdu_wf (encode_outbound out)"
  by (cases out)
    (simp_all add: encode_login_response_def encode_scsi_response_def encode_data_in_def encode_r2t_def
      encode_nop_in_def encode_text_response_def encode_logout_response_def
      encode_task_mgmt_response_def encode_reject_def puts_wf puts_fit_def puts_clear_def puts_field_def BHS_LEN_def)

lemma encode_outbound_sn:
  "out_ok out \<Longrightarrow> (be32 (encode_outbound out) 24, be32 (encode_outbound out) 28, be32 (encode_outbound out) 32)
    = out_sn out"
  by (cases out)
    (simp_all add: encode_login_response_def encode_scsi_response_def encode_data_in_def encode_r2t_def
      encode_nop_in_def encode_text_response_def encode_logout_response_def
      encode_task_mgmt_response_def encode_reject_def frame_be32 bhs_eval)

end
