(* ===== verification/Boot.thy ===== *)
theory Boot
  imports Backing Config Transport
begin

text \<open>
  The client manager (\<open>manager/mod.rs\<close>) and the HTTP boot-script server (\<open>net/http/mod.rs\<close>,
  \<open>boot_script.rs\<close>). A request is its method, path and query; a response its status and body.
  Serving \<open>/boot.ipxe\<close> registers a fresh target for the client: a copy-on-write volume over each
  of its disks.
\<close>

section \<open>The client manager\<close>

record client_config =
  cc_mac :: rstr
  cc_name :: "rstr option"
  cc_system :: rstr
  cc_games :: "rstr list"
  cc_writeback :: rstr

datatype build_error = OpenBacking rstr io_error

definition arc_store :: "backing \<Rightarrow> backing" where
  "arc_store b = \<lparr>bs_size = bs_size b, bs_read = bs_read b\<rparr>"

record client_manager =
  mg_clients :: "rstr \<Rightarrow> client_config option"
  mg_defaults :: "client_config option"
  mg_stores :: "rstr \<Rightarrow> backing option"

definition client_config_of :: "(rstr \<Rightarrow> rstr) \<Rightarrow> client \<Rightarrow> client_config" where
  "client_config_of uni c = \<lparr>cc_mac = to_lowercase uni (cl_mac c), cc_name = cl_name c,
     cc_system = cl_system c, cc_games = cl_games c, cc_writeback = cl_writeback c\<rparr>"

definition default_config :: "client_defaults \<Rightarrow> client_config" where
  "default_config d = \<lparr>cc_mac = [], cc_name = None, cc_system = cd_system d, cc_games = cd_games d,
     cc_writeback = cd_writeback d\<rparr>"

primrec open_stores :: "storage_env \<Rightarrow> disk list \<Rightarrow> (rstr \<Rightarrow> backing option) \<Rightarrow> build_error + (rstr \<Rightarrow> backing option)" where
  "open_stores env [] stores = Inr stores"
| "open_stores env (d # ds) stores =
     (if dk_type d = Image \<or> dk_type d = Game then
        (case open_backing env (dk_backing d) of
           Inl e \<Rightarrow> Inl (OpenBacking (dk_backing d) e)
         | Inr store \<Rightarrow> open_stores env ds (stores(dk_id d \<mapsto> store)))
      else open_stores env ds stores)"

definition manager_new :: "storage_env \<Rightarrow> config \<Rightarrow> build_error + client_manager" where
  "manager_new env cfg =
     (let uni = se_lower env;
          clients = fold (\<lambda>c m. m(to_lowercase uni (cl_mac c) \<mapsto> client_config_of uni c)) (cf_clients cfg) (\<lambda>_. None);
          defaults = map_option default_config (cf_client_defaults cfg) in
      case open_stores env (cf_disks cfg) (\<lambda>_. None) of
        Inl e \<Rightarrow> Inl e
      | Inr stores \<Rightarrow> Inr \<lparr>mg_clients = clients, mg_defaults = defaults, mg_stores = stores\<rparr>)"

definition resolve :: "(rstr \<Rightarrow> rstr) \<Rightarrow> client_manager \<Rightarrow> rstr \<Rightarrow> client_config option" where
  "resolve uni m mac =
     (case mg_clients m (to_lowercase uni mac) of Some c \<Rightarrow> Some c | None \<Rightarrow> mg_defaults m)"

definition get_store :: "client_manager \<Rightarrow> rstr \<Rightarrow> backing option" where
  "get_store m disk_id = mg_stores m disk_id"

lemma find_snoc:
  "find P (xs @ [x]) = (case find P xs of Some y \<Rightarrow> Some y | None \<Rightarrow> if P x then Some x else None)"
  by (induction xs) auto

lemma fold_clients:
  "fold (\<lambda>c m. m(f c \<mapsto> g c)) cs m k =
    (case find (\<lambda>c. f c = k) (rev cs) of Some c \<Rightarrow> Some (g c) | None \<Rightarrow> m k)"
proof (induction cs arbitrary: m)
  case (Cons c cs)
  show ?case
    unfolding fold.simps o_apply Cons.IH rev.simps find_snoc
    by (cases "find (\<lambda>c. f c = k) (rev cs)") auto
qed simp

lemma resolve_spec:
  assumes "manager_new env cfg = Inr m"
  shows "resolve (se_lower env) m mac =
    (case find (\<lambda>c. to_lowercase (se_lower env) (cl_mac c) = to_lowercase (se_lower env) mac) (rev (cf_clients cfg)) of
       Some c \<Rightarrow> Some (client_config_of (se_lower env) c)
     | None \<Rightarrow> map_option default_config (cf_client_defaults cfg))"
proof -
  have "mg_clients m = fold (\<lambda>c m. m(to_lowercase (se_lower env) (cl_mac c) \<mapsto> client_config_of (se_lower env) c))
      (cf_clients cfg) (\<lambda>_. None)" "mg_defaults m = map_option default_config (cf_client_defaults cfg)"
    using assms by (auto simp: manager_new_def Let_def split: sum.splits)
  then show ?thesis
    by (auto simp: resolve_def fold_clients split: option.split)
qed

lemma open_stores_keep:
  "open_stores env ds stores = Inr stores' \<Longrightarrow> i \<notin> dk_id ` set ds \<Longrightarrow> stores' i = stores i"
  by (induction ds arbitrary: stores) (auto split: if_splits sum.splits)

lemma open_stores_disk:
  assumes "open_stores env ds stores = Inr stores'" "distinct (map dk_id ds)" "d \<in> set ds"
    and "dk_type d = Image \<or> dk_type d = Game"
  shows "\<exists>b. open_backing env (dk_backing d) = Inr b \<and> stores' (dk_id d) = Some b"
  using assms(1-3)
proof (induction ds arbitrary: stores)
  case (Cons d' ds)
  show ?case
  proof (cases "d' = d")
    case True
    then obtain b where "open_backing env (dk_backing d) = Inr b" "open_stores env ds (stores(dk_id d \<mapsto> b)) = Inr stores'"
      using Cons.prems(1) assms(4) by (auto split: sum.splits if_splits)
    then show ?thesis using open_stores_keep [of env ds _ stores' "dk_id d"] Cons.prems(2) True by auto
  next
    case False
    then obtain s where "open_stores env ds s = Inr stores'" "d \<in> set ds"
      using Cons.prems(1,3) by (auto split: sum.splits if_splits)
    then show ?thesis using Cons.IH Cons.prems(2) by simp
  qed
qed simp

lemma manager_store:
  assumes "manager_new env cfg = Inr m" "config_ok is_dir cfg" "is_disk cfg ty i" "ty = Image \<or> ty = Game"
  shows "\<exists>d b. d \<in> set (cf_disks cfg) \<and> dk_id d = i \<and> open_backing env (dk_backing d) = Inr b \<and> get_store m i = Some b"
proof -
  obtain d where d: "d \<in> set (cf_disks cfg)" "dk_id d = i" "dk_type d = ty" using assms(3) by (auto simp: is_disk_def)
  have "open_stores env (cf_disks cfg) (\<lambda>_. None) = Inr (mg_stores m)"
    using assms(1) by (auto simp: manager_new_def Let_def split: sum.splits)
  moreover have "distinct (map dk_id (cf_disks cfg))" using assms(2) by (simp add: config_ok_def)
  ultimately obtain b where "open_backing env (dk_backing d) = Inr b" "mg_stores m (dk_id d) = Some b"
    using open_stores_disk d(1,3) assms(4) by blast
  with d show ?thesis by (auto simp: get_store_def)
qed

lemma resolve_profile:
  assumes "manager_new env cfg = Inr m" "config_ok is_dir cfg" "resolve (se_lower env) m mac = Some c"
  shows "profile_ok cfg (cc_system c) (cc_games c) (cc_writeback c)"
proof -
  consider (known) cl where "cl \<in> set (cf_clients cfg)" "c = client_config_of (se_lower env) cl"
    | (default) d where "cf_client_defaults cfg = Some d" "c = default_config d"
    using assms(3) unfolding resolve_spec [OF assms(1)]
    by (auto simp: find_Some_iff split: option.splits) (metis nth_mem set_rev length_rev)
  then show ?thesis
    using assms(2) by cases (auto simp: config_ok_def list_all_iff client_config_of_def default_config_def)
qed

section \<open>Requests\<close>

definition hex_val :: "u8 \<Rightarrow> u8 option" where
  "hex_val b =
     (if 48 \<le> b \<and> b \<le> 57 then Some (b - 48)
      else if 65 \<le> b \<and> b \<le> 70 then Some (b - 65 + 10)
      else if 97 \<le> b \<and> b \<le> 102 then Some (b - 97 + 10) else None)"

text \<open>\<open>String::push(b as char)\<close>: a byte from 128 up is the two-byte encoding of U+0080 to U+00FF.\<close>

definition push_char :: "u8 \<Rightarrow> rstr" where
  "push_char b = (if b < 128 then [b] else [0xC0 OR drop_bit 6 b, 0x80 OR (b AND 0x3f)])"

fun decode_percent :: "bytes \<Rightarrow> rstr" where
  "decode_percent (b # h # l # rest) =
     (if b = 37 then
        (case (hex_val h, hex_val l) of
           (Some hi, Some lo) \<Rightarrow> push_char (push_bit 4 hi OR lo) @ decode_percent rest
         | _ \<Rightarrow> push_char b @ decode_percent (h # l # rest))
      else push_char b @ decode_percent (h # l # rest))"
| "decode_percent [b, h] = push_char b @ push_char h"
| "decode_percent [b] = push_char b"
| "decode_percent [] = []"

fun first_mac :: "rstr list \<Rightarrow> rstr option" where
  "first_mac [] = None"
| "first_mac (pair # pairs) =
     (case strip_prefix (ascii ''mac='') pair of Some v \<Rightarrow> Some (decode_percent v) | None \<Rightarrow> first_mac pairs)"

definition parse_mac_param :: "rstr \<Rightarrow> rstr option" where
  "parse_mac_param query = first_mac (split_on (\<lambda>b. b = 38) query)"

definition client_iqn :: "client_config \<Rightarrow> rstr" where
  "client_iqn c = ascii ''iqn.2026-06.dev.xboot:'' @ (case cc_name c of Some n \<Rightarrow> n | None \<Rightarrow> cc_mac c)"

definition ipv4_string :: "bytes \<Rightarrow> rstr" where
  "ipv4_string ip =
     dec (unat (ip ! 0)) @ [46] @ dec (unat (ip ! 1)) @ [46] @ dec (unat (ip ! 2)) @ [46] @ dec (unat (ip ! 3))"

definition boot_script :: "rstr \<Rightarrow> rstr \<Rightarrow> rstr" where
  "boot_script iqn server_ip =
     ascii ''#!ipxe'' @ [10] @ ascii ''set initiator-iqn '' @ iqn @ [10]
     @ ascii ''sanboot iscsi:'' @ server_ip @ ascii ''::::'' @ iqn @ [10]"

record http_request =
  hq_get :: bool
  hq_path :: rstr
  hq_query :: "rstr option"

record http_response =
  hr_status :: nat
  hr_body :: bytes

definition not_found :: http_response where
  "not_found = \<lparr>hr_status = 404, hr_body = ascii ''Not Found''\<rparr>"

definition bad_request :: "rstr \<Rightarrow> http_response" where
  "bad_request msg = \<lparr>hr_status = 400, hr_body = msg\<rparr>"

definition fresh_unit :: "backing \<Rightarrow> logical_unit" where
  "fresh_unit store = lu_new (vol_new (arc_store store) ov_new)"

definition build_target :: "client_manager \<Rightarrow> client_config \<Rightarrow> rstr \<Rightarrow> scsi_target" where
  "build_target m c iqn =
     \<lparr>st_luns =
        (case get_store m (cc_system c) of None \<Rightarrow> []
         | Some store \<Rightarrow> [Some (with_serial iqn (fresh_unit store))])
        @ List.map_filter (\<lambda>g. map_option (\<lambda>store. Some (fresh_unit store)) (get_store m g)) (cc_games c)\<rparr>"

definition http_handle ::
  "(rstr \<Rightarrow> rstr) \<Rightarrow> config \<Rightarrow> client_manager \<Rightarrow> registry \<Rightarrow> http_request \<Rightarrow> (http_response \<times> registry) io" where
  "http_handle uni cfg m r req =
     (if \<not> hq_get req \<or> hq_path req \<noteq> ascii ''/boot.ipxe'' then Inr (not_found, r)
      else case (case hq_query req of None \<Rightarrow> None | Some q \<Rightarrow> parse_mac_param q) of
        None \<Rightarrow> Inr (bad_request (ascii ''Missing '' @ [39] @ ascii ''mac'' @ [39] @ ascii '' parameter''), r)
      | Some mac \<Rightarrow>
          (case resolve uni m mac of None \<Rightarrow> Inr (not_found, r)
           | Some c \<Rightarrow>
               (case cf_boot cfg of None \<Rightarrow> Inl Panicked
                | Some boot \<Rightarrow>
                    let iqn = client_iqn c;
                        r' = registry_insert iqn (build_target m c iqn) r in
                    Inr (\<lparr>hr_status = 200, hr_body = boot_script iqn (ipv4_string (bc_server_ip boot))\<rparr>, r'))))"

section \<open>Percent decoding\<close>

text \<open>A sender may escape any byte, with either case of hex digits.\<close>

definition hex_digit :: "bool \<Rightarrow> u8 \<Rightarrow> u8" where
  "hex_digit upper n = (if n < 10 then 48 + n else if upper then 55 + n else 87 + n)"

definition pct_byte :: "bool \<Rightarrow> bool \<Rightarrow> u8 \<Rightarrow> bytes" where
  "pct_byte escape upper b =
     (if escape \<or> b = 37 then [37, hex_digit upper (drop_bit 4 b), hex_digit upper (b AND 0x0f)] else [b])"

lemma hex_val_digit:
  assumes "n < 16"
  shows "hex_val (hex_digit upper n) = Some n"
proof -
  have n: "unat n < 16" using assms by (simp add: word_less_nat_alt)
  have add: "unat (k + n) = unat k + unat n" if "unat k < 100" for k
    using that n by (intro unat_add_lem [THEN iffD1]) simp
  have d: "unat (48 + n) = 48 + unat n" "unat (55 + n) = 55 + unat n" "unat (87 + n) = 87 + unat n"
    by (simp_all add: add)
  consider "unat n < 10" | "10 \<le> unat n" by linarith
  then show ?thesis
  proof cases
    case 1
    then have "hex_digit upper n = 48 + n" by (simp add: hex_digit_def word_less_nat_alt)
    moreover have "48 \<le> 48 + n" "48 + n \<le> 57" using 1 d by (simp_all add: word_le_nat_alt)
    ultimately show ?thesis by (simp add: hex_val_def)
  next
    case 2
    then have h: "hex_digit upper n = (if upper then 55 + n else 87 + n)"
      by (simp add: hex_digit_def word_less_nat_alt)
    have "\<not> 55 + n \<le> 57" "65 \<le> 55 + n" "55 + n \<le> 70" "\<not> 87 + n \<le> 57" "\<not> 87 + n \<le> 70" "97 \<le> 87 + n" "87 + n \<le> 102"
      using 2 n d by (simp_all add: word_le_nat_alt)
    then show ?thesis by (simp add: hex_val_def h)
  qed
qed

lemma nibbles: "drop_bit 4 (b :: u8) < 16" "b AND 0x0f < 16" "push_bit 4 (drop_bit 4 b) OR (b AND 0x0f) = b"
proof -
  have "unat (drop_bit 4 b) = unat b div 16" by (simp add: drop_bit_eq_div unat_div)
  then show "drop_bit 4 b < 16" using unat_u8_lt [of b] by (simp add: word_less_nat_alt less_mult_imp_div_less)
  have m: "(0x0f :: u8) = mask 4" by (simp add: mask_eq_exp_minus_1)
  have "unat (b AND mask 4) = unat b mod 16"
    by (simp add: take_bit_eq_mod unat_mod flip: take_bit_eq_mask)
  then show "b AND 0x0f < 16" unfolding m by (simp add: word_less_nat_alt)
  show "push_bit 4 (drop_bit 4 b) OR (b AND 0x0f) = b"
    unfolding m by (rule bit_word_eqI) (auto simp: bit_simps)
qed

lemma decode_percent_plain: "b \<noteq> 37 \<Longrightarrow> decode_percent (b # bs) = push_char b @ decode_percent bs"
  by (cases bs rule: list.exhaust; cases "tl bs") auto

lemma decode_percent_encode:
  "list_all (\<lambda>b. b < 128) s \<Longrightarrow> decode_percent (concat (map (\<lambda>b. pct_byte (esc b) (up b) b) s)) = s"
proof (induction s)
  case (Cons b s)
  show ?case
  proof (cases "esc b \<or> b = 37")
    case True
    then show ?thesis
      using Cons hex_val_digit [OF nibbles(1), of "up b" b] hex_val_digit [OF nibbles(2), of "up b" b] nibbles(3) [of b]
      by (simp add: pct_byte_def push_char_def)
  next
    case False
    then show ?thesis using Cons by (simp add: pct_byte_def decode_percent_plain push_char_def)
  qed
qed simp

section \<open>What a boot request sets up\<close>

lemma arc_store_id [simp]: "arc_store b = b"
  by (simp add: arc_store_def)

lemma fresh_unit_bytes: "serves s \<Longrightarrow> lu_bytes (fresh_unit s) = disk_bytes s"
  by (simp add: lu_bytes_def fresh_unit_def lu_new_def vol_bytes_new)

lemma fresh_unit_inv: "serves s \<Longrightarrow> bs_size s < u64_lim \<Longrightarrow> lu_inv (fresh_unit s)"
  by (simp add: fresh_unit_def lu_inv_new vol_inv_new)

lemma with_serial_unit [simp]: "lu_inv (with_serial sn lu) = lu_inv lu" "lu_bytes (with_serial sn lu) = lu_bytes lu"
  by (simp_all add: with_serial_def lu_inv_def lu_bytes_def)

text \<open>The images the server was started on keep their contract.\<close>

definition images_ok :: "client_manager \<Rightarrow> bool" where
  "images_ok m \<longleftrightarrow> (\<forall>i b. get_store m i = Some b \<longrightarrow> serves b \<and> bs_size b < u64_lim)"

lemma build_target_luns:
  assumes "get_store m (cc_system c) = Some s" "\<forall>g \<in> set (cc_games c). get_store m g \<noteq> None"
  shows "st_luns (build_target m c iqn) =
    Some (with_serial iqn (fresh_unit s)) # map (\<lambda>g. Some (fresh_unit (the (get_store m g)))) (cc_games c)"
proof -
  have "List.map_filter (\<lambda>g. map_option (\<lambda>store. Some (fresh_unit store)) (get_store m g)) gs
      = map (\<lambda>g. Some (fresh_unit (the (get_store m g)))) gs" if "\<forall>g \<in> set gs. get_store m g \<noteq> None" for gs
    using that by (induction gs) (auto simp: map_filter_simps)
  then show ?thesis using assms by (simp add: build_target_def)
qed

lemma build_target_inv: "images_ok m \<Longrightarrow> target_inv (build_target m c iqn)"
  by (auto simp: target_inv_def build_target_def images_ok_def map_filter_def fresh_unit_inv
      split: option.splits if_splits)

lemma client_stores:
  assumes "manager_new env cfg = Inr m" "config_ok is_dir cfg" "resolve (se_lower env) m mac = Some c"
  shows "\<exists>s. get_store m (cc_system c) = Some s" "\<forall>g \<in> set (cc_games c). get_store m g \<noteq> None"
proof -
  have p: "profile_ok cfg (cc_system c) (cc_games c) (cc_writeback c)" using resolve_profile [OF assms] .
  then show "\<exists>s. get_store m (cc_system c) = Some s"
    using manager_store [OF assms(1,2), of Image] by (auto simp: profile_ok_def)
  have "get_store m g \<noteq> None" if "g \<in> set (cc_games c)" for g
    using p that manager_store [OF assms(1,2), of Game g] by (auto simp: profile_ok_def list_all_iff)
  then show "\<forall>g \<in> set (cc_games c). get_store m g \<noteq> None" by blast
qed

definition boot_request :: "rstr \<Rightarrow> http_request \<Rightarrow> bool" where
  "boot_request mac req \<longleftrightarrow> hq_get req \<and> hq_path req = ascii ''/boot.ipxe'' \<and>
     (\<exists>q. hq_query req = Some q \<and> parse_mac_param q = Some mac)"

lemma http_boot:
  assumes "boot_request mac req" "resolve uni m mac = Some c" "cf_boot cfg = Some boot"
  shows "http_handle uni cfg m r req =
    Inr (\<lparr>hr_status = 200, hr_body = boot_script (client_iqn c) (ipv4_string (bc_server_ip boot))\<rparr>,
         registry_insert (client_iqn c) (build_target m c (client_iqn c)) r)"
  using assms by (auto simp: boot_request_def http_handle_def Let_def)

lemma http_handle_cases:
  assumes "http_handle uni cfg m r req = Inr (resp, r')"
  shows "r' = r \<and> hr_status resp \<noteq> 200 \<or>
    (\<exists>mac c. boot_request mac req \<and> resolve uni m mac = Some c \<and> hr_status resp = 200 \<and>
       r' = registry_insert (client_iqn c) (build_target m c (client_iqn c)) r)"
  using assms
  by (auto simp: http_handle_def boot_request_def not_found_def bad_request_def Let_def
      split: if_splits option.splits)

lemma http_registry_inv:
  assumes "http_handle uni cfg m r req = Inr (resp, r')" "registry_inv r" "images_ok m"
  shows "registry_inv r' \<and> (\<forall>i < length (reg_heap r). reg_heap r' ! i = reg_heap r ! i) \<and>
    (\<forall>c. conn_inv r c \<longrightarrow> conn_inv r' c)"
  using http_handle_cases [OF assms(1)]
proof
  assume "\<exists>mac c. boot_request mac req \<and> resolve uni m mac = Some c \<and> hr_status resp = 200 \<and>
      r' = registry_insert (client_iqn c) (build_target m c (client_iqn c)) r"
  then obtain c where r': "r' = registry_insert (client_iqn c) (build_target m c (client_iqn c)) r" by blast
  have "length (reg_heap r') = Suc (length (reg_heap r))" by (simp add: r' registry_insert_def)
  then have "conn_inv r' k" if "conn_inv r k" for k
    using that unfolding conn_inv_def by (metis less_SucI)
  then show ?thesis
    using registry_inv_insert [OF assms(2) build_target_inv [OF assms(3)]] registry_heap_insert(2)
    by (simp add: r')
qed (use assms(2) in simp)

lemma login_finds:
  assumes "registry_get r iqn = Some i" "cn_stage c = LoginStage" "cn_target c = None"
    and "find (\<lambda>kv. fst kv = ascii ''TargetName'') (lq_text q) = Some (k, iqn)"
    and "lq_transit q" "lq_nsg q = 3"
  shows "\<exists>c' p. handle r c (Login q) bhs = Inr (r, c', [LoginOut p]) \<and> lr_status_class p = 0 \<and>
    cn_stage c' = FullFeature \<and> cn_target c' = Some i"
  using assms
  by (simp add: handle_def handle_login_def resolve_target_def Let_def bump_stat_sn_def)

end
