(* ===== verification/Dhcp.thy ===== *)
theory Dhcp
  imports Boot
begin

text \<open>
  The proxyDHCP server (\<open>net/dhcp/\<close>): the packet codec (\<open>packet.rs\<close>), the option accessors
  (\<open>options.rs\<close>), the decision core (\<open>decide.rs\<close>) and the reply to one datagram (\<open>server.rs\<close>). An
  IPv4 address is its four octets. Nothing is kept between two datagrams.
\<close>

section \<open>Packets\<close>

definition MAGIC_COOKIE :: bytes where
  "MAGIC_COOKIE = [0x63, 0x82, 0x53, 0x63]"

definition BOOTREQUEST :: u8 where
  "BOOTREQUEST = 1"

definition BOOTREPLY :: u8 where
  "BOOTREPLY = 2"

definition COOKIE_OFFSET :: nat where
  "COOKIE_OFFSET = 236"

definition MIN_LEN :: nat where
  "MIN_LEN = 240"

record dhcp_option =
  op_code :: u8
  op_data :: bytes

record dhcp_message =
  dm_op :: u8
  dm_htype :: u8
  dm_hlen :: u8
  dm_hops :: u8
  dm_xid :: u32
  dm_secs :: u16
  dm_flags :: u16
  dm_ciaddr :: bytes
  dm_yiaddr :: bytes
  dm_siaddr :: bytes
  dm_giaddr :: bytes
  dm_chaddr :: bytes
  dm_options :: "dhcp_option list"

datatype dhcp_parse_error = TooShort nat | BadCookie | TruncatedOption u8

function parse_options :: "bytes \<Rightarrow> dhcp_parse_error + dhcp_option list" where
  "parse_options [] = Inr []"
| "parse_options (code # rest) =
     (if code = 0 then parse_options rest
      else if code = 255 then Inr []
      else case rest of
        [] \<Rightarrow> Inl (TruncatedOption code)
      | len # body \<Rightarrow>
          (if unat len > length body then Inl (TruncatedOption code)
           else case parse_options (drop (unat len) body) of
             Inl e \<Rightarrow> Inl e
           | Inr opts \<Rightarrow> Inr (\<lparr>op_code = code, op_data = take (unat len) body\<rparr> # opts)))"
  by pat_completeness auto
termination
  by (relation "measure length") auto

definition dhcp_parse :: "bytes \<Rightarrow> dhcp_parse_error + dhcp_message" where
  "dhcp_parse buf =
     (if length buf < MIN_LEN then Inl (TooShort (length buf))
      else if window COOKIE_OFFSET 4 buf \<noteq> MAGIC_COOKIE then Inl BadCookie
      else case parse_options (drop MIN_LEN buf) of
        Inl e \<Rightarrow> Inl e
      | Inr opts \<Rightarrow> Inr \<lparr>dm_op = buf ! 0, dm_htype = buf ! 1, dm_hlen = buf ! 2, dm_hops = buf ! 3,
          dm_xid = be32 buf 4, dm_secs = be16 buf 8, dm_flags = be16 buf 10,
          dm_ciaddr = window 12 4 buf, dm_yiaddr = window 16 4 buf, dm_siaddr = window 20 4 buf,
          dm_giaddr = window 24 4 buf, dm_chaddr = window 28 16 buf, dm_options = opts\<rparr>)"

text \<open>A checked build asserts that an option fits its one-byte length.\<close>

primrec encode_options :: "dhcp_option list \<Rightarrow> bytes io" where
  "encode_options [] = Inr [255]"
| "encode_options (opt # opts) =
     (if length (op_data opt) > 255 then Inl Panicked
      else case encode_options opts of
        Inl e \<Rightarrow> Inl e
      | Inr out \<Rightarrow> Inr ([op_code opt, of_nat (length (op_data opt))] @ op_data opt @ out))"

definition encode_header :: "dhcp_message \<Rightarrow> bytes" where
  "encode_header m = puts
     [(0, [dm_op m]), (1, [dm_htype m]), (2, [dm_hlen m]), (3, [dm_hops m]),
      (4, word_field 4 (dm_xid m)), (8, word_field 2 (dm_secs m)), (10, word_field 2 (dm_flags m)),
      (12, dm_ciaddr m), (16, dm_yiaddr m), (20, dm_siaddr m), (24, dm_giaddr m), (28, dm_chaddr m),
      (COOKIE_OFFSET, MAGIC_COOKIE)] (zeros MIN_LEN)"

definition dhcp_encode :: "dhcp_message \<Rightarrow> bytes io" where
  "dhcp_encode m = map_sum id (\<lambda>out. encode_header m @ out) (encode_options (dm_options m))"

section \<open>Options\<close>

definition MSG_TYPE :: u8 where "MSG_TYPE = 53"
definition SERVER_ID :: u8 where "SERVER_ID = 54"
definition TFTP_SERVER_NAME :: u8 where "TFTP_SERVER_NAME = 66"
definition BOOTFILE_NAME :: u8 where "BOOTFILE_NAME = 67"
definition VENDOR_CLASS_ID :: u8 where "VENDOR_CLASS_ID = 60"
definition USER_CLASS :: u8 where "USER_CLASS = 77"
definition CLIENT_SYSTEM_ARCH :: u8 where "CLIENT_SYSTEM_ARCH = 93"
definition VENDOR_SPECIFIC :: u8 where "VENDOR_SPECIFIC = 43"

definition DISCOVER :: u8 where "DISCOVER = 1"
definition OFFER :: u8 where "OFFER = 2"
definition REQUEST :: u8 where "REQUEST = 3"
definition ACK :: u8 where "ACK = 5"

lemmas dhcp_codes = MSG_TYPE_def SERVER_ID_def TFTP_SERVER_NAME_def BOOTFILE_NAME_def VENDOR_CLASS_ID_def
  USER_CLASS_def CLIENT_SYSTEM_ARCH_def VENDOR_SPECIFIC_def DISCOVER_def OFFER_def REQUEST_def ACK_def

definition msg_option :: "dhcp_message \<Rightarrow> u8 \<Rightarrow> bytes option" where
  "msg_option m code = map_option op_data (find (\<lambda>o'. op_code o' = code) (dm_options m))"

definition message_type :: "dhcp_message \<Rightarrow> u8 option" where
  "message_type m = (case msg_option m MSG_TYPE of None \<Rightarrow> None | Some d \<Rightarrow> (case d of [] \<Rightarrow> None | b # _ \<Rightarrow> Some b))"

definition vendor_class :: "dhcp_message \<Rightarrow> bytes option" where
  "vendor_class m = msg_option m VENDOR_CLASS_ID"

definition client_arch :: "dhcp_message \<Rightarrow> u16 option" where
  "client_arch m =
     (case msg_option m CLIENT_SYSTEM_ARCH of None \<Rightarrow> None
      | Some d \<Rightarrow> if length d \<ge> 2 then Some (be16 d 0) else None)"

definition user_class :: "dhcp_message \<Rightarrow> bytes option" where
  "user_class m = msg_option m USER_CLASS"

definition pxe_offer_vendor_opts :: "bytes \<Rightarrow> bytes" where
  "pxe_offer_vendor_opts server_ip =
     (let bs = [0x00, 0x00] @ [1] @ server_ip in
      [6, 1, 0x0F] @ [8] @ [of_nat (length bs)] @ bs @ [255])"

definition pxe_ack_vendor_opts :: bytes where
  "pxe_ack_vendor_opts = [71, 4] @ [0x00, 0x00, 0x00, 0x00] @ [255]"

section \<open>The decision\<close>

definition ARCH_BIOS_X86 :: u16 where "ARCH_BIOS_X86 = 0x0000"
definition ARCH_UEFI_X64 :: u16 where "ARCH_UEFI_X64 = 0x0007"
definition ARCH_UEFI_X64_ALT :: u16 where "ARCH_UEFI_X64_ALT = 0x0009"

record offer_plan =
  pl_bootfile :: rstr
  pl_next_server :: "bytes option"
  pl_yiaddr :: bytes

definition assign_ip_from_mac :: "bytes \<Rightarrow> bytes \<Rightarrow> bytes option" where
  "assign_ip_from_mac mac server_ip =
     (if mac = [] then None
      else let last_byte = mac ! (length mac - 1) in
        if last_byte < 2 \<or> last_byte = 255
        then Some [server_ip ! 0, server_ip ! 1, server_ip ! 2, 100 + last_byte]
        else Some [server_ip ! 0, server_ip ! 1, server_ip ! 2, last_byte])"

definition is_ipxe :: "dhcp_message \<Rightarrow> bool" where
  "is_ipxe m =
     (case user_class m of None \<Rightarrow> False
      | Some uc \<Rightarrow> list_ex (\<lambda>i. window i 4 uc = ascii ''iPXE'') [0..<length uc - 3])"

definition hex2 :: "u8 \<Rightarrow> rstr" where
  "hex2 b = [hex_digit False (drop_bit 4 b), hex_digit False (b AND 0x0f)]"

fun join :: "rstr \<Rightarrow> rstr list \<Rightarrow> rstr" where
  "join sep [] = []"
| "join sep [s] = s"
| "join sep (s # ss) = s @ sep @ join sep ss"

definition format_mac :: "bytes \<Rightarrow> rstr" where
  "format_mac bs = join [58] (map hex2 bs)"

definition hw_addr :: "dhcp_message \<Rightarrow> bytes" where
  "hw_addr m = take (min (unat (dm_hlen m)) 16) (dm_chaddr m)"

definition plan :: "dhcp_message \<Rightarrow> boot_config \<Rightarrow> offer_plan option" where
  "plan m cfg =
     (case assign_ip_from_mac (hw_addr m) (bc_server_ip cfg) of
        None \<Rightarrow> None
      | Some yiaddr \<Rightarrow>
          if is_ipxe m then
            Some \<lparr>pl_bootfile = bc_http_script_url cfg @ ascii ''?mac='' @ format_mac (hw_addr m),
                  pl_next_server = None, pl_yiaddr = yiaddr\<rparr>
          else
            (case client_arch m of
               None \<Rightarrow> None
             | Some arch \<Rightarrow>
                 if arch = ARCH_BIOS_X86 then
                   Some \<lparr>pl_bootfile = bc_bios_filename cfg, pl_next_server = Some (bc_server_ip cfg), pl_yiaddr = yiaddr\<rparr>
                 else if arch = ARCH_UEFI_X64 \<or> arch = ARCH_UEFI_X64_ALT then
                   Some \<lparr>pl_bootfile = bc_uefi_filename cfg, pl_next_server = Some (bc_server_ip cfg), pl_yiaddr = yiaddr\<rparr>
                 else None))"

section \<open>The server\<close>

datatype role = DhcpServer | ProxyDhcp | BootServer

type_synonym sock_addr = "bytes \<times> u16"

definition BROADCAST_FLAG :: u16 where "BROADCAST_FLAG = 0x8000"
definition UNSPECIFIED :: bytes where "UNSPECIFIED = [0, 0, 0, 0]"
definition BROADCAST :: bytes where "BROADCAST = [255, 255, 255, 255]"

definition reply_options :: "offer_plan \<Rightarrow> boot_config \<Rightarrow> u8 \<Rightarrow> bytes \<Rightarrow> role \<Rightarrow> dhcp_option list" where
  "reply_options pl cfg mtype vendor43 role =
     [\<lparr>op_code = MSG_TYPE, op_data = [mtype]\<rparr>]
     @ (if role = DhcpServer \<or> role = BootServer
        then [\<lparr>op_code = SERVER_ID, op_data = bc_server_ip cfg\<rparr>] else [])
     @ [\<lparr>op_code = VENDOR_CLASS_ID, op_data = ascii ''PXEClient''\<rparr>]
     @ (if role = ProxyDhcp \<or> role = BootServer
        then [\<lparr>op_code = BOOTFILE_NAME, op_data = pl_bootfile pl\<rparr>]
          @ (case pl_next_server pl of None \<Rightarrow> []
             | Some ns \<Rightarrow> [\<lparr>op_code = TFTP_SERVER_NAME, op_data = ipv4_string ns\<rparr>])
        else [])
     @ [\<lparr>op_code = VENDOR_SPECIFIC, op_data = vendor43\<rparr>]
     @ (if role \<noteq> BootServer
        then [\<lparr>op_code = 1, op_data = [255, 255, 255, 0]\<rparr>,
              \<lparr>op_code = 3, op_data = bc_server_ip cfg\<rparr>,
              \<lparr>op_code = 6, op_data = bc_server_ip cfg\<rparr>,
              \<lparr>op_code = 51, op_data = be_bytes 4 3600\<rparr>]
        else [])"

definition build_reply :: "dhcp_message \<Rightarrow> offer_plan \<Rightarrow> boot_config \<Rightarrow> u8 \<Rightarrow> bytes \<Rightarrow> role \<Rightarrow> dhcp_message" where
  "build_reply req pl cfg mtype vendor43 role =
     \<lparr>dm_op = BOOTREPLY, dm_htype = dm_htype req, dm_hlen = dm_hlen req, dm_hops = 0, dm_xid = dm_xid req,
      dm_secs = 0, dm_flags = dm_flags req, dm_ciaddr = UNSPECIFIED,
      dm_yiaddr = (if role = BootServer then UNSPECIFIED else pl_yiaddr pl),
      dm_siaddr = (case pl_next_server pl of None \<Rightarrow> UNSPECIFIED | Some ns \<Rightarrow> ns),
      dm_giaddr = dm_giaddr req, dm_chaddr = dm_chaddr req,
      dm_options = reply_options pl cfg mtype vendor43 role\<rparr>"

definition reply_dest :: "dhcp_message \<Rightarrow> sock_addr \<Rightarrow> sock_addr" where
  "reply_dest req src =
     (if dm_giaddr req \<noteq> UNSPECIFIED then (dm_giaddr req, 67)
      else if dm_flags req AND BROADCAST_FLAG \<noteq> 0 then (BROADCAST, 68)
      else src)"

definition handle_datagram :: "bytes \<Rightarrow> boot_config \<Rightarrow> bool \<Rightarrow> sock_addr \<Rightarrow> (dhcp_message \<times> sock_addr) option" where
  "handle_datagram data cfg is_port67 src =
     (case dhcp_parse data of
        Inl e \<Rightarrow> None
      | Inr req \<Rightarrow>
          if is_port67 then
            (let is_pxe = (case vendor_class req of None \<Rightarrow> False | Some v \<Rightarrow> starts_with (ascii ''PXEClient'') v);
                 role = (if is_pxe then ProxyDhcp else DhcpServer) in
             if message_type req = Some DISCOVER then
               (case plan req cfg of None \<Rightarrow> None
                | Some pl \<Rightarrow> Some (build_reply req pl cfg OFFER (pxe_offer_vendor_opts (bc_server_ip cfg)) role,
                                   reply_dest req src))
             else if message_type req = Some REQUEST then
               (case plan req cfg of None \<Rightarrow> None
                | Some pl \<Rightarrow> Some (build_reply req pl cfg ACK (pxe_offer_vendor_opts (bc_server_ip cfg)) role,
                                   reply_dest req src))
             else None)
          else if message_type req \<noteq> Some REQUEST then None
          else
            (case plan req cfg of None \<Rightarrow> None
             | Some pl \<Rightarrow> Some (build_reply req pl cfg ACK pxe_ack_vendor_opts BootServer, (BROADCAST, 68))))"

text \<open>One turn of \<open>listener_loop\<close>: the receive buffer holds 2048 bytes; the result is the datagram sent, if any.\<close>

definition listener_step :: "boot_config \<Rightarrow> bool \<Rightarrow> bytes \<Rightarrow> sock_addr \<Rightarrow> (bytes \<times> sock_addr) option io" where
  "listener_step cfg is_port67 datagram src =
     (case handle_datagram (take 2048 datagram) cfg is_port67 src of
        None \<Rightarrow> Inr None
      | Some (reply, dest) \<Rightarrow> map_sum id (\<lambda>bs. Some (bs, dest)) (dhcp_encode reply))"

section \<open>The codec\<close>

definition option_ok :: "dhcp_option \<Rightarrow> bool" where
  "option_ok opt \<longleftrightarrow> op_code opt \<noteq> 0 \<and> op_code opt \<noteq> 255 \<and> length (op_data opt) \<le> 255"

definition message_ok :: "dhcp_message \<Rightarrow> bool" where
  "message_ok m \<longleftrightarrow> length (dm_ciaddr m) = 4 \<and> length (dm_yiaddr m) = 4 \<and> length (dm_siaddr m) = 4 \<and>
     length (dm_giaddr m) = 4 \<and> length (dm_chaddr m) = 16 \<and> list_all option_ok (dm_options m)"

lemma parse_encode_options:
  "list_all option_ok opts \<Longrightarrow>
    \<exists>out. encode_options opts = Inr out \<and> parse_options (out @ junk) = Inr opts"
proof (induction opts)
  case (Cons opt opts)
  then obtain out where "encode_options opts = Inr out" "parse_options (out @ junk) = Inr opts" by auto
  moreover have "unat (of_nat (length (op_data opt)) :: u8) = length (op_data opt)"
    using Cons.prems by (simp add: option_ok_def unat_of_nat_u8)
  ultimately show ?case using Cons.prems by (simp add: option_ok_def)
qed simp

lemma encode_options_panic: "\<not> list_all (\<lambda>opt. length (op_data opt) \<le> 255) opts \<longleftrightarrow> encode_options opts = Inl Panicked"
  by (induction opts) (auto split: sum.splits)

lemma parse_options_ok: "parse_options buf = Inr opts \<Longrightarrow> list_all option_ok opts"
proof (induction buf arbitrary: opts rule: parse_options.induct)
  case (2 code rest)
  show ?case
  proof (cases "code = 0 \<or> code = 255")
    case True
    then show ?thesis using 2 by auto
  next
    case False
    then obtain len body os where r: "rest = len # body" "\<not> unat len > length body"
        "parse_options (drop (unat len) body) = Inr os"
        "opts = \<lparr>op_code = code, op_data = take (unat len) body\<rparr> # os"
      using "2.prems" by (auto split: list.splits if_splits sum.splits)
    then have "list_all option_ok os" using "2.IH"(2) False by blast
    moreover have "option_ok \<lparr>op_code = code, op_data = take (unat len) body\<rparr>"
      using False unat_u8_lt [of len] by (simp add: option_ok_def)
    ultimately show ?thesis by (simp add: r)
  qed
qed simp

lemma encode_header_fit: "message_ok m \<Longrightarrow> length (encode_header m) = MIN_LEN"
  by (simp add: encode_header_def message_ok_def MIN_LEN_def COOKIE_OFFSET_def MAGIC_COOKIE_def length_puts
      puts_fit_def)

lemma parse_encode_header:
  assumes "message_ok m"
  shows "dhcp_parse (encode_header m @ out) = map_sum id (\<lambda>opts. m\<lparr>dm_options := opts\<rparr>) (parse_options out)"
proof -
  have len: "length (encode_header m) = 240" using encode_header_fit [OF assms] by (simp add: MIN_LEN_def)
  have app: "be32 (encode_header m @ out) k = be32 (encode_header m) k" if "k + 4 \<le> 240" for k
    using that len by (simp add: be32_def window_append1)
  have app16: "be16 (encode_header m @ out) k = be16 (encode_header m) k" if "k + 2 \<le> 240" for k
    using that len by (simp add: be16_def window_append1)
  have flds: "length (dm_ciaddr m) = 4" "length (dm_yiaddr m) = 4" "length (dm_siaddr m) = 4"
      "length (dm_giaddr m) = 4" "length (dm_chaddr m) = 16"
    using assms by (simp_all add: message_ok_def)
  have bytes: "encode_header m ! 0 = dm_op m" "encode_header m ! 1 = dm_htype m" "encode_header m ! 2 = dm_hlen m"
      "encode_header m ! 3 = dm_hops m"
    using flds unfolding encode_header_def COOKIE_OFFSET_def MAGIC_COOKIE_def MIN_LEN_def
    by (simp_all add: bhs_eval window_def)
  have words: "be32 (encode_header m) 4 = dm_xid m" "be16 (encode_header m) 8 = dm_secs m"
      "be16 (encode_header m) 10 = dm_flags m"
    using flds unfolding encode_header_def COOKIE_OFFSET_def MAGIC_COOKIE_def MIN_LEN_def
    by (simp_all add: bhs_eval)
  have wins: "window 12 4 (encode_header m) = dm_ciaddr m" "window 16 4 (encode_header m) = dm_yiaddr m"
      "window 20 4 (encode_header m) = dm_siaddr m" "window 24 4 (encode_header m) = dm_giaddr m"
      "window 28 16 (encode_header m) = dm_chaddr m" "window 236 4 (encode_header m) = MAGIC_COOKIE"
    using flds unfolding encode_header_def COOKIE_OFFSET_def MAGIC_COOKIE_def MIN_LEN_def
    by (simp_all add: bhs_eval)
  show ?thesis
    using len
    by (cases "parse_options out")
      (simp_all add: dhcp_parse_def MIN_LEN_def COOKIE_OFFSET_def nth_append app app16 bytes words wins
        window_append1 flip: One_nat_def)
qed

lemma parse_encode:
  assumes "message_ok m"
  shows "\<exists>bs. dhcp_encode m = Inr bs \<and> dhcp_parse (bs @ junk) = Inr m"
proof -
  obtain out where "encode_options (dm_options m) = Inr out" "parse_options (out @ junk) = Inr (dm_options m)"
    using parse_encode_options [of "dm_options m" junk] assms by (auto simp: message_ok_def)
  then show ?thesis
    by (simp add: dhcp_encode_def parse_encode_header [OF assms])
qed

lemma dhcp_parse_ok: "dhcp_parse buf = Inr m \<Longrightarrow> message_ok m"
  by (auto simp: dhcp_parse_def message_ok_def MIN_LEN_def length_window dest: parse_options_ok
      split: if_splits sum.splits)


section \<open>Addresses\<close>

lemma assign_ip_cases:
  "mac \<noteq> [] \<Longrightarrow> assign_ip_from_mac mac server_ip = Some [server_ip ! 0, server_ip ! 1, server_ip ! 2,
    if last mac < 2 \<or> last mac = 255 then 100 + last mac else last mac]"
  by (simp add: assign_ip_from_mac_def Let_def last_conv_nth)

lemma host_octet_nat:
  "unat (if b < 2 \<or> b = (255 :: u8) then 100 + b else b) =
    (if unat b = 0 then 100 else if unat b = 1 then 101 else if unat b = 255 then 99 else unat b)"
proof -
  have "unat b < 256" by (rule unat_u8_lt)
  moreover have "b < 2 \<longleftrightarrow> unat b = 0 \<or> unat b = 1" by (simp add: word_less_nat_alt) linarith
  moreover have "b = 255 \<longleftrightarrow> unat b = 255" by (simp add: word_unat_eq_iff)
  moreover have "unat (100 + b) = (100 + unat b) mod 256" by (simp add: unat_word_ariths)
  ultimately show ?thesis by auto
qed

lemma assign_ip_host:
  assumes "assign_ip_from_mac mac server_ip = Some ip"
  shows "length ip = 4 \<and> take 3 ip = [server_ip ! 0, server_ip ! 1, server_ip ! 2] \<and>
    2 \<le> unat (ip ! 3) \<and> unat (ip ! 3) \<le> 254"
proof -
  have m: "mac \<noteq> []" using assms by (auto simp: assign_ip_from_mac_def)
  have ip: "ip = [server_ip ! 0, server_ip ! 1, server_ip ! 2,
      if last mac < 2 \<or> last mac = 255 then 100 + last mac else last mac]"
    using assms unfolding assign_ip_cases [OF m] by simp
  have "ip ! 3 = (if last mac < 2 \<or> last mac = 255 then 100 + last mac else last mac)" by (simp add: ip)
  then have "unat (ip ! 3) = (if unat (last mac) = 0 then 100 else if unat (last mac) = 1 then 101
      else if unat (last mac) = 255 then 99 else unat (last mac))"
    using host_octet_nat [of "last mac"] by simp
  then have "2 \<le> unat (ip ! 3) \<and> unat (ip ! 3) \<le> 254" using unat_u8_lt [of "last mac"] by auto
  moreover have "length ip = 4 \<and> take 3 ip = [server_ip ! 0, server_ip ! 1, server_ip ! 2]" by (simp add: ip)
  ultimately show ?thesis by simp
qed

definition host_octet :: "bytes \<Rightarrow> nat" where
  "host_octet mac =
     (let n = unat (last mac) in if n = 0 then 100 else if n = 1 then 101 else if n = 255 then 99 else n)"

lemma assign_ip_collision:
  assumes "a \<noteq> []" "b \<noteq> []"
  shows "assign_ip_from_mac a s = assign_ip_from_mac b s \<longleftrightarrow> host_octet a = host_octet b"
  using host_octet_nat [of "last a"] host_octet_nat [of "last b"]
  by (simp add: assign_ip_cases assms host_octet_def Let_def word_unat_eq_iff del: if_splits)

section \<open>The boot file\<close>

lemma plan_ipxe:
  "plan m cfg = Some pl \<Longrightarrow> is_ipxe m \<Longrightarrow>
    pl_bootfile pl = bc_http_script_url cfg @ ascii ''?mac='' @ format_mac (hw_addr m) \<and> pl_next_server pl = None"
  by (auto simp: plan_def split: option.splits)

lemma plan_firmware:
  "plan m cfg = Some pl \<Longrightarrow> \<not> is_ipxe m \<Longrightarrow>
    pl_next_server pl = Some (bc_server_ip cfg) \<and>
    (client_arch m = Some 0 \<and> pl_bootfile pl = bc_bios_filename cfg \<or>
     (client_arch m = Some 7 \<or> client_arch m = Some 9) \<and> pl_bootfile pl = bc_uefi_filename cfg)"
  by (auto simp: plan_def ARCH_BIOS_X86_def ARCH_UEFI_X64_def ARCH_UEFI_X64_ALT_def
      split: option.splits if_splits)

lemma plan_yiaddr: "plan m cfg = Some pl \<Longrightarrow> assign_ip_from_mac (hw_addr m) (bc_server_ip cfg) = Some (pl_yiaddr pl)"
  by (auto simp: plan_def split: option.splits if_splits)

lemma find_append: "find P (xs @ ys) = (case find P xs of None \<Rightarrow> find P ys | Some x \<Rightarrow> Some x)"
  by (induction xs) auto

lemma reply_option:
  "msg_option (build_reply req pl cfg mtype v role) MSG_TYPE = Some [mtype]"
  "msg_option (build_reply req pl cfg mtype v role) BOOTFILE_NAME =
     (if role = DhcpServer then None else Some (pl_bootfile pl))"
  "msg_option (build_reply req pl cfg mtype v role) SERVER_ID =
     (if role = ProxyDhcp then None else Some (bc_server_ip cfg))"
  by (cases role; cases "pl_next_server pl";
      simp add: msg_option_def build_reply_def reply_options_def dhcp_codes)+

lemma reply_type: "message_type (build_reply req pl cfg mtype v role) = Some mtype"
  by (simp add: message_type_def reply_option)

definition reply_role :: "bool \<Rightarrow> dhcp_message \<Rightarrow> role" where
  "reply_role port67 req =
     (if \<not> port67 then BootServer
      else if \<exists>v. vendor_class req = Some v \<and> starts_with (ascii ''PXEClient'') v then ProxyDhcp else DhcpServer)"

definition answers :: "bool \<Rightarrow> dhcp_message \<Rightarrow> bool" where
  "answers port67 req \<longleftrightarrow> message_type req = Some REQUEST \<or> port67 \<and> message_type req = Some DISCOVER"

lemma handle_datagram_eq:
  "handle_datagram data cfg port67 src =
    (case dhcp_parse data of Inl e \<Rightarrow> None | Inr req \<Rightarrow>
       (case plan req cfg of None \<Rightarrow> None | Some pl \<Rightarrow>
          if answers port67 req then
            Some (build_reply req pl cfg (if message_type req = Some DISCOVER then OFFER else ACK)
                    (if port67 then pxe_offer_vendor_opts (bc_server_ip cfg) else pxe_ack_vendor_opts)
                    (reply_role port67 req),
                  if port67 then reply_dest req src else (BROADCAST, 68))
          else None))"
proof (cases "dhcp_parse data")
  case (Inr req)
  have role: "(if case vendor_class req of None \<Rightarrow> False | Some v \<Rightarrow> starts_with (ascii ''PXEClient'') v
      then ProxyDhcp else DhcpServer) = reply_role True req"
    by (auto simp: reply_role_def split: option.split)
  have ne: "REQUEST \<noteq> DISCOVER" by (simp add: dhcp_codes)
  show ?thesis
    unfolding handle_datagram_def Inr sum.case Let_def role
    using ne by (cases "plan req cfg") (auto simp: answers_def reply_role_def [of False])
qed (simp add: handle_datagram_def)

lemma handle_datagram_reply:
  assumes "handle_datagram data cfg port67 src = Some (reply, dest)"
  obtains req pl where "dhcp_parse data = Inr req" "plan req cfg = Some pl" "answers port67 req"
    "reply = build_reply req pl cfg (if message_type req = Some DISCOVER then OFFER else ACK)
       (if port67 then pxe_offer_vendor_opts (bc_server_ip cfg) else pxe_ack_vendor_opts) (reply_role port67 req)"
    "dest = (if port67 then reply_dest req src else (BROADCAST, 68))"
proof -
  obtain req where req: "dhcp_parse data = Inr req"
    using assms by (cases "dhcp_parse data") (simp_all add: handle_datagram_eq)
  obtain pl where pl: "plan req cfg = Some pl"
    using assms req by (cases "plan req cfg") (simp_all add: handle_datagram_eq)
  have "answers port67 req" using assms req pl by (simp add: handle_datagram_eq split: if_split_asm)
  then show ?thesis using that req pl assms by (simp add: handle_datagram_eq)
qed

text \<open>A configured server address and boot names that fit an option.\<close>

definition boot_fits :: "boot_config \<Rightarrow> bool" where
  "boot_fits cfg \<longleftrightarrow> length (bc_server_ip cfg) = 4 \<and> length (bc_bios_filename cfg) \<le> 255 \<and>
     length (bc_uefi_filename cfg) \<le> 255 \<and> length (bc_http_script_url cfg) \<le> 203"

lemma length_join: "length (join sep ss) = sum_list (map length ss) + length sep * (length ss - 1)"
  by (induction sep ss rule: join.induct) auto

lemma length_format_mac: "length (format_mac bs) = 3 * length bs - 1"
proof -
  have "sum_list (map length (map hex2 bs)) = 2 * length bs"
    by (induction bs) (simp_all add: hex2_def)
  then show ?thesis by (simp add: format_mac_def length_join)
qed

lemma plan_bootfile_fits: "plan m cfg = Some pl \<Longrightarrow> boot_fits cfg \<Longrightarrow> length (pl_bootfile pl) \<le> 255"
  using length_format_mac [of "hw_addr m"] plan_ipxe [of m cfg pl] plan_firmware [of m cfg pl]
  by (cases "is_ipxe m") (auto simp: boot_fits_def hw_addr_def)

lemma dec_byte: "n < 256 \<Longrightarrow> length (dec n) \<le> 3"
  using length_dec [of n 2] by simp

lemma length_ipv4_string: "length (ipv4_string ip) \<le> 15"
  using dec_byte [of "unat (ip ! 0)"] dec_byte [of "unat (ip ! 1)"] dec_byte [of "unat (ip ! 2)"]
    dec_byte [of "unat (ip ! 3)"] unat_u8_lt
  by (simp add: ipv4_string_def)

lemma build_reply_ok:
  assumes "message_ok req" "plan req cfg = Some pl" "boot_fits cfg" "length v \<le> 255"
  shows "message_ok (build_reply req pl cfg mtype v role)"
proof -
  have y: "length (pl_yiaddr pl) = 4" using assign_ip_host [OF plan_yiaddr [OF assms(2)]] by simp
  have b: "length (pl_bootfile pl) \<le> 255" using plan_bootfile_fits [OF assms(2,3)] .
  have s: "length (bc_server_ip cfg) = 4" using assms(3) by (simp add: boot_fits_def)
  have n: "pl_next_server pl = None \<or> pl_next_server pl = Some (bc_server_ip cfg)"
    using plan_ipxe [OF assms(2)] plan_firmware [OF assms(2)] by blast
  have i: "length (ipv4_string (bc_server_ip cfg)) \<le> 255" using length_ipv4_string [of "bc_server_ip cfg"] by simp
  show ?thesis
    using n
  proof
    assume "pl_next_server pl = None"
    then show ?thesis using assms(1,4) y b s
      by (cases role) (simp_all add: message_ok_def build_reply_def UNSPECIFIED_def reply_options_def option_ok_def dhcp_codes)
  next
    assume "pl_next_server pl = Some (bc_server_ip cfg)"
    then show ?thesis using assms(1,4) y b s i
      by (cases role) (simp_all add: message_ok_def build_reply_def UNSPECIFIED_def reply_options_def option_ok_def dhcp_codes)
  qed
qed

lemma listener_reply:
  assumes "boot_fits cfg" "handle_datagram (take 2048 d) cfg port67 src = Some (reply, dest)"
  shows "\<exists>bs. listener_step cfg port67 d src = Inr (Some (bs, dest)) \<and> dhcp_parse bs = Inr reply"
proof -
  obtain req pl where r: "dhcp_parse (take 2048 d) = Inr req" "plan req cfg = Some pl"
    "reply = build_reply req pl cfg (if message_type req = Some DISCOVER then OFFER else ACK)
       (if port67 then pxe_offer_vendor_opts (bc_server_ip cfg) else pxe_ack_vendor_opts) (reply_role port67 req)"
    using assms(2) by (rule handle_datagram_reply)
  have "length (if port67 then pxe_offer_vendor_opts (bc_server_ip cfg) else pxe_ack_vendor_opts) \<le> 255"
    using assms(1) by (simp add: pxe_offer_vendor_opts_def pxe_ack_vendor_opts_def boot_fits_def Let_def)
  then have "message_ok reply"
    using build_reply_ok [OF dhcp_parse_ok [OF r(1)] r(2) assms(1)] r(3) by simp
  then obtain bs where "dhcp_encode reply = Inr bs" "dhcp_parse bs = Inr reply"
    using parse_encode [of reply "[]"] by auto
  then show ?thesis using assms(2) by (simp add: listener_step_def)
qed

lemma listener_no_panic: "boot_fits cfg \<Longrightarrow> \<exists>r. listener_step cfg port67 d src = Inr r"
  using listener_reply [of cfg d port67 src]
  by (cases "handle_datagram (take 2048 d) cfg port67 src") (auto simp: listener_step_def)

section \<open>From the boot file to the boot script\<close>

text \<open>The address the server puts in the script URL is the one the HTTP server reads back.\<close>

lemma hex_digit_plain:
  assumes "n < 16"
  shows "hex_digit False n < 128" "hex_digit False n \<noteq> 37" "hex_digit False n \<noteq> 38"
proof -
  have n: "unat n < 16" using assms by (simp add: word_less_nat_alt)
  have add: "unat (k + n) = unat k + unat n" if "unat k < 100" for k
    using that n by (intro unat_add_lem [THEN iffD1]) simp
  have "48 \<le> unat (hex_digit False n) \<and> unat (hex_digit False n) \<le> 102"
    using n by (simp add: hex_digit_def add word_less_nat_alt)
  then show "hex_digit False n < 128" "hex_digit False n \<noteq> 37" "hex_digit False n \<noteq> 38"
    by (auto simp: word_less_nat_alt)
qed

lemma format_mac_bytes: "list_all (\<lambda>b. b < 128 \<and> b \<noteq> 37 \<and> b \<noteq> 38) (format_mac bs)"
proof -
  have h: "list_all (\<lambda>b. b < 128 \<and> b \<noteq> 37 \<and> b \<noteq> 38) (hex2 b)" for b
    using hex_digit_plain [OF nibbles(1)] hex_digit_plain [OF nibbles(2)] by (simp add: hex2_def)
  have "list_all (\<lambda>b. b < 128 \<and> b \<noteq> 37 \<and> b \<noteq> 38) (join [58] (map hex2 cs))" for cs
  proof (induction cs rule: induct_list012)
    case (3 a b cs)
    then show ?case using h [of a] by simp
  qed (use h in simp_all)
  then show ?thesis by (simp add: format_mac_def)
qed

lemma decode_percent_ascii: "list_all (\<lambda>b. b < 128 \<and> b \<noteq> 37) s \<Longrightarrow> decode_percent s = s"
  by (induction s) (simp_all add: decode_percent_plain push_char_def)

lemma mac_param_round_trip: "parse_mac_param (ascii ''mac='' @ format_mac bs) = Some (format_mac bs)"
proof -
  have "\<And>x. x \<in> set (ascii ''mac='' @ format_mac bs) \<Longrightarrow> \<not> x = 38"
    using format_mac_bytes [of bs] by (auto simp: list_all_iff)
  then have "split_on (\<lambda>b. b = 38) (ascii ''mac='' @ format_mac bs) = [ascii ''mac='' @ format_mac bs]"
    by (rule split_on_no_sep)
  moreover have "decode_percent (format_mac bs) = format_mac bs"
    using format_mac_bytes [of bs] by (intro decode_percent_ascii) (simp add: list_all_iff)
  ultimately show ?thesis by (simp add: parse_mac_param_def)
qed

lemma ipxe_boot_request:
  assumes "plan m cfg = Some pl" "is_ipxe m"
  shows "\<exists>q. pl_bootfile pl = bc_http_script_url cfg @ [63] @ q \<and>
    boot_request (format_mac (hw_addr m)) \<lparr>hq_get = True, hq_path = ascii ''/boot.ipxe'', hq_query = Some q\<rparr>"
  using plan_ipxe [OF assms] mac_param_round_trip [of "hw_addr m"]
  by (intro exI [of _ "ascii ''mac='' @ format_mac (hw_addr m)"]) (simp add: boot_request_def)

end
