(* ===== verification/Runs.thy ===== *)
theory Runs
  imports Prelude
begin

text \<open>
  Runs of a system of labelled steps: what every step preserves holds after every run, runs can be put
  together, and a system whose steps stutter or follow another system's has runs that follow
  its runs. The server at its two levels, the world it refines and the runs apart from one target are
  instances.
\<close>

locale labelled_runs =
  fixes step :: "'e \<Rightarrow> 's \<Rightarrow> 's \<Rightarrow> bool" and run :: "'e list \<Rightarrow> 's \<Rightarrow> 's \<Rightarrow> bool"
  assumes run_nil: "run [] s s' \<longleftrightarrow> s' = s"
    and run_cons: "run (e # es) s s' \<longleftrightarrow> (\<exists>m. step e s m \<and> run es m s')"
begin

lemma run_append: "run (es @ es') s s' \<longleftrightarrow> (\<exists>m. run es s m \<and> run es' m s')"
  by (induction es arbitrary: s) (auto simp: run_nil run_cons)

lemma run_one: "run [e] s s' \<longleftrightarrow> step e s s'"
  by (simp add: run_nil run_cons)

lemma run_snoc: "run (es @ [e]) s s' \<longleftrightarrow> (\<exists>m. run es s m \<and> step e m s')"
  by (simp add: run_append run_one)

lemma run_keeps:
  assumes "\<And>e s s'. step e s s' \<Longrightarrow> holds s \<Longrightarrow> holds s'" and "run es s s'" "holds s"
  shows "holds s'"
  using assms(2,3) by (induction es arbitrary: s) (auto simp: run_nil run_cons dest: assms(1))

end

text \<open>
  A relation between the states of two systems that every step of the first keeps, the second standing still
  or doing one step.
\<close>

locale stuttering_simulation =
  conc: labelled_runs step run + abst: labelled_runs astep arun
  for step :: "'e \<Rightarrow> 's \<Rightarrow> 's \<Rightarrow> bool" and run and astep :: "'a \<Rightarrow> 't \<Rightarrow> 't \<Rightarrow> bool" and arun +
  fixes sim :: "'s \<Rightarrow> 't \<Rightarrow> bool"
  assumes simulated: "step e s s' \<Longrightarrow> sim s t \<Longrightarrow> sim s' t \<or> (\<exists>a t'. astep a t t' \<and> sim s' t')"
begin

lemma run_simulated: "run es s s' \<Longrightarrow> sim s t \<Longrightarrow> \<exists>as t'. arun as t t' \<and> sim s' t' \<and> length as \<le> length es"
proof (induction es arbitrary: s t)
  case Nil
  then show ?case by (intro exI [of _ "[]"]) (simp add: conc.run_nil abst.run_nil)
next
  case (Cons e es)
  then obtain m where m: "step e s m" "run es m s'" by (auto simp: conc.run_cons)
  from simulated [OF m(1) Cons.prems(2)] show ?case
  proof
    assume "sim m t"
    from Cons.IH [OF m(2) this] show ?thesis by (metis le_SucI length_Cons)
  next
    assume "\<exists>a t'. astep a t t' \<and> sim m t'"
    then obtain a t1 where a: "astep a t t1" "sim m t1" by blast
    from Cons.IH [OF m(2) a(2)] obtain as t2 where as: "arun as t1 t2" "sim s' t2" "length as \<le> length es" by blast
    then have "arun (a # as) t t2" using a(1) by (auto simp: abst.run_cons)
    with as show ?thesis by (intro exI [of _ "a # as"] exI [of _ t2]) simp
  qed
qed

end

text \<open>A refinement is a simulation whose relation is a function of the first state.\<close>

locale stuttering_refinement =
  conc: labelled_runs step run + abst: labelled_runs astep arun
  for step :: "'e \<Rightarrow> 's \<Rightarrow> 's \<Rightarrow> bool" and run and astep :: "'a \<Rightarrow> 't \<Rightarrow> 't \<Rightarrow> bool" and arun +
  fixes view :: "'s \<Rightarrow> 't"
  assumes follows: "step e s s' \<Longrightarrow> view s' = view s \<or> (\<exists>a. astep a (view s) (view s'))"

sublocale stuttering_refinement \<subseteq> viewed: stuttering_simulation step run astep arun "\<lambda>s t. t = view s"
  by unfold_locales (auto dest: follows)

context stuttering_refinement
begin

lemma run_follows: "run es s s' \<Longrightarrow> \<exists>as. arun as (view s) (view s') \<and> length as \<le> length es"
  using viewed.run_simulated by blast

end

end
