(* ===== verification/System.thy ===== *)
theory System
  imports Dhcp Runs
begin

text \<open>
  The HTTP server and the iSCSI connections share one registry of targets behind a lock
  (\<open>main.rs\<close> hands the same \<open>Arc\<close> to both). The world is that registry and the open
  connections; a step is one HTTP request, one accepted connection, or one request handled on one
  connection, in any order. One request is taken as one step; the code holds the lock only to
  look a target up or register one, so two connections bound to one target can also overlap
  inside a command: \<open>Interleaved\<close> treats the whole server at that grain, \<open>Volume_Ops\<close> the writers of one volume.
\<close>

section \<open>The world\<close>

record world =
  wd_registry :: registry
  wd_conns :: "connection list"

definition world_start :: world where
  "world_start = \<lparr>wd_registry = registry_new, wd_conns = []\<rparr>"

datatype event = Http http_request | Accept | Pdu nat request bytes

inductive world_step :: "(rstr \<Rightarrow> rstr) \<Rightarrow> config \<Rightarrow> client_manager \<Rightarrow> event \<Rightarrow> world \<Rightarrow> world \<Rightarrow> bool"
  for uni cfg m where
  http: "http_handle uni cfg m (wd_registry w) req = Inr (resp, r') \<Longrightarrow>
     world_step uni cfg m (Http req) w (w\<lparr>wd_registry := r'\<rparr>)"
| accept: "world_step uni cfg m Accept w (w\<lparr>wd_conns := wd_conns w @ [connection_new]\<rparr>)"
| pdu: "k < length (wd_conns w) \<Longrightarrow> request_wf req \<Longrightarrow>
     handle (wd_registry w) (wd_conns w ! k) req bhs = Inr (r', c', outs) \<Longrightarrow>
     world_step uni cfg m (Pdu k req bhs) w (w\<lparr>wd_registry := r', wd_conns := (wd_conns w)[k := c']\<rparr>)"

inductive_simps world_step_simps:
  "world_step uni cfg m (Http req) w w'" "world_step uni cfg m Accept w w'" "world_step uni cfg m (Pdu k req bhs) w w'"

inductive world_run :: "(rstr \<Rightarrow> rstr) \<Rightarrow> config \<Rightarrow> client_manager \<Rightarrow> event list \<Rightarrow> world \<Rightarrow> world \<Rightarrow> bool"
  for uni cfg m where
  nil: "world_run uni cfg m [] w w"
| more: "world_step uni cfg m e w w' \<Longrightarrow> world_run uni cfg m es w' w'' \<Longrightarrow> world_run uni cfg m (e # es) w w''"

inductive_simps world_run_simps [simp]:
  "world_run uni cfg m [] w w'" "world_run uni cfg m (e # es) w w'"

interpretation worlds: labelled_runs "world_step uni cfg m" "world_run uni cfg m" for uni cfg m
  by unfold_locales auto

section \<open>What one request does to the targets\<close>

text \<open>A request leaves the registry alone or runs one command on the bound target.\<close>

definition ran :: "registry \<Rightarrow> connection \<Rightarrow> handled \<Rightarrow> bool" where
  "ran r c res \<longleftrightarrow> (\<forall>r' c' outs. res = Inr (r', c', outs) \<longrightarrow>
     r' = r \<or> (\<exists>cmd bs oc. run_target r c cmd bs = Inr (r', oc)))"

lemma ran_same: "ran r c (Inr (r, c', outs))" "ran r c (Inl e)" "ran r c (rejected r c' reason bhs)"
  by (simp_all add: ran_def rejected_def reject_pdu_def)

lemma ran_finish: "cn_target c' = cn_target c \<Longrightarrow> ran r c (finish_write r c' p)"
  using run_target_cong [of c' c r] by (auto simp: ran_def finish_write_def split: sum.splits)

lemma ran_handle: "ran r c (handle r c req bhs)"
proof -
  have bw: "ran r c (begin_write r c' cmd bhs)" if "cn_target c' = cn_target c" for c' cmd
    using that by (simp add: begin_write_def Let_def ran_finish ran_same)
  have "ran r c (handle_command r c cmd bhs)" for cmd
  proof -
    let ?c = "c\<lparr>cn_exp_cmd_sn := cn_exp_cmd_sn c + 1\<rparr>"
    have "ran r c (Inr (r', c', outs))" if "run_target r ?c cmd bs = Inr (r', oc)" for r' c' outs bs oc
      using that run_target_cong [of ?c c r cmd bs] by (auto simp: ran_def)
    then show ?thesis
      using bw [of ?c cmd] by (simp add: handle_command_def Let_def ran_same split: sum.split)
  qed
  moreover have "ran r c (handle_data_out r c d bhs)" for d
    by (simp add: handle_data_out_def Let_def ran_same ran_finish split: option.split)
  ultimately show ?thesis
    by (cases "cn_stage c"; cases req)
      (simp_all add: handle_def ran_same handle_nop_def handle_text_def handle_task_mgmt_def
        handle_logout_def handle_login_def login_fail_def Let_def split: option.split)
qed

section \<open>Images\<close>

text \<open>The images behind the logical units of a target. No command changes them.\<close>

definition target_masters :: "scsi_target \<Rightarrow> backing option list" where
  "target_masters t = map (map_option (\<lambda>lu. vol_master (lu_volume lu))) (st_luns t)"

lemma scsi_write_master:
  assumes "lu_inv lu"
  shows "vol_master (lu_volume (fst (scsi_write lu lba blocks buf))) = vol_master (lu_volume lu)"
  using vol_write_master [of "lu_volume lu"] assms
  by (auto simp: scsi_write_def lu_inv_def split: sum.splits prod.splits) (metis fst_conv)+

lemma dispatch_master:
  "lu_inv lu \<Longrightarrow> vol_master (lu_volume (fst (dispatch lu cdb buf))) = vol_master (lu_volume lu)"
proof (cases "is_write_op (cdb ! 0)")
  case True
  assume "lu_inv lu"
  with True show ?thesis by (auto simp: dispatch_def is_write_op_def scsi_write_master)
qed (simp add: dispatch_pure)

lemma execute_masters:
  assumes "target_inv t"
  shows "target_masters (fst (execute t cmd buf)) = target_masters t"
proof (cases "lun_at t (sc_lun cmd)")
  case None
  then show ?thesis by (simp add: execute_def)
next
  case (Some p)
  obtain n lu where p: "lun_at t (sc_lun cmd) = Some (n, lu)" using Some by (cases p) simp
  then have at: "n < length (st_luns t)" "st_luns t ! n = Some lu" by (simp_all add: lun_at_Some)
  have m: "vol_master (lu_volume (fst (dispatch lu (sc_cdb cmd) buf))) = vol_master (lu_volume lu)"
    using dispatch_master target_inv_lun [OF assms p] by blast
  obtain lu' oc where d: "dispatch lu (sc_cdb cmd) buf = (lu', oc)" by force
  show ?thesis
    using p at m d
    by (auto simp: execute_def target_masters_def map_update intro!: nth_equalityI)
      (metis (no_types, lifting) length_map list_update_id nth_map option.simps(9))
qed

lemma run_target_masters:
  assumes "registry_inv r" "i < length (reg_heap r)" "cn_target c = Some i" "run_target r c cmd bs = Inr (r', oc)"
  shows "map target_masters (reg_heap r') = map target_masters (reg_heap r)"
proof -
  have "target_inv (reg_heap r ! i)" using assms(1,2) by (simp add: registry_inv_def list_all_length)
  moreover obtain t where t: "execute (reg_heap r ! i) cmd bs = (t, Inr oc)" "r' = r\<lparr>reg_heap := (reg_heap r)[i := t]\<rparr>"
    using assms(3,4) by (auto simp: run_target_def split: prod.splits sum.splits)
  ultimately have "target_masters t = target_masters (reg_heap r ! i)"
    using execute_masters [of "reg_heap r ! i" cmd bs] by simp
  then show ?thesis using assms(2) by (simp add: t(2) map_update) (metis length_map list_update_id nth_map)
qed

lemma handle_masters:
  assumes "registry_inv r" "conn_inv r c" "handle r c req bhs = Inr (r', c', outs)"
  shows "map target_masters (reg_heap r') = map target_masters (reg_heap r)"
proof -
  consider "r' = r" | cmd bs oc where "run_target r c cmd bs = Inr (r', oc)"
    using ran_handle [of r c req bhs] assms(3) by (auto simp: ran_def)
  then show ?thesis
  proof cases
    case 2
    moreover obtain i where "cn_target c = Some i" using 2 by (auto simp: run_target_def split: option.splits)
    moreover have "i < length (reg_heap r)" using assms(2) \<open>cn_target c = Some i\<close> by (simp add: conn_inv_def)
    ultimately show ?thesis using run_target_masters assms(1) by blast
  qed simp
qed

section \<open>Block sizes\<close>

text \<open>Every unit has blocks of 512 bytes; a READ is then answered with fewer than \<open>2 ^ 32\<close> Data-In PDUs.\<close>

definition sector_blocks :: "scsi_target \<Rightarrow> bool" where
  "sector_blocks t \<longleftrightarrow> (\<forall>lu. Some lu \<in> set (st_luns t) \<longrightarrow> lu_block_size lu = 512)"

lemma execute_sector_blocks:
  assumes "target_inv t" "sector_blocks t" "execute t cmd buf = (t', Inr oc)"
  shows "sector_blocks t'"
proof (cases "lun_at t (sc_lun cmd)")
  case None
  then show ?thesis using assms by (simp add: execute_def)
next
  case (Some p)
  obtain n lu where p: "lun_at t (sc_lun cmd) = Some (n, lu)" using Some by (cases p) simp
  then have step: "target_step n t t'" and n: "n < length (st_luns t)" "st_luns t ! n = Some lu"
    using execute_step [OF assms(1), of cmd buf] assms(3) p by (auto simp: lun_at_Some)
  have "lu_block_size lu' = 512" if "k < length (st_luns t)" "st_luns t' ! k = Some lu'" for k lu'
  proof (cases "k = n")
    case True
    obtain lu2 where "st_luns t' ! n = Some lu2" "lu_step lu lu2" using step n by (auto simp: target_step_def)
    then show ?thesis using True that n assms(2) lu_step_capacity nth_mem [OF n(1)] by (fastforce simp: sector_blocks_def)
  next
    case False
    then have "st_luns t ! k = Some lu'" using step that by (simp add: target_step_def)
    then show ?thesis using that(1) assms(2) nth_mem [of k "st_luns t"] by (simp add: sector_blocks_def)
  qed
  then show ?thesis using step by (auto simp: sector_blocks_def target_step_def in_set_conv_nth)
qed

lemma build_target_blocks: "sector_blocks (build_target m c iqn)"
  by (auto simp: sector_blocks_def build_target_def fresh_unit_def lu_new_def with_serial_def map_filter_def
      split: option.splits if_splits)

lemma handle_sector_blocks:
  assumes "registry_inv r" "conn_inv r c" "handle r c req bhs = Inr (r', c', outs)" "\<forall>t \<in> set (reg_heap r). sector_blocks t"
  shows "\<forall>t \<in> set (reg_heap r'). sector_blocks t"
proof -
  consider "r' = r" | cmd bs oc where "run_target r c cmd bs = Inr (r', oc)"
    using ran_handle [of r c req bhs] assms(3) by (auto simp: ran_def)
  then show ?thesis
  proof cases
    case 2
    then obtain i t where i: "cn_target c = Some i" "execute (reg_heap r ! i) cmd bs = (t, Inr oc)"
        "r' = r\<lparr>reg_heap := (reg_heap r)[i := t]\<rparr>"
      by (auto simp: run_target_def split: option.splits prod.splits sum.splits)
    then have "i < length (reg_heap r)" using assms(2) by (simp add: conn_inv_def)
    then have "sector_blocks t"
      using execute_sector_blocks [OF _ _ i(2)] assms(1,4) by (simp add: registry_inv_def list_all_length)
    then show ?thesis using i(3) assms(4) set_update_subset_insert [of "reg_heap r" i t] by auto
  qed (use assms(4) in simp)
qed

lemma rw_extent_bound: "rw_extent cdb = (lba, blocks) \<Longrightarrow> blocks < 2 ^ 32"
proof -
  assume "rw_extent cdb = (lba, blocks)"
  moreover have "be_val (window 7 2 cdb) < 2 ^ 32" "be_val (window 10 4 cdb) < 2 ^ 32"
    using be_val_window_bound [of 7 2 cdb] be_val_window_bound [of 10 4 cdb] by simp_all
  ultimately show ?thesis by (auto simp: rw_extent_def len16_def len32_16_def split: if_splits)
qed

lemma read_answer_fits:
  assumes "target_inv t" "sector_blocks t" "is_read_op (sc_cdb cmd ! 0)" "execute t cmd bs = (t', Inr oc)" "512 \<le> seg"
  shows "div_ceil (length (oc_data oc)) seg < 2 ^ 32"
proof (cases "lun_at t (sc_lun cmd)")
  case None
  then show ?thesis using assms(4,5) by (auto simp: execute_def div_ceil_def)
next
  case (Some p)
  obtain n lu where p: "lun_at t (sc_lun cmd) = Some (n, lu)" using Some by (cases p) simp
  obtain lba blocks where ext: "rw_extent (sc_cdb cmd) = (lba, blocks)" by fastforce
  have lu: "lu_inv lu" "lu_block_size lu = 512"
    using target_inv_lun [OF assms(1) p] p assms(2) nth_mem by (fastforce simp: lun_at_Some sector_blocks_def)+
  have "sc_cdb cmd ! 0 \<noteq> 0xa0" using assms(3) by (auto simp: is_read_op_def)
  then have rd: "scsi_read lu lba blocks = Inr oc"
    using assms(4) p dispatch_read [OF assms(3) ext, of lu bs] by (simp add: execute_def)
  have "length (oc_data oc) \<le> blocks * 512"
    by (rule scsi_read_cases [OF lu(1), of lba blocks]) (use rd lu(2) in auto)
  also have "\<dots> \<le> blocks * seg" using assms(5) by simp
  finally have "\<not> blocks < div_ceil (length (oc_data oc)) seg" using assms(5) by (simp add: div_ceil_le_iff)
  then show ?thesis using rw_extent_bound [OF ext] by simp
qed

section \<open>Invariant\<close>

definition from_images :: "client_manager \<Rightarrow> scsi_target \<Rightarrow> bool" where
  "from_images m t \<longleftrightarrow> (\<forall>b. Some b \<in> set (target_masters t) \<longrightarrow> (\<exists>i. get_store m i = Some b))"

definition world_inv :: "client_manager \<Rightarrow> world \<Rightarrow> bool" where
  "world_inv m w \<longleftrightarrow> registry_inv (wd_registry w) \<and> (\<forall>c \<in> set (wd_conns w). conn_inv (wd_registry w) c) \<and>
     (\<forall>t \<in> set (reg_heap (wd_registry w)). from_images m t) \<and> (\<forall>t \<in> set (reg_heap (wd_registry w)). sector_blocks t)"

lemma world_inv_start: "world_inv m world_start"
  by (simp add: world_inv_def world_start_def registry_inv_new) (simp add: registry_new_def)

lemma build_target_images: "from_images m (build_target m c iqn)"
  by (auto simp: from_images_def target_masters_def build_target_def fresh_unit_def lu_new_def vol_new_def
      with_serial_def map_filter_def split: option.splits if_splits)

lemma from_images_masters:
  assumes "map target_masters ts' = map target_masters ts" "\<forall>t \<in> set ts. from_images m t"
  shows "\<forall>t \<in> set ts'. from_images m t"
proof
  fix t assume "t \<in> set ts'"
  then have "target_masters t \<in> set (map target_masters ts')" by simp
  then have "target_masters t \<in> set (map target_masters ts)" using assms(1) by simp
  then show "from_images m t" using assms(2) by (auto simp: from_images_def)
qed

lemma world_step_inv:
  assumes "world_step uni cfg m e w w'" "world_inv m w" "images_ok m"
  shows "world_inv m w'"
  using assms(1)
proof cases
  case (http req resp r')
  have inv: "registry_inv r'" "\<forall>c. conn_inv (wd_registry w) c \<longrightarrow> conn_inv r' c"
    using http_registry_inv [OF http(3)] assms(2,3) by (auto simp: world_inv_def)
  have "(\<forall>t \<in> set (reg_heap r'). from_images m t) \<and> (\<forall>t \<in> set (reg_heap r'). sector_blocks t)"
    using http_handle_cases [OF http(3)] assms(2) build_target_images build_target_blocks
    by (auto simp: world_inv_def registry_insert_def)
  then show ?thesis using http(2) inv assms(2) by (simp add: world_inv_def)
next
  case accept
  then show ?thesis using assms(2) by (simp add: world_inv_def conn_inv_new)
next
  case (pdu k req bhs r' c' outs)
  have c: "registry_inv (wd_registry w)" "conn_inv (wd_registry w) (wd_conns w ! k)"
    using assms(2) pdu(3) by (simp_all add: world_inv_def)
  have g: "registry_inv r'" "registry_step (wd_registry w) r'" "conn_inv r' c'"
    using good_handle [OF c, of req bhs] pdu(5) by (auto simp: good_step_def)
  have "\<forall>t \<in> set (reg_heap r'). from_images m t"
    using from_images_masters [OF handle_masters [OF c pdu(5)]] assms(2) by (simp add: world_inv_def)
  moreover have "\<forall>t \<in> set (reg_heap r'). sector_blocks t"
    using handle_sector_blocks [OF c pdu(5)] assms(2) by (simp add: world_inv_def)
  moreover have "\<forall>x \<in> set ((wd_conns w)[k := c']). conn_inv r' x"
    using g(3) conn_inv_other [OF _ g(2)] assms(2) set_update_subset_insert [of "wd_conns w" k c']
    by (auto simp: world_inv_def)
  ultimately show ?thesis using pdu(2) g(1) by (simp add: world_inv_def)
qed

lemma world_run_inv: "world_run uni cfg m es w w' \<Longrightarrow> world_inv m w \<Longrightarrow> images_ok m \<Longrightarrow> world_inv m w'"
  using worlds.run_keeps [where holds = "world_inv m"] world_step_inv by blast

section \<open>Isolation\<close>

text \<open>A step touches target \<open>j\<close> when it is a request on a connection bound to it.\<close>

primrec touches :: "world \<Rightarrow> nat \<Rightarrow> event \<Rightarrow> bool" where
  "touches w j (Http req) \<longleftrightarrow> False"
| "touches w j Accept \<longleftrightarrow> False"
| "touches w j (Pdu k req bhs) \<longleftrightarrow> cn_target (wd_conns w ! k) = Some j"

inductive run_without :: "(rstr \<Rightarrow> rstr) \<Rightarrow> config \<Rightarrow> client_manager \<Rightarrow> nat \<Rightarrow> event list \<Rightarrow> world \<Rightarrow> world \<Rightarrow> bool"
  for uni cfg m j where
  nil: "run_without uni cfg m j [] w w"
| more: "world_step uni cfg m e w w' \<Longrightarrow> \<not> touches w j e \<Longrightarrow> run_without uni cfg m j es w' w'' \<Longrightarrow>
     run_without uni cfg m j (e # es) w w''"

inductive_simps run_without_simps [simp]:
  "run_without uni cfg m j [] w w'" "run_without uni cfg m j (e # es) w w'"

interpretation apart: labelled_runs "\<lambda>e w w'. world_step uni cfg m e w w' \<and> \<not> touches w j e" "run_without uni cfg m j"
  for uni cfg m j by unfold_locales auto

lemma world_step_isolated:
  assumes "world_step uni cfg m e w w'" "\<not> touches w j e" "j < length (reg_heap (wd_registry w))" "world_inv m w"
  shows "reg_heap (wd_registry w') ! j = reg_heap (wd_registry w) ! j \<and> j < length (reg_heap (wd_registry w'))"
  using assms(1)
proof cases
  case (http req resp r')
  then show ?thesis
    using http_handle_cases [OF http(3)] assms(3) by (auto simp: registry_insert_def nth_append)
next
  case accept
  then show ?thesis using assms(3) by simp
next
  case (pdu k req bhs r' c' outs)
  have c: "registry_inv (wd_registry w)" "conn_inv (wd_registry w) (wd_conns w ! k)"
    using assms(4) pdu(3) by (simp_all add: world_inv_def)
  have "registry_step (wd_registry w) r'" using good_handle [OF c, of req bhs] pdu(5) by (auto simp: good_step_def)
  moreover have "reg_heap r' ! j = reg_heap (wd_registry w) ! j"
    using heap_handle [of "wd_registry w" "wd_conns w ! k" req bhs] pdu(1,5) assms(2) by (auto simp: heap_step_def)
  ultimately show ?thesis using pdu(2) assms(3) by (simp add: registry_step_def)
qed

lemma run_isolated:
  assumes "run_without uni cfg m j es w w'" "j < length (reg_heap (wd_registry w))" "world_inv m w" "images_ok m"
  shows "reg_heap (wd_registry w') ! j = reg_heap (wd_registry w) ! j \<and> world_inv m w' \<and>
    j < length (reg_heap (wd_registry w'))"
proof (rule apart.run_keeps [OF _ assms(1)])
  show "reg_heap (wd_registry w2) ! j = reg_heap (wd_registry w) ! j \<and> world_inv m w2 \<and> j < length (reg_heap (wd_registry w2))"
    if "world_step uni cfg m e w1 w2 \<and> \<not> touches w1 j e"
      "reg_heap (wd_registry w1) ! j = reg_heap (wd_registry w) ! j \<and> world_inv m w1 \<and> j < length (reg_heap (wd_registry w1))"
    for e w1 w2 using that world_step_isolated world_step_inv assms(4) by metis
qed (use assms in simp)

section \<open>From the boot request to the first read\<close>

lemma read_session:
  assumes inv: "registry_inv r" "conn_inv r c" and ff: "cn_stage c = FullFeature"
    and tgt: "cn_target c = Some i" "lun_at (reg_heap r ! i) (sc_lun rd) = Some (n, lu)"
    and rd: "sc_read rd" "\<not> sc_write rd" "is_read_op (sc_cdb rd ! 0)" "rw_extent (sc_cdb rd) = (lba, blocks)"
    and ext: "0 < blocks" "lba + blocks \<le> lu_capacity lu" "blocks * lu_block_size lu < 2 ^ 32"
  shows "\<exists>c' outs. handle r c (ScsiCommand rd) bhs = Inr (r, c', outs) \<and>
    fold place outs (zeros (blocks * lu_block_size lu)) =
      window (lba * lu_block_size lu) (blocks * lu_block_size lu) (lu_bytes lu)"
proof -
  let ?data = "window (lba * lu_block_size lu) (blocks * lu_block_size lu) (lu_bytes lu)"
  let ?c = "c\<lparr>cn_exp_cmd_sn := cn_exp_cmd_sn c + 1\<rparr>"
  have i: "i < length (reg_heap r)" using inv(2) tgt(1) by (simp add: conn_inv_def)
  have ti: "target_inv (reg_heap r ! i)" using inv(1) i by (simp add: registry_inv_def list_all_length)
  have li: "lu_inv lu" using target_inv_lun [OF ti tgt(2)] .
  have len: "length ?data = blocks * lu_block_size lu"
    using capacity_bytes [OF ext(2)] by (simp add: lu_bytes_def)
  then have ne: "?data \<noteq> []" using ext(1) li by (auto simp: lu_inv_def)
  have op: "sc_cdb rd ! 0 \<noteq> 0xa0" using rd(3) by (auto simp: is_read_op_def)
  have "dispatch lu (sc_cdb rd) (sc_data rd) = (lu, Inr (outcome_good ?data))"
    using dispatch_read [OF rd(3,4)] scsi_read_ok [OF li ext(1,2)] by simp
  moreover have "(st_luns (reg_heap r ! i))[n := Some lu] = st_luns (reg_heap r ! i)"
    using tgt(2) by (metis list_update_id lun_at_Some)
  ultimately have "execute (reg_heap r ! i) rd (sc_data rd) = (reg_heap r ! i, Inr (outcome_good ?data))"
    using execute_dispatch [OF tgt(2) op] by simp
  then have rt: "run_target r ?c rd (sc_data rd) = Inr (r, outcome_good ?data)"
    using tgt(1) by (simp add: run_target_def)
  obtain c' outs where d: "data_in_chunks ?c rd ?data = Inr (c', outs)" "fold place outs (zeros (length ?data)) = ?data"
    using data_in_chunks_closed [OF ne, of ?c rd] data_in_reassembly [OF ne, of ?c rd] len ext(3) by fastforce
  have "handle r c (ScsiCommand rd) bhs = Inr (r, c', outs)"
    using ff tgt(1) rd(1,2) rt d(1) ne by (simp add: handle_def handle_command_def Let_def GOOD_def)
  then show ?thesis using d(2) len by auto
qed

lemma fresh_capacity: "lu_capacity (with_serial sn (fresh_unit s)) = bs_size s div 512"
  "lu_block_size (with_serial sn (fresh_unit s)) = 512"
  by (simp_all add: lu_capacity_def with_serial_def fresh_unit_def lu_new_def vol_new_def vol_size_def)

text \<open>A login that names a registered target, then a read of its disk.\<close>

lemma login_then_read:
  assumes r: "registry_inv r" "registry_get r iqn = Some j"
    and login: "find (\<lambda>kv. fst kv = ascii ''TargetName'') (lq_text q) = Some (k, iqn)" "lq_transit q" "lq_nsg q = 3"
    and lun: "lun_at (reg_heap r ! j) (sc_lun rd) = Some (n, lu)"
    and rd: "sc_read rd" "\<not> sc_write rd" "is_read_op (sc_cdb rd ! 0)" "rw_extent (sc_cdb rd) = (lba, blocks)"
    and ext: "0 < blocks" "lba + blocks \<le> lu_capacity lu" "blocks * lu_block_size lu < 2 ^ 32"
  shows "\<exists>c1 p c2 outs. handle r connection_new (Login q) bhs = Inr (r, c1, [LoginOut p]) \<and> lr_status_class p = 0 \<and>
    handle r c1 (ScsiCommand rd) bhs' = Inr (r, c2, outs) \<and>
    fold place outs (zeros (blocks * lu_block_size lu)) =
      window (lba * lu_block_size lu) (blocks * lu_block_size lu) (lu_bytes lu)"
proof -
  have fresh: "cn_stage connection_new = LoginStage" "cn_target connection_new = None"
    by (simp_all add: connection_new_def)
  obtain c1 p where l: "handle r connection_new (Login q) bhs = Inr (r, c1, [LoginOut p])"
      "lr_status_class p = 0" "cn_stage c1 = FullFeature" "cn_target c1 = Some j"
    using login_finds [OF r(2) fresh login] by blast
  have "conn_inv r c1" using good_handle [OF r(1) conn_inv_new, of "Login q" bhs] l(1) by (simp add: good_step_def)
  then show ?thesis using read_session [OF r(1) _ l(3,4) lun rd ext, of bhs'] l(1,2) by blast
qed

lemma boot_login_read:
  assumes cfg: "manager_new env cfg = Inr m" "config_ok is_dir cfg" "images_ok m" "world_inv m w"
    and boot: "boot_request mac req" "resolve (se_lower env) m mac = Some c" "cf_boot cfg = Some b"
    and lun0: "sc_lun rd = 0"
    and login: "find (\<lambda>kv. fst kv = ascii ''TargetName'') (lq_text q) = Some (ascii ''TargetName'', client_iqn c)"
      "lq_transit q" "lq_nsg q = 3"
    and rd: "sc_read rd" "\<not> sc_write rd" "is_read_op (sc_cdb rd ! 0)" "rw_extent (sc_cdb rd) = (lba, blocks)"
    and ext: "0 < blocks" "blocks < 2 ^ 23"
  shows "\<exists>image resp r1. get_store m (cc_system c) = Some image \<and>
    http_handle (se_lower env) cfg m (wd_registry w) req = Inr (resp, r1) \<and> hr_status resp = 200 \<and>
    (\<forall>es w2. run_without (se_lower env) cfg m (length (reg_heap (wd_registry w))) es (w\<lparr>wd_registry := r1\<rparr>) w2 \<longrightarrow>
      registry_get (wd_registry w2) (client_iqn c) = Some (length (reg_heap (wd_registry w))) \<longrightarrow>
      (lba + blocks) * 512 \<le> bs_size image \<longrightarrow>
      (\<exists>c1 p c2 outs. handle (wd_registry w2) connection_new (Login q) bhs = Inr (wd_registry w2, c1, [LoginOut p]) \<and>
         lr_status_class p = 0 \<and>
         handle (wd_registry w2) c1 (ScsiCommand rd) bhs' = Inr (wd_registry w2, c2, outs) \<and>
         fold place outs (zeros (blocks * 512)) = window (lba * 512) (blocks * 512) (disk_bytes image)))"
proof -
  let ?j = "length (reg_heap (wd_registry w))" and ?t = "build_target m c (client_iqn c)"
  obtain image where im: "get_store m (cc_system c) = Some image" using client_stores(1) [OF cfg(1,2) boot(2)] by blast
  have gs: "\<forall>g \<in> set (cc_games c). get_store m g \<noteq> None" using client_stores(2) [OF cfg(1,2) boot(2)] .
  have ok: "serves image" "bs_size image < u64_lim" using cfg(3) im by (auto simp: images_ok_def)
  let ?lu = "with_serial (client_iqn c) (fresh_unit image)"
  let ?r1 = "registry_insert (client_iqn c) ?t (wd_registry w)"
  obtain resp where hh: "http_handle (se_lower env) cfg m (wd_registry w) req = Inr (resp, ?r1)" "hr_status resp = 200"
    using http_boot [OF boot] by auto
  have lun: "lun_at ?t 0 = Some (0, ?lu)"
    using build_target_luns [OF im gs] by (simp add: lun_at_Some) (simp add: lun_number_def)
  have w1: "world_inv m (w\<lparr>wd_registry := ?r1\<rparr>)"
    using world_step_inv [OF world_step.http [of "se_lower env" cfg m w req resp ?r1] cfg(4,3)] hh(1) by simp
  show ?thesis
  proof (intro exI [of _ image] exI [of _ resp] exI [of _ ?r1] conjI allI impI)
    show "get_store m (cc_system c) = Some image" by (rule im)
    show "http_handle (se_lower env) cfg m (wd_registry w) req = Inr (resp, ?r1)" by (rule hh(1))
    show "hr_status resp = 200" by (rule hh(2))
    fix es w2
    assume run: "run_without (se_lower env) cfg m ?j es (w\<lparr>wd_registry := ?r1\<rparr>) w2"
      and get: "registry_get (wd_registry w2) (client_iqn c) = Some ?j"
      and size: "(lba + blocks) * 512 \<le> bs_size image"
    have "?j < length (reg_heap ?r1)" by (simp add: registry_insert_def)
    then have w2: "reg_heap (wd_registry w2) ! ?j = ?t" "world_inv m w2"
      using run_isolated [OF run _ w1 cfg(3)] by (simp_all add: registry_heap_insert(1))
    have "registry_inv (wd_registry w2)" "lu_bytes ?lu = disk_bytes image"
      using w2(2) ok(1) by (simp_all add: world_inv_def fresh_unit_bytes)
    moreover have "lun_at (reg_heap (wd_registry w2) ! ?j) (sc_lun rd) = Some (0, ?lu)" using lun lun0 w2(1) by simp
    moreover have "lba + blocks \<le> lu_capacity ?lu" "lu_block_size ?lu = 512" "blocks * 512 < 2 ^ 32"
      using size ext(2) by (simp_all add: fresh_capacity less_eq_div_iff_mult_less_eq)
    ultimately show "\<exists>c1 p c2 outs. handle (wd_registry w2) connection_new (Login q) bhs = Inr (wd_registry w2, c1, [LoginOut p]) \<and>
         lr_status_class p = 0 \<and>
         handle (wd_registry w2) c1 (ScsiCommand rd) bhs' = Inr (wd_registry w2, c2, outs) \<and>
         fold place outs (zeros (blocks * 512)) = window (lba * 512) (blocks * 512) (disk_bytes image)"
      using login_then_read [OF _ get login _ rd ext(1), of 0 ?lu bhs bhs'] by simp
  qed
qed

text \<open>
  Two addresses that no client entry names get the same default profile, hence the same name: the
  second boot takes over the name of the first one's target.
\<close>

lemma defaults_share_name:
  assumes "manager_new env cfg = Inr m" "cf_client_defaults cfg = Some d"
    and "\<forall>c \<in> set (cf_clients cfg). to_lowercase (se_lower env) (cl_mac c) \<noteq> to_lowercase (se_lower env) mac1"
    and "\<forall>c \<in> set (cf_clients cfg). to_lowercase (se_lower env) (cl_mac c) \<noteq> to_lowercase (se_lower env) mac2"
  shows "\<exists>c. resolve (se_lower env) m mac1 = Some c \<and> resolve (se_lower env) m mac2 = Some c \<and>
    client_iqn c = ascii ''iqn.2026-06.dev.xboot:''"
proof -
  have "find (\<lambda>c. to_lowercase (se_lower env) (cl_mac c) = to_lowercase (se_lower env) mac) (rev (cf_clients cfg)) = None"
    if "\<forall>c \<in> set (cf_clients cfg). to_lowercase (se_lower env) (cl_mac c) \<noteq> to_lowercase (se_lower env) mac" for mac
    using that by (auto simp: find_None_iff)
  then show ?thesis
    using assms by (simp add: resolve_spec [OF assms(1)] default_config_def client_iqn_def)
qed

end
