(* ===== verification/Link.thy ===== *)
theory Link
  imports Transport "HOL-Library.Sublist"
begin

text \<open>
  The life of one connection (\<open>iscsi/transport.rs\<close> \<open>handle_conn\<close>): the outer loop around the framing
  of \<open>Transport\<close>, with reads that bring bytes, end the stream, fail or time out, and writes that
  fail. The counters \<open>idle_secs\<close> and \<open>total_rx\<close> only feed log lines and are left out.
\<close>

section \<open>The loop\<close>

text \<open>What \<open>timeout(5 s, sock.read(..))\<close> comes back with; an empty read is the end of the stream.\<close>

datatype conn_event = Read bytes | ReadError | Elapsed

definition link_start :: "write_results \<Rightarrow> registry \<Rightarrow> conn_link io" where
  "link_start wr r = drain_link wr r connection_new [] 0"

definition conn_step :: "write_results \<Rightarrow> conn_event \<Rightarrow> conn_link io \<Rightarrow> conn_link io" where
  "conn_step wr ev s =
     (case s of Inl e \<Rightarrow> Inl e
      | Inr l \<Rightarrow>
          if lk_end l \<noteq> Reading then Inr l
          else (case ev of
              ReadError \<Rightarrow> Inr (l\<lparr>lk_buf := [], lk_end := Broken\<rparr>)
            | Elapsed \<Rightarrow> link_feed wr (Inr l) []
            | Read bs \<Rightarrow> if bs = [] then Inr (l\<lparr>lk_buf := [], lk_end := Finished\<rparr>) else link_feed wr (Inr l) bs))"

definition handle_conn :: "write_results \<Rightarrow> registry \<Rightarrow> conn_event list \<Rightarrow> conn_link io" where
  "handle_conn wr r evs = fold (conn_step wr) evs (link_start wr r)"

section \<open>Reads and time-outs\<close>

text \<open>The bytes that came in before the stream ended.\<close>

fun received :: "conn_event list \<Rightarrow> bytes" where
  "received [] = []"
| "received (Elapsed # evs) = received evs"
| "received (ReadError # evs) = []"
| "received (Read bs # evs) = (if bs = [] then [] else bs @ received evs)"

lemma link_feed_reading: "lk_end l = Reading \<Longrightarrow> link_feed wr (Inr l) b =
    sending (lk_sent l) (drain_link wr (lk_registry l) (lk_conn l) (lk_buf l @ b) (lk_writes l))"
  by (simp add: link_feed_def)

lemma link_feed_feed: "link_feed wr (link_feed wr s a) b = link_feed wr s (a @ b)"
proof (cases s)
  case (Inr l)
  show ?thesis
  proof (cases "lk_end l = Reading")
    case True
    then show ?thesis
      using drain_link_append [of wr "lk_registry l" "lk_conn l" "lk_buf l @ a" b "lk_writes l"] Inr
      by (simp add: link_feed_reading sending_feed)
  qed (simp add: Inr link_feed_def)
qed (simp add: link_feed_def)

lemma link_settled: "link_feed wr (drain_link wr r c buf n) [] = drain_link wr r c buf n"
  using drain_link_append [of wr r c buf "[]" n] by simp

lemma conn_step_simps [simp]:
  "conn_step wr ev (Inl e) = Inl e"
  "lk_end l \<noteq> Reading \<Longrightarrow> conn_step wr ev (Inr l) = Inr l"
  "lk_end l = Reading \<Longrightarrow> conn_step wr ReadError (Inr l) = Inr (l\<lparr>lk_buf := [], lk_end := Broken\<rparr>)"
  "lk_end l = Reading \<Longrightarrow> conn_step wr Elapsed (Inr l) = link_feed wr (Inr l) []"
  "lk_end l = Reading \<Longrightarrow> conn_step wr (Read []) (Inr l) = Inr (l\<lparr>lk_buf := [], lk_end := Finished\<rparr>)"
  "lk_end l = Reading \<Longrightarrow> bs \<noteq> [] \<Longrightarrow> conn_step wr (Read bs) (Inr l) = link_feed wr (Inr l) bs"
  by (simp_all add: conn_step_def)

lemma conn_ended: "lk_end l \<noteq> Reading \<Longrightarrow> fold (conn_step wr) evs (Inr l) = Inr l"
  by (induction evs) simp_all

lemma conn_panicked: "fold (conn_step wr) evs (Inl e) = Inl e"
  by (induction evs) simp_all

definition effect :: "conn_link io \<Rightarrow> (registry \<times> connection \<times> bytes) io" where
  "effect = map_sum id (\<lambda>l. (lk_registry l, lk_conn l, lk_sent l))"

lemma effect_simps [simp]:
  "effect (Inl e) = Inl e" "effect (Inr l) = Inr (lk_registry l, lk_conn l, lk_sent l)"
  by (simp_all add: effect_def)

lemma effect_eq: "effect s = effect (Inr l') \<Longrightarrow>
    \<exists>l. s = Inr l \<and> lk_registry l = lk_registry l' \<and> lk_sent l = lk_sent l'"
  by (cases s) auto

text \<open>Only the bytes received matter, however they are split and whatever time passes between them.\<close>

lemma conn_effect:
  assumes "link_feed wr s [] = s"
  shows "effect (fold (conn_step wr) evs s) = effect (link_feed wr s (received evs))"
  using assms
proof (induction evs arbitrary: s rule: received.induct)
  case (2 evs)
  have "conn_step wr Elapsed s = s"
    using "2.prems" by (cases s) (simp_all, metis conn_step_simps(2,4))
  then show ?case using 2 by simp
next
  case (3 evs)
  then show ?case
    by (cases s; cases "lk_end (projr s) = Reading") (simp_all add: conn_panicked conn_ended)
next
  case (4 bs evs)
  show ?case
  proof (cases "bs = []")
    case True
    then show ?thesis using "4.prems"
      by (cases s; cases "lk_end (projr s) = Reading") (simp_all add: conn_panicked conn_ended)
  next
    case False
    have step: "conn_step wr (Read bs) s = link_feed wr s bs"
      using False by (cases s; cases "lk_end (projr s) = Reading") (simp_all add: link_feed_def)
    have "link_feed wr (link_feed wr s bs) [] = link_feed wr s bs" by (simp add: link_feed_feed)
    from "4.IH" [OF False this] show ?thesis using False step by (simp add: link_feed_feed)
  qed
qed simp

lemma handle_conn_effect:
  "effect (handle_conn wr r evs) = effect (drain_link wr r connection_new (received evs) 0)"
  using conn_effect [OF link_settled [of wr r connection_new "[]" 0]]
    drain_link_append [of wr r connection_new "[]" "received evs" 0]
  by (simp add: handle_conn_def link_start_def)

section \<open>Requests carried out and requests answered\<close>

lemma write_outs_prefix: "write_outs wr n outs = (sent, n', ok) \<Longrightarrow>
    prefix sent (encode_all outs) \<and> (ok \<longrightarrow> sent = encode_all outs) \<and> ((\<forall>n. wr n = None) \<longrightarrow> ok)"
proof (induction outs arbitrary: n sent)
  case (Cons out outs)
  show ?case
  proof (cases "wr n")
    case None
    obtain t where t: "write_outs wr (Suc n) outs = (t, n', ok)" "sent = encode_outbound out @ t"
      using Cons.prems None by (auto split: prod.splits)
    show ?thesis using Cons.IH [OF t(1)] t(2) by (simp add: encode_all_def)
  next
    case (Some j)
    then have "\<not> (\<forall>n. wr n = None)" by (metis option.distinct(1))
    then show ?thesis
      using Cons.prems Some by (auto simp: encode_all_def intro: prefix_order.trans [OF take_is_prefix])
  qed
qed (simp add: encode_all_def)

text \<open>What a connection has done: it carried out the first \<open>k\<close> requests and sent at least the answers of the others before.\<close>

definition served_upto :: "bool \<Rightarrow> registry \<Rightarrow> connection \<Rightarrow> request list \<Rightarrow> nat \<Rightarrow> registry \<Rightarrow> bytes \<Rightarrow> bool" where
  "served_upto imm r c reqs k r' sent \<longleftrightarrow>
     (\<exists>d. serve_all imm r c (take k reqs) = Inr d \<and> r' = dr_registry d \<and> prefix sent (dr_sent d)) \<and>
     (\<exists>d'. serve_all imm r c (take (k - 1) reqs) = Inr d' \<and> prefix (dr_sent d') sent)"

lemma served_upto_Suc:
  assumes "handle r c req (take BHS_LEN (encode_request imm req)) = Inr (r1, c1, outs)" "cn_stage c1 \<noteq> Closing"
    and "served_upto imm r1 c1 reqs k r' sent"
  shows "served_upto imm r c (req # reqs) (Suc k) r' (encode_all outs @ sent)"
proof -
  have "\<exists>d'. serve_all imm r c (take k (req # reqs)) = Inr d' \<and> prefix (dr_sent d') (encode_all outs @ sent)"
    using assms by (cases k) (auto simp: served_upto_def waiting_def)
  then show ?thesis using assms by (auto simp: served_upto_def)
qed

lemma drain_link_served:
  assumes "list_all request_ok reqs" "decode rest = Inl ShortHeader \<or> decode rest = Inl ShortData"
    and "drain_link wr r c (concat (map (encode_request imm) reqs) @ rest) n = Inr l"
  shows "\<exists>k \<le> length reqs. served_upto imm r c reqs k (lk_registry l) (lk_sent l) \<and>
    ((\<forall>n. wr n = None) \<longrightarrow> k = length reqs \<and> map_sum id dr_sent (serve_all imm r c reqs) = Inr (lk_sent l))"
  using assms(1,3)
proof (induction reqs arbitrary: r c n l)
  case Nil
  then show ?case using assms(2) by (auto simp: drain_link.simps [of wr r c rest] served_upto_def waiting_def)
next
  case (Cons req reqs)
  let ?buf = "concat (map (encode_request imm) (req # reqs)) @ rest"
  have d: "decode ?buf = Inr (req, length (encode_request imm req))"
    using Cons.prems(1) decode_encode [of req imm "concat (map (encode_request imm) reqs) @ rest"] by simp
  have "BHS_LEN \<le> length (encode_request imm req)" using decode_consumed(1) [OF d] .
  then have bhs: "take BHS_LEN ?buf = take BHS_LEN (encode_request imm req)"
    and tl: "drop (length (encode_request imm req)) ?buf = concat (map (encode_request imm) reqs) @ rest" by simp_all
  obtain r' c' outs where h: "handle r c req (take BHS_LEN (encode_request imm req)) = Inr (r', c', outs)"
    using Cons.prems(2) by (auto simp only: drain_link.simps [of wr r c ?buf] d bhs sum.case prod.case split: sum.splits)
  obtain sent n' ok where w: "write_outs wr n outs = (sent, n', ok)" by (cases "write_outs wr n outs")
  have res: "(if \<not> ok then Inr \<lparr>lk_registry = r', lk_conn = c', lk_buf = [], lk_sent = sent, lk_writes = n', lk_end = Broken\<rparr>
      else if cn_stage c' = Closing then Inr \<lparr>lk_registry = r', lk_conn = c', lk_buf = [], lk_sent = sent, lk_writes = n', lk_end = Finished\<rparr>
      else sending sent (drain_link wr r' c' (concat (map (encode_request imm) reqs) @ rest) n')) = Inr l"
    using Cons.prems(2) by (simp only: drain_link.simps [of wr r c ?buf] d bhs tl h w sum.case prod.case)
  note sent = write_outs_prefix [OF w]
  show ?case
  proof (cases "ok \<and> cn_stage c' \<noteq> Closing")
    case True
    then obtain l1 where l1: "drain_link wr r' c' (concat (map (encode_request imm) reqs) @ rest) n' = Inr l1"
      "l = l1\<lparr>lk_sent := encode_all outs @ lk_sent l1\<rparr>"
      using res sent by (cases "drain_link wr r' c' (concat (map (encode_request imm) reqs) @ rest) n'") auto
    obtain k where k: "k \<le> length reqs" "served_upto imm r' c' reqs k (lk_registry l1) (lk_sent l1)"
      "(\<forall>n. wr n = None) \<longrightarrow> k = length reqs \<and> map_sum id dr_sent (serve_all imm r' c' reqs) = Inr (lk_sent l1)"
      using Cons.IH [OF _ l1(1)] Cons.prems(1) unfolding list.pred_inject by blast
    show ?thesis
      using k served_upto_Suc [OF h _ k(2)] True h l1(2)
      by (intro exI [of _ "Suc k"]) (cases "serve_all imm r' c' reqs", auto)
  next
    case False
    let ?k = "if ok then length (req # reqs) else 1"
    have "served_upto imm r c (req # reqs) ?k r' sent"
      using False h sent by (cases reqs) (auto simp: served_upto_def waiting_def closed_def)
    then show ?thesis
      using False h sent res by (intro exI [of _ ?k]) (auto simp: closed_def split: if_splits)
  qed
qed

text \<open>A connection that has received one request that can be handled has a result.\<close>

lemma drain_link_one:
  assumes "decode bs = Inr (q, length bs)" "handle r c q (take BHS_LEN bs) = Inr res"
  shows "\<exists>l. drain_link wr r c bs n = Inr l"
proof -
  obtain r' c' outs where res: "res = (r', c', outs)" by (cases res)
  obtain sent n' ok where w: "write_outs wr n outs = (sent, n', ok)" by (cases "write_outs wr n outs")
  have "\<exists>l. drain_link wr r' c' [] n' = Inr l" by (simp add: drain_link.simps [of _ _ _ "[]"] decode_def BHS_LEN_def)
  then show ?thesis using assms w by (auto simp: drain_link.simps [of _ _ _ bs] res)
qed

lemma handle_conn_one:
  assumes "received evs = bs" "decode bs = Inr (q, length bs)" "handle r connection_new q (take BHS_LEN bs) = Inr res"
  shows "\<exists>l. handle_conn wr r evs = Inr l"
proof -
  obtain l where "drain_link wr r connection_new bs 0 = Inr l" using drain_link_one [OF assms(2,3)] by blast
  then have "effect (handle_conn wr r evs) = effect (Inr l)" using handle_conn_effect [of wr r evs] assms(1) by simp
  then show ?thesis using effect_eq by blast
qed

end
