(* ===== verification/Replies.thy ===== *)
theory Replies
  imports Link
begin

text \<open>
  What a session puts on the wire (\<open>iscsi/session/mod.rs\<close> with the encoders of \<open>iscsi/pdu.rs\<close>): the
  answers to a request fit the 24-bit length field of a PDU as long as the segment size the
  initiator declared and the list of target names do; then the stream sent is a sequence of
  complete frames. The session takes any 32-bit segment size, so the condition is not idle.
\<close>

section \<open>The sizes of answers\<close>

definition sense_fits :: "scsi_outcome io \<Rightarrow> bool" where
  "sense_fits res \<longleftrightarrow> (\<forall>oc. res = Inr oc \<longrightarrow> length (oc_sense oc) \<le> 18)"

lemma sense_fits_simps [simp]:
  "sense_fits (Inl e)" "sense_fits (Inr (outcome_good bs))" "sense_fits (Inr outcome_ok)"
  "sense_fits (Inr (outcome_check k c))" "sense_fits (medium_error code e)"
  by (simp_all add: sense_fits_def medium_error_def)

lemma dispatch_sense: "sense_fits (snd (dispatch lu cdb bs))"
  by (auto simp: dispatch_def Let_def inquiry_def read_capacity_10_def read_capacity_16_def scsi_read_def scsi_write_def
      request_sense_def mode_sense_def split: sum.split prod.split)

lemma execute_sense:
  assumes "execute t cmd bs = (t', Inr oc)"
  shows "length (oc_sense oc) \<le> 18"
proof (cases "lun_at t (sc_lun cmd)")
  case None
  then show ?thesis using assms by (auto simp: execute_def)
next
  case (Some p)
  obtain n lu where p: "p = (n, lu)" by (cases p)
  show ?thesis
    using assms dispatch_sense [of lu "sc_cdb cmd" bs] Some p
    by (cases "dispatch lu (sc_cdb cmd) bs") (auto simp: execute_def report_luns_def Let_def sense_fits_def split: if_splits)
qed

lemma run_target_sense: "run_target r c cmd bs = Inr (r', oc) \<Longrightarrow> length (oc_sense oc) \<le> 18"
  using execute_sense by (fastforce simp: run_target_def split: option.splits prod.splits sum.splits)

definition outs_ok :: "handled \<Rightarrow> bool" where
  "outs_ok res \<longleftrightarrow> (\<forall>r' c' outs. res = Inr (r', c', outs) \<longrightarrow> list_all out_ok outs)"

lemma outs_ok_Inl [simp]: "outs_ok (Inl e)"
  by (simp add: outs_ok_def)

lemma outs_ok_Inr [simp]: "outs_ok (Inr (r, c, outs)) = list_all out_ok outs"
  by (simp add: outs_ok_def)

lemma outs_rejected: "length bhs \<le> 48 \<Longrightarrow> outs_ok (rejected r c reason bhs)"
  by (simp add: rejected_def reject_pdu_def resize_def BHS_LEN_def)

lemma outs_finish_write: "outs_ok (finish_write r c p)"
  using run_target_sense [of r c "pw_cmd p" "pw_buf p"]
  by (fastforce simp: finish_write_def scsi_resp_def split: sum.split)

lemma outs_begin_write: "length bhs \<le> 48 \<Longrightarrow> outs_ok (begin_write r c cmd bhs)"
  using outs_rejected outs_finish_write by (simp add: begin_write_def Let_def r2t_pdu_def)

lemma outs_data_out: "length bhs \<le> 48 \<Longrightarrow> outs_ok (handle_data_out r c d bhs)"
  using outs_rejected outs_finish_write
  by (auto simp: handle_data_out_def Let_def r2t_pdu_def split: option.split)

text \<open>A segment is no longer than what the initiator declared, or 512 bytes.\<close>

lemma data_in_loop_sizes:
  "data_in_loop cmd bs seg c off sn = Inr (c', outs) \<Longrightarrow> seg < 2 ^ 24 \<Longrightarrow> list_all out_ok outs"
proof (induction cmd bs seg c off sn arbitrary: c' outs rule: data_in_loop.induct)
  case (1 cmd bs seg c off sn)
  define en where "en = min (off + seg) (length bs)"
  show ?case
  proof (cases "length bs \<le> off \<or> seg = 0 \<or> 2 ^ 32 \<le> sn + 1")
    case True
    with "1.prems" show ?thesis
      by (auto simp: data_in_loop.simps [of _ _ _ _ off] Let_def split: if_splits)
  next
    case False
    then have cs: "\<not> length bs \<le> off" "seg \<noteq> 0" "\<not> 2 ^ 32 \<le> sn + 1" by auto
    obtain pdu outs' where rec: "outs = DataInOut pdu # outs'" "di_data pdu = window off (en - off) bs"
      "data_in_loop cmd bs seg (if en = length bs then bump_stat_sn c else c) en (sn + 1) = Inr (c', outs')"
      using "1.prems"(1) cs
      by (auto simp: data_in_loop.simps [of _ _ _ _ off] Let_def en_def [symmetric] split: sum.splits)
    have "length (di_data pdu) \<le> seg" using rec(2) by (simp add: length_window en_def)
    moreover have "list_all out_ok outs'"
      using "1.IH" [OF cs(1,2) en_def refl refl refl cs(3)] rec(3) "1.prems"(2) by simp
    ultimately show ?thesis using rec(1) "1.prems"(2) by simp
  qed
qed

lemma outs_command:
  assumes "length bhs \<le> 48" "sp_max_recv (cn_params c) < 2 ^ 24"
  shows "outs_ok (handle_command r c cmd bhs)"
  using outs_rejected [OF assms(1)] outs_begin_write [OF assms(1)] assms(2)
    run_target_sense [of r "c\<lparr>cn_exp_cmd_sn := cn_exp_cmd_sn c + 1\<rparr>" cmd "sc_data cmd"]
  by (fastforce simp: handle_command_def data_in_chunks_def scsi_resp_def Let_def split: sum.split
      dest: data_in_loop_sizes)

lemma length_encode_pairs: "length (encode_pairs kvs) = (\<Sum>(k, v)\<leftarrow>kvs. length k + length v + 2)"
  by (induction kvs) (auto simp: encode_pairs_def)

lemma reply_keys_fit:
  assumes "params_ok p"
  shows "length (encode_pairs (reply_keys p)) < 2 ^ 24"
proof -
  have "length (dec (sp_max_burst p)) \<le> 6" "length (dec (sp_first_burst p)) \<le> 6"
    using assms length_dec [of _ 5] by (simp_all add: params_ok_def)
  then show ?thesis by (simp add: reply_keys_def length_encode_pairs yes_no_def)
qed

lemma outs_login:
  assumes "params_ok (cn_params c)" "length (lq_isid q) = 6"
  shows "outs_ok (handle_login r c q)"
  using assms reply_keys_fit [OF params_ok_fold [OF assms(1)]]
  by (auto simp: handle_login_def login_fail_def Let_def encode_pairs_def split: option.split)

text \<open>The text of the names a discovery session is told.\<close>

definition names_fit :: "registry \<Rightarrow> bool" where
  "names_fit r \<longleftrightarrow> length (encode_pairs (map (Pair (ascii ''TargetName'')) (registry_iqns r))) < 2 ^ 24"

lemma outs_handle:
  assumes "params_ok (cn_params c)" "sp_max_recv (cn_params c) < 2 ^ 24" "names_fit r" "request_wf q" "length bhs \<le> 48"
  shows "outs_ok (handle r c q bhs)"
proof (cases "cn_stage c")
  case LoginStage
  then show ?thesis
    using outs_login [OF assms(1)] outs_rejected [OF assms(5)] assms(4)
    by (cases q) (simp_all add: handle_def)
next
  case FullFeature
  then show ?thesis
    using outs_command [OF assms(5,2)] outs_data_out [OF assms(5)] outs_rejected [OF assms(5)] assms(3,4)
    by (cases q) (auto simp: handle_def handle_nop_def handle_text_def handle_task_mgmt_def handle_logout_def Let_def
        names_fit_def encode_pairs_def MAX_DATA_SEGMENT_def)
qed (use outs_rejected [OF assms(5)] in \<open>simp add: handle_def\<close>)

section \<open>Frames on the wire\<close>

text \<open>
  A data segment of 16 MiB or more does not fit its length field: the number written is what is left
  of it modulo \<open>2 ^ 24\<close>, and the bytes that follow are not a frame.
\<close>

lemma frame_overflow:
  assumes "length h = BHS_LEN" "2 ^ 24 \<le> length d"
  shows "\<not> pdu_wf (frame h d)"
proof
  have len: "length (frame h d) = BHS_LEN + length d + pad4 (length d)"
    using assms(1) by (simp add: frame_def length_put BHS_LEN_def)
  have field: "be24 (frame h d) 5 = length d mod 2 ^ 24"
    using assms(1) frame_window [of h 5 3 d]
    by (simp add: be24_def window_put_same' BHS_LEN_def be_val_be_bytes_mod)
  assume "pdu_wf (frame h d)"
  then have "length d + pad4 (length d) = length d mod 2 ^ 24 + pad4 (length d mod 2 ^ 24)"
    using len field by (simp add: pdu_wf_def)
  moreover have "pad4 (length d mod 2 ^ 24) = pad4 (length d)"
    by (simp add: pad4_def mod_mod_cancel)
  ultimately have "length d = length d mod 2 ^ 24" by simp
  then show False using assms(2) mod_less_divisor [of "2 ^ 24" "length d"] by simp
qed

lemma data_in_overflow: "2 ^ 24 \<le> length (di_data p) \<Longrightarrow> \<not> pdu_wf (encode_outbound (DataInOut p))"
  by (simp add: encode_data_in_def frame_overflow length_puts puts_fit_def BHS_LEN_def)

lemma handle_frames:
  assumes "params_ok (cn_params c)" "sp_max_recv (cn_params c) < 2 ^ 24" "names_fit r" "request_wf q" "length bhs \<le> 48"
    and "handle r c q bhs = Inr (r', c', outs)" "out \<in> set outs"
  shows "pdu_wf (encode_outbound out) \<and>
    (be32 (encode_outbound out) 24, be32 (encode_outbound out) 28, be32 (encode_outbound out) 32) = out_sn out"
proof -
  have "out_ok out" using outs_handle [OF assms(1-5)] assms(6,7) by (auto simp: list_all_iff)
  then show ?thesis using encode_outbound_wf encode_outbound_sn by blast
qed

end
