(* ===== verification/Cli.thy ===== *)
theory Cli
  imports System
begin

text \<open>
  The command line (\<open>crates/xboot/src/main.rs\<close>): \<open>flatten\<close>, \<open>dumpranges\<close>, \<open>probe\<close>
  (with \<open>storage/vhd/chain.rs\<close> \<open>probe\<close>), and what the server checks before it starts its
  services. Arguments are those after the program name. A command returns its exit code and the
  files it leaves. Creating and writing a file succeeds, and the output is not one of the inputs.
  \<open>probe\<close> reports values; their layout as text is not modelled.
\<close>

section \<open>flatten\<close>

datatype exit_code = Success | Failure | Usage

type_synonym ran_cli = "(exit_code \<times> storage_env) io"

definition put_file :: "rstr \<Rightarrow> bytes option \<Rightarrow> storage_env \<Rightarrow> storage_env" where
  "put_file path f env = env\<lparr>se_file := (se_file env)(path := f)\<rparr>"

definition is_panic :: "io_error \<Rightarrow> bool" where
  "is_panic e \<longleftrightarrow> e = Panicked \<or> e = Diverged"

definition run_flatten :: "u32 \<Rightarrow> storage_env \<Rightarrow> rstr list \<Rightarrow> ran_cli" where
  "run_flatten secs env args =
     (case args of
        src # dest # _ \<Rightarrow>
          if se_file env dest \<noteq> None then Inr (Failure, env)
          else (case open_backing env src of
             Inl e \<Rightarrow> (if is_panic e then Inl e else Inr (Failure, env))
           | Inr source \<Rightarrow>
               (case write_dynamic_vhd secs source of
                  Inr f \<Rightarrow> Inr (Success, put_file dest (Some f) env)
                | Inl e \<Rightarrow> (if is_panic e then Inl e else Inr (Failure, put_file dest None env))))
      | _ \<Rightarrow> Inr (Usage, env))"

section \<open>dumpranges\<close>

text \<open>\<open>str::split_whitespace\<close>; \<open>cur\<close> is the token being read, in reverse.\<close>

function split_whitespace :: "rstr \<Rightarrow> rstr \<Rightarrow> rstr list" where
  "split_whitespace cur s =
     (if s = [] then (if cur = [] then [] else [rev cur])
      else case strip_first ws_chars s of
        Some r \<Rightarrow>
          if length r < length s
          then (if cur = [] then [] else [rev cur]) @ split_whitespace [] r else []
      | None \<Rightarrow> split_whitespace (hd s # cur) (tl s))"
  by pat_completeness auto
termination
  by (relation "measure (\<lambda>(cur, s). length s)") auto

declare split_whitespace.simps [simp del]

primrec dump_lines :: "backing \<Rightarrow> rstr list \<Rightarrow> bytes \<Rightarrow> nat \<Rightarrow> (exit_code \<times> bytes) io" where
  "dump_lines source [] out sent = Inr (Success, out)"
| "dump_lines source (line # lines) out sent =
     (let line = trim line in
      if line = [] then dump_lines source lines out sent
      else case split_whitespace [] line of
        off # len # _ \<Rightarrow>
          (case (parse_uint u64_lim off, parse_uint u64_lim len) of
             (Some off, Some len) \<Rightarrow>
               if 2 ^ 63 \<le> len then Inl Panicked
               else (case bs_read source off len of
                  Inl e \<Rightarrow> (if is_panic e then Inl e else Inr (Failure, out))
                | Inr buf \<Rightarrow>
                    if u64_lim \<le> sent + len then Inl Panicked
                    else dump_lines source lines (out @ buf) (sent + len))
           | _ \<Rightarrow> Inr (Failure, out))
      | _ \<Rightarrow> Inr (Failure, out))"

definition read_text :: "storage_env \<Rightarrow> rstr \<Rightarrow> rstr option" where
  "read_text env path = (case se_file env path of None \<Rightarrow> None | Some f \<Rightarrow> if is_utf8 f then Some f else None)"

definition run_dumpranges :: "storage_env \<Rightarrow> rstr list \<Rightarrow> ran_cli" where
  "run_dumpranges env args =
     (case args of
        src # ranges # dest # _ \<Rightarrow>
          (case open_backing env src of
             Inl e \<Rightarrow> (if is_panic e then Inl e else Inr (Failure, env))
           | Inr source \<Rightarrow>
               (case read_text env ranges of
                  None \<Rightarrow> Inr (Failure, env)
                | Some txt \<Rightarrow>
                    map_sum id (\<lambda>(code, out). (code, put_file dest (Some out) env))
                      (dump_lines source (split_on (\<lambda>b. b = 10) txt) [] 0)))
      | _ \<Rightarrow> Inr (Usage, env))"

section \<open>probe\<close>

record probe_layer =
  pb_path :: rstr
  pb_alloc :: bool
  pb_bits :: "nat option"
  pb_bitset :: bool
  pb_raw :: "bytes option"

definition probe_one :: "storage_env \<Rightarrow> nat \<Rightarrow> rstr \<Rightarrow> probe_layer io" where
  "probe_one env sector path =
     (case dynamic_open (se_file env) path of Inl e \<Rightarrow> Inl e
      | Inr layer \<Rightarrow>
        (case sector_offset (se_ignore_bitmap env) layer sector of Inl e \<Rightarrow> Inl e
         | Inr bitset \<Rightarrow>
        (case block_sector_offset layer sector of Inl e \<Rightarrow> Inl e
         | Inr block \<Rightarrow>
        (case block_bit_count layer sector of Inl e \<Rightarrow> Inl e
         | Inr bits \<Rightarrow>
        (case (case block of None \<Rightarrow> Inr None | Some off \<Rightarrow> map_sum id Some (dv_read_phys layer off 8)) of
           Inl e \<Rightarrow> Inl e
         | Inr raw \<Rightarrow> Inr \<lparr>pb_path = path, pb_alloc = (block \<noteq> None), pb_bits = bits,
             pb_bitset = (bitset \<noteq> None), pb_raw = raw\<rparr>)))))"

primrec probe_reports :: "storage_env \<Rightarrow> nat \<Rightarrow> rstr list \<Rightarrow> probe_layer list io" where
  "probe_reports env sector [] = Inr []"
| "probe_reports env sector (path # paths) =
     (case probe_one env sector path of Inl e \<Rightarrow> Inl e
      | Inr r \<Rightarrow> (case probe_reports env sector paths of Inl e \<Rightarrow> Inl e | Inr rs \<Rightarrow> Inr (r # rs)))"

definition probe :: "storage_env \<Rightarrow> rstr \<Rightarrow> nat \<Rightarrow> (probe_layer list \<times> bytes) io" where
  "probe env base_path offset =
     (case probe_reports env (offset div SECTOR) (rev (increments_of env base_path)) of Inl e \<Rightarrow> Inl e
      | Inr layers \<Rightarrow>
        (case vhd_open env base_path of Inl e \<Rightarrow> Inl e
         | Inr base \<Rightarrow> map_sum id (Pair layers) (bs_read base offset 8)))"

section \<open>The server's start\<close>

datatype started =
    Exited exit_code storage_env
  | Probed "probe_layer list \<times> bytes"
  | Serving config boot_config client_manager

definition start_server ::
  "(rstr \<Rightarrow> config option) \<Rightarrow> (rstr \<Rightarrow> bool) \<Rightarrow> storage_env \<Rightarrow> rstr \<Rightarrow> started" where
  "start_server toml is_dir env path =
     (case load_from_path toml is_dir (read_text env) path of
        Inl e \<Rightarrow> Exited Failure env
      | Inr cfg \<Rightarrow>
          (case cf_boot cfg of
             None \<Rightarrow> Exited Failure env
           | Some boot \<Rightarrow>
               (case manager_new env cfg of
                  Inl e \<Rightarrow> Exited Failure env
                | Inr m \<Rightarrow> Serving cfg boot m)))"

definition main_cmd ::
  "(rstr \<Rightarrow> config option) \<Rightarrow> (rstr \<Rightarrow> bool) \<Rightarrow> u32 \<Rightarrow> storage_env \<Rightarrow> rstr list \<Rightarrow> started io" where
  "main_cmd toml is_dir secs env args =
     (case args of
        [] \<Rightarrow> Inr (Exited Usage env)
      | cmd # rest \<Rightarrow>
          if cmd = ascii ''flatten'' then map_sum id (\<lambda>(code, env'). Exited code env') (run_flatten secs env rest)
          else if cmd = ascii ''dumpranges'' then map_sum id (\<lambda>(code, env'). Exited code env') (run_dumpranges env rest)
          else if cmd = ascii ''probe'' then
            (case rest of
               base # off # _ \<Rightarrow>
                 (case parse_uint u64_lim off of
                    None \<Rightarrow> Inr (Exited Usage env)
                  | Some off \<Rightarrow>
                      (case probe env base off of
                         Inr s \<Rightarrow> Inr (Probed s)
                       | Inl e \<Rightarrow> (if is_panic e then Inl e else Inr (Exited Failure env))))
             | _ \<Rightarrow> Inr (Exited Usage env))
          else Inr (start_server toml is_dir env cmd))"

section \<open>What they promise\<close>

text \<open>\<open>flatten\<close> leaves one file that serves what the input serves, and touches nothing else.\<close>

lemma flatten_serves:
  assumes "open_backing env src = Inr source" "serves source" "bs_size source \<le> 2040 * 2 ^ 30"
    and "se_file env dest = None" "increments_of env dest = []" "\<not> se_ignore_bitmap env"
  shows "\<exists>env' b. run_flatten secs env [src, dest] = Inr (Success, env') \<and>
    open_backing env' dest = Inr b \<and> serves b \<and> disk_bytes b = disk_bytes source \<and>
    (\<forall>path. path \<noteq> dest \<longrightarrow> se_file env' path = se_file env path)"
proof -
  obtain f bat lo where f: "write_dynamic_vhd secs source = Inr f" using write_dynamic_written [OF assms(2,3), of secs] by blast
  let ?env = "put_file dest (Some f) env"
  have "increments_of ?env dest = []" using assms(5) by (simp add: increments_of_def put_file_def)
  then obtain b where "open_backing ?env dest = Inr b" "serves b" "disk_bytes b = disk_bytes source"
    using flatten_reopen [OF assms(2,3) f, of ?env dest] assms(6) by (auto simp: put_file_def)
  moreover have "run_flatten secs env [src, dest] = Inr (Success, ?env)"
    using assms(1,4) f by (simp add: run_flatten_def)
  ultimately show ?thesis by (intro exI [of _ ?env] exI [of _ b]) (simp add: put_file_def)
qed

text \<open>\<open>flatten\<close> never replaces a file.\<close>

lemma flatten_keeps:
  assumes "run_flatten secs env args = Inr (code, env')" "se_file env path = Some f"
  shows "se_file env' path = Some f"
  using assms
  by (auto simp: run_flatten_def put_file_def split: list.splits if_splits sum.splits)

text \<open>\<open>dumpranges\<close> concatenates the listed ranges.\<close>

lemma split_ws_digits:
  "list_all is_ascii_digit ds \<Longrightarrow> split_whitespace cur (ds @ rest) = split_whitespace (rev ds @ cur) rest"
proof (induction ds arbitrary: cur)
  case (Cons d ds)
  have "strip_first ws_chars (d # ds @ rest) = None"
    using Cons.prems plain_digit by (intro strip_first_plain [OF ws_heads(1)]) simp
  with Cons show ?case by (subst split_whitespace.simps) simp
qed simp

lemma split_ws_space: "split_whitespace cur (32 # rest) = (if cur = [] then [] else [rev cur]) @ split_whitespace [] rest"
  by (subst split_whitespace.simps) (simp add: ws_chars_def)

lemma split_ws_end: "split_whitespace cur [] = (if cur = [] then [] else [rev cur])"
  by (subst split_whitespace.simps) simp

definition range_line :: "nat \<times> nat \<Rightarrow> rstr" where
  "range_line r = dec (fst r) @ [32] @ dec (snd r)"

lemma range_line_tokens: "split_whitespace [] (range_line (a, b)) = [dec a, dec b]"
  using split_ws_digits [OF dec_digits [of b], of "[]" "[]"]
  by (simp add: range_line_def split_ws_digits [OF dec_digits] split_ws_space split_ws_end)

lemma range_line_trim: "trim (range_line r) = range_line r"
proof (rule trim_plain)
  have d: "list_all is_ascii_digit (dec (fst r))" "list_all is_ascii_digit (dec (snd r))" by (rule dec_digits)+
  show "range_line r \<noteq> []" by (simp add: range_line_def)
  show "plain_byte (hd (range_line r))"
    using d(1) hd_in_set [OF dec_neq_Nil [of "fst r"]]
    by (simp add: range_line_def hd_append list_all_iff plain_digit)
  show "plain_byte (last (range_line r))"
    using d(2) last_in_set [OF dec_neq_Nil [of "snd r"]]
    by (simp add: range_line_def list_all_iff plain_digit)
qed

lemma dump_ranges_lines:
  assumes "serves source" "bs_size source < 2 ^ 63"
  shows "\<forall>(a, n) \<in> set rs. a + n \<le> bs_size source \<Longrightarrow> sent + sum_list (map snd rs) < u64_lim \<Longrightarrow>
    dump_lines source (map range_line rs) out sent =
      Inr (Success, out @ concat (map (\<lambda>(a, n). window a n (disk_bytes source)) rs))"
proof (induction rs arbitrary: out sent)
  case (Cons r rs)
  obtain a n where r: "r = (a, n)" by force
  have an: "a + n \<le> bs_size source" "a + n < 2 ^ 63" using Cons.prems(1) assms(2) r by auto
  then have "a < u64_lim" "n < u64_lim" "n < 2 ^ 63" by (simp_all add: u64_lim_def)
  then have p: "parse_uint u64_lim (dec a) = Some a" "parse_uint u64_lim (dec n) = Some n" by (simp_all add: parse_uint_dec)
  have rd: "bs_read source a n = Inr (window a n (disk_bytes source))" using assms(1) an(1) by (simp add: serves_def)
  have ne: "range_line r \<noteq> []" by (simp add: range_line_def)
  have tot: "sent + n < u64_lim" "sent + n + sum_list (map snd rs) < u64_lim"
    using Cons.prems(2) r by simp_all
  show ?case
    using Cons.IH [of "sent + n" "out @ window a n (disk_bytes source)"] Cons.prems(1) tot p rd ne \<open>n < 2 ^ 63\<close>
    by (simp add: range_line_trim r range_line_tokens)
qed simp

text \<open>The server starts only on a configuration that passed validation and has a boot section.\<close>

lemma serving_valid:
  assumes "main_cmd toml is_dir secs env args = Inr (Serving cfg boot m)"
  shows "config_ok is_dir cfg \<and> cf_boot cfg = Some boot \<and> manager_new env cfg = Inr m"
proof -
  obtain path where "start_server toml is_dir env path = Serving cfg boot m"
    using assms by (auto simp: main_cmd_def map_sum_def split: list.splits if_splits sum.splits option.splits prod.splits)
  then have "validate is_dir cfg = Inr ()" "cf_boot cfg = Some boot" "manager_new env cfg = Inr m"
    by (auto simp: start_server_def load_from_path_def split: sum.splits option.splits)
  then show ?thesis
    using validation_errors_ok [of is_dir cfg] by (simp add: validate_def Let_def split: if_splits)
qed

lemma http_no_panic: "cf_boot cfg = Some boot \<Longrightarrow> \<exists>resp r'. http_handle uni cfg m r req = Inr (resp, r')"
  by (auto simp: http_handle_def Let_def split: option.split)

text \<open>\<open>probe\<close> and the chain reader agree on whether any layer holds a sector.\<close>

lemma probe_layers_reports:
  assumes "probe_reports env sector paths = Inr rs" "open_layers (se_file env) vs paths = Inr layers"
  shows "(probe_layers (\<lambda>l. sector_offset (se_ignore_bitmap env) l sector) layers = Inr None \<longleftrightarrow>
      (\<forall>r \<in> set rs. \<not> pb_bitset r)) \<and>
    (probe_layers (\<lambda>l. block_sector_offset l sector) layers = Inr None \<longleftrightarrow> (\<forall>r \<in> set rs. \<not> pb_alloc r)) \<and>
    (\<exists>x. probe_layers (\<lambda>l. sector_offset (se_ignore_bitmap env) l sector) layers = Inr x) \<and>
    (\<exists>x. probe_layers (\<lambda>l. block_sector_offset l sector) layers = Inr x)"
  using assms
proof (induction paths arbitrary: rs layers)
  case (Cons path paths)
  obtain r rs' where r: "probe_one env sector path = Inr r" "probe_reports env sector paths = Inr rs'" "rs = r # rs'"
    using Cons.prems(1) by (auto split: sum.splits)
  obtain l ls where l: "dynamic_open (se_file env) path = Inr l" "open_layers (se_file env) vs paths = Inr ls" "layers = l # ls"
    using Cons.prems(2) by (auto split: sum.splits if_splits)
  obtain bitset block where b: "sector_offset (se_ignore_bitmap env) l sector = Inr bitset"
      "block_sector_offset l sector = Inr block" "pb_bitset r = (bitset \<noteq> None)" "pb_alloc r = (block \<noteq> None)"
    using r(1) l(1) by (auto simp: probe_one_def split: sum.splits)
  show ?case
    using Cons.IH [OF r(2) l(2)] b by (cases bitset; cases block) (simp_all add: r(3) l(3))
qed simp

lemma probe_agrees:
  assumes "probe env base_path offset = Inr (reports, raw)"
    and "chain_open (se_file env) base (increments_of env base_path) = Inr c"
  shows "(\<exists>src. chain_source (se_ignore_bitmap env) c (offset div SECTOR) = Inr (Some src)) \<longleftrightarrow>
    (\<exists>r \<in> set reports. pb_bitset r \<or> pb_alloc r)"
proof -
  obtain layers where o': "open_layers (se_file env) (bs_size base) (rev (increments_of env base_path)) = Inr layers"
      "cv_overlays c = layers"
    using assms(2) by (auto simp: chain_open_def split: sum.splits)
  have p: "probe_reports env (offset div SECTOR) (rev (increments_of env base_path)) = Inr reports"
    using assms(1) by (auto simp: probe_def map_sum_def split: sum.splits)
  show ?thesis
    using probe_layers_reports [OF p o'(1)] by (auto simp: chain_source_def o'(2) split: option.splits sum.splits)
qed

end
