(* ===== verification/Tftp.thy ===== *)
theory Tftp
  imports Iscsi_Pdu
begin

text \<open>
  The TFTP server (\<open>net/tftp/\<close>): the packet codec (\<open>packet.rs\<close>), the answer to a read request, and
  the lock-step transfer with its retransmissions (\<open>server.rs\<close>). The file system answers through
  the record \<open>tftp_fs\<close>; what a transfer receives while it waits is a list of events. Sending
  does not fail in the model.
\<close>

section \<open>Packets\<close>

definition OP_RRQ :: u16 where "OP_RRQ = 1"
definition OP_WRQ :: u16 where "OP_WRQ = 2"
definition OP_DATA :: u16 where "OP_DATA = 3"
definition OP_ACK :: u16 where "OP_ACK = 4"
definition OP_ERROR :: u16 where "OP_ERROR = 5"
definition OP_OACK :: u16 where "OP_OACK = 6"

definition ERR_UNDEFINED :: u16 where "ERR_UNDEFINED = 0"
definition ERR_FILE_NOT_FOUND :: u16 where "ERR_FILE_NOT_FOUND = 1"
definition ERR_ACCESS_VIOLATION :: u16 where "ERR_ACCESS_VIOLATION = 2"

lemmas tftp_ops = OP_RRQ_def OP_WRQ_def OP_DATA_def OP_ACK_def OP_ERROR_def OP_OACK_def

datatype tftp_packet =
    Rrq rstr rstr "(rstr \<times> rstr) list"
  | Wrq rstr rstr
  | Ack u16
  | Error u16 rstr

datatype tftp_parse_error = TooShort | UnknownOpcode u16 | MissingNull | EmptyField | BadAckLength nat

definition read_cstr :: "bytes \<Rightarrow> nat \<Rightarrow> tftp_parse_error + rstr \<times> nat" where
  "read_cstr buf pos =
     (case position (\<lambda>b. b = 0) (drop pos buf) of
        None \<Rightarrow> Inl MissingNull
      | Some e \<Rightarrow>
          let s = from_utf8_lossy (window pos e buf) in
          if s = [] then Inl EmptyField else Inr (s, pos + e + 1))"

lemma read_cstr_pos: "read_cstr buf pos = Inr (s, p) \<Longrightarrow> pos < p \<and> p \<le> length buf"
  by (auto simp: read_cstr_def Let_def position_Some split: option.splits if_splits)

function rq_options :: "(rstr \<Rightarrow> rstr) \<Rightarrow> bytes \<Rightarrow> nat \<Rightarrow> tftp_parse_error + (rstr \<times> rstr) list" where
  "rq_options uni tail pos =
     (if pos < length tail then
        (case read_cstr tail pos of
           Inl e \<Rightarrow> Inl e
         | Inr (key, p1) \<Rightarrow>
             if p1 \<ge> length tail then Inr []
             else (case read_cstr tail p1 of
                Inl e \<Rightarrow> Inl e
              | Inr (val, p2) \<Rightarrow>
                  (case rq_options uni tail p2 of
                     Inl e \<Rightarrow> Inl e
                   | Inr opts \<Rightarrow> Inr ((to_lowercase uni key, val) # opts))))
      else Inr [])"
  by pat_completeness auto
termination
  by (relation "measure (\<lambda>(uni, tail, pos). length tail - pos)")
    (auto dest!: sym [of _ "read_cstr _ _"] read_cstr_pos)

declare rq_options.simps [simp del]

definition parse_rq :: "(rstr \<Rightarrow> rstr) \<Rightarrow> u16 \<Rightarrow> bytes \<Rightarrow> tftp_parse_error + tftp_packet" where
  "parse_rq uni opcode tail =
     (case read_cstr tail 0 of
        Inl e \<Rightarrow> Inl e
      | Inr (filename, p1) \<Rightarrow>
          (case read_cstr tail p1 of
             Inl e \<Rightarrow> Inl e
           | Inr (mode, p2) \<Rightarrow>
               if opcode = OP_WRQ then Inr (Wrq filename mode)
               else map_sum id (Rrq filename mode) (rq_options uni tail p2)))"

definition parse_ack :: "bytes \<Rightarrow> tftp_parse_error + tftp_packet" where
  "parse_ack tail = (if length tail \<noteq> 2 then Inl (BadAckLength (length tail + 2)) else Inr (Ack (be16 tail 0)))"

definition parse_error :: "bytes \<Rightarrow> tftp_parse_error + tftp_packet" where
  "parse_error tail =
     (if length tail < 3 then Inl TooShort
      else Inr (Error (be16 tail 0) (from_utf8_lossy (window 2 (length tail - 1 - 2) tail))))"

definition tftp_parse :: "(rstr \<Rightarrow> rstr) \<Rightarrow> bytes \<Rightarrow> tftp_parse_error + tftp_packet" where
  "tftp_parse uni buf =
     (if length buf < 2 then Inl TooShort
      else let opcode = be16 buf 0 in
        if opcode = OP_RRQ \<or> opcode = OP_WRQ then parse_rq uni opcode (drop 2 buf)
        else if opcode = OP_ACK then parse_ack (drop 2 buf)
        else if opcode = OP_ERROR then parse_error (drop 2 buf)
        else Inl (UnknownOpcode opcode))"

definition is_sep :: "u8 \<Rightarrow> bool" where
  "is_sep b \<longleftrightarrow> b = 47 \<or> b = 92"

definition is_safe_path :: "rstr \<Rightarrow> bool" where
  "is_safe_path name \<longleftrightarrow>
     name \<noteq> [] \<and> \<not> (starts_with [47] name \<or> starts_with [92] name) \<and>
     \<not> (length name \<ge> 2 \<and> name ! 1 = 58) \<and>
     list_all (\<lambda>c. c \<noteq> ascii ''..'' \<and> c \<noteq> ascii ''.'') (split_on is_sep name)"

definition encode_data :: "u16 \<Rightarrow> bytes \<Rightarrow> bytes" where
  "encode_data block data = word_field 2 OP_DATA @ word_field 2 block @ data"

definition encode_oack :: "(rstr \<times> rstr) list \<Rightarrow> bytes" where
  "encode_oack options = word_field 2 OP_OACK @ concat (map (\<lambda>(k, v). k @ [0] @ v @ [0]) options)"

definition encode_error :: "u16 \<Rightarrow> rstr \<Rightarrow> bytes" where
  "encode_error code message = word_field 2 OP_ERROR @ word_field 2 code @ message @ [0]"

section \<open>The server\<close>

record tftp_server =
  ts_tftp_root :: rstr
  ts_transfer_timeout :: nat
  ts_max_retries :: nat
  ts_max_blksize :: u16

text \<open>Timeouts are milliseconds.\<close>

definition tftp_server_new :: "rstr \<Rightarrow> tftp_server" where
  "tftp_server_new root =
     \<lparr>ts_tftp_root = root, ts_transfer_timeout = 1000, ts_max_retries = 5, ts_max_blksize = 1468\<rparr>"

text \<open>
  The file system: \<open>PathBuf::join\<close>, \<open>canonicalize\<close> (a canonical path is its components) and
  \<open>tokio::fs::read\<close>.
\<close>

record tftp_fs =
  fs_join :: "rstr \<Rightarrow> rstr \<Rightarrow> rstr"
  fs_canonicalize :: "rstr \<Rightarrow> rstr list option"
  fs_read :: "rstr list \<Rightarrow> bytes option"

datatype recv = Received bytes | RecvError | Timeout

datatype progress = Waiting | Returned

fun negotiate_blksize :: "(rstr \<times> rstr) list \<Rightarrow> u16 \<Rightarrow> u16" where
  "negotiate_blksize [] max_blksize = 512"
| "negotiate_blksize ((key, val) # options) max_blksize =
     (if key = ascii ''blksize'' then
        (case parse_uint 65536 val of
           Some v \<Rightarrow> if v \<ge> 8 then min (of_nat v) max_blksize else negotiate_blksize options max_blksize
         | None \<Rightarrow> negotiate_blksize options max_blksize)
      else negotiate_blksize options max_blksize)"

record transfer =
  tr_current :: u16
  tr_retries :: nat
  tr_timeout :: nat

definition transfer_start :: "tftp_server \<Rightarrow> transfer" where
  "transfer_start cfg = \<lparr>tr_current = 1, tr_retries = 0, tr_timeout = ts_transfer_timeout cfg\<rparr>"

text \<open>The chunk of the current block; the subtraction and the slice panic out of range.\<close>

definition current_chunk :: "bytes \<Rightarrow> nat \<Rightarrow> u16 \<Rightarrow> bytes io" where
  "current_chunk data block_size current =
     (if unat current = 0 then Inl Panicked
      else let start = (unat current - 1) * block_size; stop = min (start + block_size) (length data) in
        if start > stop then Inl Panicked else Inr (window start (stop - start) data))"

definition retry :: "tftp_server \<Rightarrow> bytes list \<Rightarrow> transfer \<Rightarrow> bytes list \<times> transfer option" where
  "retry cfg farewell t =
     (if tr_retries t + 1 > ts_max_retries cfg then (farewell, None)
      else ([], Some (t\<lparr>tr_retries := tr_retries t + 1, tr_timeout := tr_timeout t * 2\<rparr>)))"

text \<open>
  What follows one wait: the packets sent, and the state of the next round or \<open>None\<close> to return.
  The receive buffer holds 64 bytes.
\<close>

definition after_wait :: "(rstr \<Rightarrow> rstr) \<Rightarrow> tftp_server \<Rightarrow> bool \<Rightarrow> transfer \<Rightarrow> recv \<Rightarrow> bytes list \<times> transfer option" where
  "after_wait uni cfg last_block t ev =
     (if last_block then
        (case ev of
           Received d \<Rightarrow>
             if tftp_parse uni (take 64 d) = Inr (Ack (tr_current t)) then ([], None) else retry cfg [] t
         | _ \<Rightarrow> retry cfg [] t)
      else
        (case ev of
           Received d \<Rightarrow>
             if tftp_parse uni (take 64 d) = Inr (Ack (tr_current t))
             then ([], Some (t\<lparr>tr_current := tr_current t + 1, tr_retries := 0,
                               tr_timeout := ts_transfer_timeout cfg\<rparr>))
             else retry cfg [] t
         | RecvError \<Rightarrow> retry cfg [] t
         | Timeout \<Rightarrow> retry cfg [encode_error ERR_UNDEFINED (ascii ''Transfer timed out'')] t))"

fun transfer_blocks ::
  "(rstr \<Rightarrow> rstr) \<Rightarrow> tftp_server \<Rightarrow> bytes \<Rightarrow> u16 \<Rightarrow> transfer \<Rightarrow> recv list \<Rightarrow> bytes list \<times> progress io" where
  "transfer_blocks uni cfg data blksize t evs =
     (case current_chunk data (unat blksize) (tr_current t) of
        Inl e \<Rightarrow> ([], Inl e)
      | Inr chunk \<Rightarrow>
          let data_pkt = encode_data (tr_current t) chunk in
          (case evs of
             [] \<Rightarrow> ([data_pkt], Inr Waiting)
           | ev # evs' \<Rightarrow>
               (case after_wait uni cfg (length chunk < unat blksize) t ev of
                  (sent, None) \<Rightarrow> (data_pkt # sent, Inr Returned)
                | (sent, Some t') \<Rightarrow>
                    let (more, r) = transfer_blocks uni cfg data blksize t' evs' in (data_pkt # sent @ more, r))))"

declare transfer_blocks.simps [simp del]

definition oack_options :: "(rstr \<times> rstr) list \<Rightarrow> u16 \<Rightarrow> bytes \<Rightarrow> (rstr \<times> rstr) list" where
  "oack_options options blksize file_data =
     [(ascii ''blksize'', dec (unat blksize))]
     @ (if list_ex (\<lambda>(k, v). k = ascii ''tsize'' \<and> v = ascii ''0'') options
        then [(ascii ''tsize'', dec (length file_data))] else [])"

definition handle_rrq ::
  "(rstr \<Rightarrow> rstr) \<Rightarrow> tftp_fs \<Rightarrow> tftp_server \<Rightarrow> rstr \<Rightarrow> (rstr \<times> rstr) list \<Rightarrow> recv list \<Rightarrow> bytes list \<times> progress io" where
  "handle_rrq uni fs cfg filename options evs =
     (if \<not> is_safe_path filename then
        ([encode_error ERR_ACCESS_VIOLATION (ascii ''Invalid path'')], Inr Returned)
      else case fs_canonicalize fs (fs_join fs (ts_tftp_root cfg) filename) of
        None \<Rightarrow> ([encode_error ERR_FILE_NOT_FOUND (ascii ''File not found'')], Inr Returned)
      | Some real_path \<Rightarrow>
          (case fs_canonicalize fs (ts_tftp_root cfg) of
             None \<Rightarrow> ([encode_error ERR_UNDEFINED (ascii ''Server error'')], Inr Returned)
           | Some real_root \<Rightarrow>
               if \<not> starts_with real_root real_path then
                 ([encode_error ERR_ACCESS_VIOLATION (ascii ''Path traversal denied'')], Inr Returned)
               else case fs_read fs real_path of
                 None \<Rightarrow> ([encode_error ERR_FILE_NOT_FOUND (ascii ''File not found'')], Inr Returned)
               | Some file_data \<Rightarrow>
                   let blksize = negotiate_blksize options (ts_max_blksize cfg) in
                   if options = [] then transfer_blocks uni cfg file_data blksize (transfer_start cfg) evs
                   else
                     let oack = encode_oack (oack_options options blksize file_data) in
                     (case evs of
                        [] \<Rightarrow> ([oack], Inr Waiting)
                      | ev # evs' \<Rightarrow>
                          (case ev of
                             Received d \<Rightarrow>
                               if tftp_parse uni (take 64 d) = Inr (Ack 0) then
                                 let (sent, r) = transfer_blocks uni cfg file_data blksize (transfer_start cfg) evs' in
                                 (oack # sent, r)
                               else ([oack], Inr Returned)
                           | _ \<Rightarrow> ([oack], Inr Returned)))))"

definition handle_request ::
  "(rstr \<Rightarrow> rstr) \<Rightarrow> tftp_fs \<Rightarrow> tftp_server \<Rightarrow> bytes \<Rightarrow> recv list \<Rightarrow> bytes list \<times> progress io" where
  "handle_request uni fs cfg datagram evs =
     (case tftp_parse uni datagram of
        Inl _ \<Rightarrow> ([], Inr Returned)
      | Inr pkt \<Rightarrow>
          (case pkt of
             Rrq filename mode options \<Rightarrow> handle_rrq uni fs cfg filename options evs
           | Wrq filename mode \<Rightarrow>
               ([encode_error ERR_ACCESS_VIOLATION (ascii ''Write access denied'')], Inr Returned)
           | Ack b \<Rightarrow> ([], Inr Returned)
           | Error c m \<Rightarrow> ([], Inr Returned)))"


section \<open>Requests on the wire\<close>

text \<open>What a client sends (RFC 1350, RFC 2347).\<close>

definition cstr :: "rstr \<Rightarrow> bytes" where
  "cstr s = s @ [0]"

definition encode_rrq :: "rstr \<Rightarrow> rstr \<Rightarrow> (rstr \<times> rstr) list \<Rightarrow> bytes" where
  "encode_rrq filename mode options =
     word_field 2 OP_RRQ @ cstr filename @ cstr mode @ concat (map (\<lambda>(k, v). cstr k @ cstr v) options)"

definition ack_datagram :: "u16 \<Rightarrow> bytes" where
  "ack_datagram block = word_field 2 OP_ACK @ word_field 2 block"

definition cstr_ok :: "rstr \<Rightarrow> bool" where
  "cstr_ok s \<longleftrightarrow> s \<noteq> [] \<and> 0 \<notin> set s \<and> is_utf8 s"

lemma be16_word_field: "be16 (word_field 2 (w :: u16) @ rest) 0 = w"
  by (simp add: be16_def window_append1 be_val_word_field)

lemma word_field_inj: "word_field 2 (a :: u16) = word_field 2 b \<longleftrightarrow> a = b"
  by (metis be16_word_field)

lemma read_cstr_at:
  assumes "cstr_ok s" "drop pos buf = cstr s @ rest"
  shows "read_cstr buf pos = Inr (s, pos + length s + 1)"
proof -
  have "position (\<lambda>b. b = 0) (drop pos buf) = Some (length s)"
    using assms by (auto simp: cstr_def cstr_ok_def intro!: position_append_first)
  moreover have "window pos (length s) buf = s"
    unfolding window_def assms(2) by (simp add: cstr_def)
  ultimately show ?thesis using assms(1) by (simp add: read_cstr_def cstr_ok_def is_utf8_def)
qed

lemma rq_options_at:
  assumes "list_all (\<lambda>(k, v). cstr_ok k \<and> cstr_ok v) options"
    and "drop pos buf = concat (map (\<lambda>(k, v). cstr k @ cstr v) options)" "pos \<le> length buf"
  shows "rq_options uni buf pos = Inr (map (\<lambda>(k, v). (to_lowercase uni k, v)) options)"
  using assms
proof (induction options arbitrary: pos)
  case Nil
  then show ?case by (subst rq_options.simps) simp
next
  case (Cons kv options)
  obtain k v where kv: "kv = (k, v)" by force
  let ?tail = "concat (map (\<lambda>(k, v). cstr k @ cstr v) options)"
  have d: "drop pos buf = cstr k @ cstr v @ ?tail" using Cons.prems(2) by (simp add: kv)
  have ok: "cstr_ok k" "cstr_ok v" using Cons.prems(1) by (simp_all add: kv)
  have len: "length buf = pos + (length k + 1 + (length v + 1 + length ?tail))"
  proof -
    have "length (drop pos buf) = length k + 1 + (length v + 1 + length ?tail)" by (simp add: d cstr_def)
    then show ?thesis using Cons.prems(3) by simp
  qed
  have d2: "drop (pos + length k + 1) buf = cstr v @ ?tail"
  proof -
    have "drop (pos + length k + 1) buf = drop (length (cstr k)) (drop pos buf)" by (simp add: cstr_def add.commute)
    then show ?thesis by (simp add: d)
  qed
  have d3: "drop (pos + length k + 1 + length v + 1) buf = ?tail"
  proof -
    have "drop (pos + length k + 1 + length v + 1) buf = drop (length (cstr v)) (drop (pos + length k + 1) buf)"
      by (simp add: cstr_def add.commute add.left_commute)
    also have "\<dots> = ?tail" unfolding d2 by simp
    finally show ?thesis .
  qed
  have "rq_options uni buf (pos + length k + 1 + length v + 1) =
      Inr (map (\<lambda>(k, v). (to_lowercase uni k, v)) options)"
    using Cons.prems(1) d3 len by (intro Cons.IH) simp_all
  then show ?case
    using read_cstr_at [OF ok(1) d] read_cstr_at [OF ok(2) d2] len
    by (subst rq_options.simps) (simp add: kv)
qed

lemma parse_encode_rrq:
  assumes "cstr_ok filename" "cstr_ok mode" "list_all (\<lambda>(k, v). cstr_ok k \<and> cstr_ok v) options"
  shows "tftp_parse uni (encode_rrq filename mode options) =
    Inr (Rrq filename mode (map (\<lambda>(k, v). (to_lowercase uni k, v)) options))"
proof -
  let ?opts = "concat (map (\<lambda>(k, v). cstr k @ cstr v) options)"
  let ?tail = "cstr filename @ cstr mode @ ?opts"
  have "read_cstr ?tail 0 = Inr (filename, length filename + 1)"
    using read_cstr_at [OF assms(1), of 0 ?tail] by simp
  moreover have "read_cstr ?tail (length filename + 1) = Inr (mode, length filename + 1 + length mode + 1)"
    using read_cstr_at [OF assms(2), of "length filename + 1" ?tail] by (simp add: cstr_def)
  moreover have "rq_options uni ?tail (length filename + 1 + length mode + 1) =
      Inr (map (\<lambda>(k, v). (to_lowercase uni k, v)) options)"
    using assms(3) by (intro rq_options_at) (simp_all add: cstr_def)
  ultimately have "parse_rq uni OP_RRQ ?tail = Inr (Rrq filename mode (map (\<lambda>(k, v). (to_lowercase uni k, v)) options))"
    by (simp add: parse_rq_def tftp_ops)
  moreover have "tftp_parse uni (encode_rrq filename mode options) = parse_rq uni OP_RRQ ?tail"
    by (simp add: tftp_parse_def encode_rrq_def be16_word_field)
  ultimately show ?thesis by simp
qed

lemma parse_ack_datagram: "tftp_parse uni (take 64 (ack_datagram b)) = Inr (Ack b)"
proof -
  have "take 64 (ack_datagram b) = ack_datagram b" by (simp add: ack_datagram_def)
  moreover have "be16 (ack_datagram b) 0 = OP_ACK" by (simp add: ack_datagram_def be16_word_field)
  moreover have "drop 2 (ack_datagram b) = word_field 2 b" by (simp add: ack_datagram_def)
  moreover have "be16 (word_field 2 b) 0 = b" using be16_word_field [of b "[]"] by simp
  ultimately show ?thesis
    by (simp add: tftp_parse_def parse_ack_def tftp_ops) (simp add: ack_datagram_def)
qed

section \<open>The transfer\<close>

text \<open>The number of blocks, and block \<open>i\<close> of the file, from 1.\<close>

definition n_blocks :: "bytes \<Rightarrow> nat \<Rightarrow> nat" where
  "n_blocks data bs = length data div bs + 1"

definition file_block :: "bytes \<Rightarrow> nat \<Rightarrow> nat \<Rightarrow> bytes" where
  "file_block data bs i = window ((i - 1) * bs) bs data"

definition data_packet :: "bytes \<Rightarrow> nat \<Rightarrow> nat \<Rightarrow> bytes" where
  "data_packet data bs i = encode_data (of_nat i) (file_block data bs i)"

lemma block_start: "0 < bs \<Longrightarrow> 1 \<le> i \<Longrightarrow> i \<le> n_blocks data bs \<longleftrightarrow> (i - 1) * bs \<le> length data"
proof -
  assume "0 < bs" "1 \<le> i"
  then have "i \<le> n_blocks data bs \<longleftrightarrow> i - 1 \<le> length data div bs" by (auto simp: n_blocks_def)
  then show ?thesis using \<open>0 < bs\<close> by (simp add: less_eq_div_iff_mult_less_eq)
qed

lemma last_block_short:
  assumes "0 < bs" "1 \<le> i" "i \<le> n_blocks data bs"
  shows "length (file_block data bs i) < bs \<longleftrightarrow> i = n_blocks data bs"
proof -
  have "i = n_blocks data bs \<longleftrightarrow> \<not> i + 1 \<le> n_blocks data bs" using assms(3) by linarith
  also have "\<dots> \<longleftrightarrow> length data < i * bs"
    using block_start [of bs "i + 1" data] assms(1) by auto
  also have "\<dots> \<longleftrightarrow> length (file_block data bs i) < bs"
    using assms(1,2) block_start [OF assms(1,2), of data] assms(3)
    by (cases i) (auto simp: file_block_def length_window)
  finally show ?thesis by simp
qed

lemma current_chunk_block:
  assumes "0 < bs" "unat c = i" "1 \<le> i" "i \<le> n_blocks data bs"
  shows "current_chunk data bs c = Inr (file_block data bs i)"
proof -
  have "(i - 1) * bs \<le> length data" using block_start assms by blast
  then show ?thesis
    using assms(2,3) by (auto simp: current_chunk_def file_block_def Let_def window_def min_def)
qed

text \<open>The blocks put together are the file.\<close>

lemma blocks_concat: "concat (map (\<lambda>i. file_block data bs (Suc i)) [0..<n]) = take (n * bs) data"
proof (induction n)
  case (Suc n)
  have "take (n * bs) data @ window (n * bs) bs data = window 0 (n * bs + bs) data"
    using window_split [of 0 "n * bs" bs data] by (simp add: window_def)
  with Suc show ?case by (simp add: file_block_def window_def add.commute)
qed simp

lemma blocks_all:
  assumes "0 < bs"
  shows "concat (map (file_block data bs) [1..<Suc (n_blocks data bs)]) = data"
proof -
  have "length data < (length data div bs + 1) * bs"
    using assms dividend_less_times_div [of bs "length data"] by (simp add: add.commute mult.commute)
  moreover have "map (file_block data bs) [1..<Suc (n_blocks data bs)]
      = map (\<lambda>i. file_block data bs (Suc i)) [0..<n_blocks data bs]"
    by (simp add: map_Suc_upt [symmetric] del: upt_Suc)
  ultimately show ?thesis by (simp add: blocks_concat n_blocks_def del: upt_Suc)
qed

definition transfer_ok :: "tftp_server \<Rightarrow> bytes \<Rightarrow> nat \<Rightarrow> transfer \<Rightarrow> bool" where
  "transfer_ok cfg data bs t \<longleftrightarrow>
     1 \<le> unat (tr_current t) \<and> unat (tr_current t) \<le> n_blocks data bs \<and> tr_retries t \<le> ts_max_retries cfg"

lemma transfer_start_ok: "transfer_ok cfg data bs (transfer_start cfg)"
  by (simp add: transfer_ok_def transfer_start_def n_blocks_def)

text \<open>Rounds left: every round either resends or goes on to the next block.\<close>

definition rounds_left :: "tftp_server \<Rightarrow> bytes \<Rightarrow> nat \<Rightarrow> transfer \<Rightarrow> nat" where
  "rounds_left cfg data bs t =
     (n_blocks data bs - unat (tr_current t)) * (ts_max_retries cfg + 1) + (ts_max_retries cfg + 1 - tr_retries t)"

lemma after_wait_cases:
  assumes "after_wait uni cfg last_block t ev = (out, Some t')"
  shows "out = [] \<or> out = [encode_error ERR_UNDEFINED (ascii ''Transfer timed out'')]"
    and "tr_current t' = tr_current t \<and> tr_retries t' = tr_retries t + 1 \<and> tr_retries t' \<le> ts_max_retries cfg \<or>
      \<not> last_block \<and> tr_current t' = tr_current t + 1 \<and> tr_retries t' = 0"
  using assms by (auto simp: after_wait_def retry_def split: if_splits recv.splits)

lemma after_wait_out:
  "after_wait uni cfg last_block t ev = (out, r) \<Longrightarrow>
    set out \<subseteq> {encode_error ERR_UNDEFINED (ascii ''Transfer timed out'')}"
  by (auto simp: after_wait_def retry_def split: if_splits recv.splits)

lemma after_wait_ok:
  assumes "transfer_ok cfg data bs t" "0 < bs" "n_blocks data bs < 65536"
    and "after_wait uni cfg (length (file_block data bs (unat (tr_current t))) < bs) t ev = (out, Some t')"
  shows "transfer_ok cfg data bs t' \<and> rounds_left cfg data bs t' < rounds_left cfg data bs t"
  using after_wait_cases(2) [OF assms(4)]
proof
  assume "tr_current t' = tr_current t \<and> tr_retries t' = tr_retries t + 1 \<and> tr_retries t' \<le> ts_max_retries cfg"
  then show ?thesis using assms(1) by (auto simp: transfer_ok_def rounds_left_def)
next
  assume a: "\<not> length (file_block data bs (unat (tr_current t))) < bs \<and> tr_current t' = tr_current t + 1 \<and> tr_retries t' = 0"
  have c: "1 \<le> unat (tr_current t)" "unat (tr_current t) \<le> n_blocks data bs" using assms(1) by (auto simp: transfer_ok_def)
  then have lt: "unat (tr_current t) < n_blocks data bs" using a last_block_short [OF assms(2) c] by auto
  then have u: "unat (tr_current t') = unat (tr_current t) + 1"
    using a assms(3) by (simp add: unat_word_ariths)
  obtain k where k: "n_blocks data bs - unat (tr_current t) = Suc k" using lt by (cases "n_blocks data bs - unat (tr_current t)") auto
  then have "n_blocks data bs - unat (tr_current t') = k" using u by simp
  then have "rounds_left cfg data bs t' = k * (ts_max_retries cfg + 1) + (ts_max_retries cfg + 1)"
    using a by (simp add: rounds_left_def)
  moreover have "rounds_left cfg data bs t =
      k * (ts_max_retries cfg + 1) + (ts_max_retries cfg + 1) + (ts_max_retries cfg + 1 - tr_retries t)"
    by (simp add: rounds_left_def k)
  moreover have "tr_retries t \<le> ts_max_retries cfg" using assms(1) by (simp add: transfer_ok_def)
  ultimately have "rounds_left cfg data bs t' < rounds_left cfg data bs t" by linarith
  then show ?thesis using u lt a by (simp add: transfer_ok_def)
qed


lemma transfer_chunk:
  assumes "transfer_ok cfg data (unat blksize) t" "0 < unat blksize"
  shows "current_chunk data (unat blksize) (tr_current t) = Inr (file_block data (unat blksize) (unat (tr_current t)))"
  using assms current_chunk_block by (auto simp: transfer_ok_def)

text \<open>The transfer returns after a bounded number of events, whatever the network does, and never panics.\<close>

lemma transfer_returns:
  assumes "0 < unat blksize" "n_blocks data (unat blksize) < 65536"
  shows "transfer_ok cfg data (unat blksize) t \<Longrightarrow>
    snd (transfer_blocks uni cfg data blksize t evs) \<in> {Inr Waiting, Inr Returned} \<and>
    (rounds_left cfg data (unat blksize) t \<le> length evs \<longrightarrow> snd (transfer_blocks uni cfg data blksize t evs) = Inr Returned)"
proof (induction evs arbitrary: t)
  case Nil
  then have "0 < rounds_left cfg data (unat blksize) t" by (simp add: rounds_left_def transfer_ok_def)
  then show ?case
    by (subst (1 2) transfer_blocks.simps) (simp add: transfer_chunk [OF Nil assms(1)])
next
  case (Cons ev evs)
  let ?chunk = "file_block data (unat blksize) (unat (tr_current t))"
  obtain out r where aw: "after_wait uni cfg (length ?chunk < unat blksize) t ev = (out, r)" by force
  show ?case
  proof (cases r)
    case None
    then show ?thesis
      using aw by (subst (1 2) transfer_blocks.simps) (simp add: transfer_chunk [OF Cons.prems assms(1)])
  next
    case (Some t')
    then have t': "transfer_ok cfg data (unat blksize) t'" "rounds_left cfg data (unat blksize) t' < rounds_left cfg data (unat blksize) t"
      using after_wait_ok [OF Cons.prems assms] aw by auto
    have "snd (transfer_blocks uni cfg data blksize t (ev # evs)) = snd (transfer_blocks uni cfg data blksize t' evs)"
      using aw Some
      by (subst transfer_blocks.simps) (simp add: transfer_chunk [OF Cons.prems assms(1)] split: prod.split)
    then show ?thesis using Cons.IH [OF t'(1)] t'(2) by auto
  qed
qed

text \<open>A client that acknowledges every block gets the file.\<close>

lemma after_wait_ack:
  "after_wait uni cfg last_block t (Received (ack_datagram (tr_current t))) =
    (if last_block then ([], None)
     else ([], Some (t\<lparr>tr_current := tr_current t + 1, tr_retries := 0, tr_timeout := ts_transfer_timeout cfg\<rparr>)))"
  by (simp add: after_wait_def parse_ack_datagram)

definition advance :: "tftp_server \<Rightarrow> transfer \<Rightarrow> transfer" where
  "advance cfg t = t\<lparr>tr_current := tr_current t + 1, tr_retries := 0, tr_timeout := ts_transfer_timeout cfg\<rparr>"

lemma transfer_ack_round:
  assumes "0 < unat blksize" "tr_current t = of_nat i" "1 \<le> i" "i \<le> n_blocks data (unat blksize)" "i < 65536"
  shows "transfer_blocks uni cfg data blksize t (Received (ack_datagram (of_nat i)) # evs) =
    (if i = n_blocks data (unat blksize) then ([data_packet data (unat blksize) i], Inr Returned)
     else apfst (Cons (data_packet data (unat blksize) i)) (transfer_blocks uni cfg data blksize (advance cfg t) evs))"
proof -
  have u: "unat (tr_current t) = i" using assms(2,5) by (simp add: unat_of_nat)
  have c: "current_chunk data (unat blksize) (tr_current t) = Inr (file_block data (unat blksize) i)"
    using current_chunk_block [OF assms(1) u assms(3,4)] .
  have e: "ack_datagram (of_nat i) = ack_datagram (tr_current t)" "data_packet data (unat blksize) i =
      encode_data (tr_current t) (file_block data (unat blksize) i)"
    using assms(2) by (simp_all add: data_packet_def)
  show ?thesis
    unfolding e
    using last_block_short [OF assms(1,3,4)]
    by (subst transfer_blocks.simps) (simp add: c after_wait_ack advance_def split: prod.split)
qed

lemma transfer_acked:
  assumes "0 < unat blksize" "n_blocks data (unat blksize) < 65536"
  shows "1 \<le> i \<Longrightarrow> i \<le> n_blocks data (unat blksize) \<Longrightarrow> tr_current t = of_nat i \<Longrightarrow>
    transfer_blocks uni cfg data blksize t
      (map (\<lambda>i. Received (ack_datagram (of_nat i))) [i..<Suc (n_blocks data (unat blksize))]) =
    (map (data_packet data (unat blksize)) [i..<Suc (n_blocks data (unat blksize))], Inr Returned)"
proof (induction "n_blocks data (unat blksize) - i" arbitrary: i t)
  case 0
  let ?n = "n_blocks data (unat blksize)"
  have i: "i = ?n" "[i..<Suc ?n] = [i]" using 0 by simp_all
  then show ?case
    using transfer_ack_round [OF assms(1) 0(4) 0(2,3)] assms(2) by (simp del: upt_Suc)
next
  case (Suc k)
  let ?n = "n_blocks data (unat blksize)"
  have i: "i < ?n" "[i..<Suc ?n] = i # [Suc i..<Suc ?n]" using Suc(2) by (simp_all add: upt_conv_Cons del: upt_Suc)
  have "transfer_blocks uni cfg data blksize (advance cfg t) (map (\<lambda>i. Received (ack_datagram (of_nat i))) [Suc i..<Suc ?n]) =
      (map (data_packet data (unat blksize)) [Suc i..<Suc ?n], Inr Returned)"
    using Suc(2) i(1) Suc(5) by (intro Suc(1)) (simp_all add: advance_def add.commute)
  then show ?case
    unfolding i(2) list.map
    using transfer_ack_round [OF assms(1) Suc(5) Suc(3,4), of uni cfg] assms(2) i(1) by (simp del: upt_Suc)
qed

text \<open>
  From 65535 full blocks on, the block counter wraps to 0 after the acknowledgement of block 65535
  and the next round panics.
\<close>

lemma transfer_zero: "tr_current t = 0 \<Longrightarrow> transfer_blocks uni cfg data blksize t evs = ([], Inl Panicked)"
  by (subst transfer_blocks.simps) (simp add: current_chunk_def)

lemma transfer_wraps:
  assumes "0 < unat blksize" "65536 \<le> n_blocks data (unat blksize)"
  shows "1 \<le> i \<Longrightarrow> i \<le> 65535 \<Longrightarrow> tr_current t = of_nat i \<Longrightarrow>
    snd (transfer_blocks uni cfg data blksize t (map (\<lambda>i. Received (ack_datagram (of_nat i))) [i..<65536])) = Inl Panicked"
proof (induction "65535 - i" arbitrary: i t)
  case 0
  then have i: "i = 65535" by simp
  have "[i..<65536] = [i]" by (simp add: i upt_rec)
  moreover have "tr_current (advance cfg t) = 0" using 0(4) i by (simp add: advance_def)
  ultimately show ?case
    using transfer_ack_round [OF assms(1) 0(4) 0(2), of data uni cfg "[]"] assms(2) 0(3) i
    by (simp add: transfer_zero)
next
  case (Suc k)
  have i: "i < 65535" "[i..<65536] = i # [Suc i..<65536]" using Suc(2) by (simp_all add: upt_conv_Cons)
  have "snd (transfer_blocks uni cfg data blksize (advance cfg t) (map (\<lambda>i. Received (ack_datagram (of_nat i))) [Suc i..<65536])) = Inl Panicked"
    using Suc(2) i(1) Suc(5) by (intro Suc(1)) (simp_all add: advance_def add.commute)
  then show ?case
    unfolding i(2) list.map
    using transfer_ack_round [OF assms(1) Suc(5) Suc(3), of data uni cfg] assms(2) i(1) by simp
qed

section \<open>Over a network that loses, repeats and reorders\<close>

text \<open>
  The server and a client that keeps the block it expects next. The network may drop a packet,
  deliver it at any later time and any number of times, and hand the server any datagram at all.
\<close>

record tftp_client =
  tc_expected :: nat
  tc_got :: bytes
  tc_done :: bool

definition client_recv :: "nat \<Rightarrow> tftp_client \<Rightarrow> bytes \<Rightarrow> tftp_client" where
  "client_recv bs c p =
     (if \<not> tc_done c \<and> take 4 p = word_field 2 OP_DATA @ word_field 2 (of_nat (tc_expected c) :: u16)
      then \<lparr>tc_expected = tc_expected c + 1, tc_got = tc_got c @ drop 4 p, tc_done = length (drop 4 p) < bs\<rparr>
      else c)"

record tftp_net =
  nt_server :: "transfer option"
  nt_sent :: "bytes set"
  nt_client :: tftp_client

inductive net_step :: "(rstr \<Rightarrow> rstr) \<Rightarrow> tftp_server \<Rightarrow> bytes \<Rightarrow> u16 \<Rightarrow> tftp_net \<Rightarrow> tftp_net \<Rightarrow> bool"
  for uni cfg data blksize where
  server: "nt_server s = Some t \<Longrightarrow> current_chunk data (unat blksize) (tr_current t) = Inr chunk \<Longrightarrow>
     after_wait uni cfg (length chunk < unat blksize) t ev = (out, later) \<Longrightarrow>
     net_step uni cfg data blksize s
       (s\<lparr>nt_server := later, nt_sent := insert (encode_data (tr_current t) chunk) (set out \<union> nt_sent s)\<rparr>)"
| client: "p \<in> nt_sent s \<Longrightarrow>
     net_step uni cfg data blksize s (s\<lparr>nt_client := client_recv (unat blksize) (nt_client s) p\<rparr>)"

inductive net_reach :: "(rstr \<Rightarrow> rstr) \<Rightarrow> tftp_server \<Rightarrow> bytes \<Rightarrow> u16 \<Rightarrow> tftp_net \<Rightarrow> bool"
  for uni cfg data blksize where
  start: "net_reach uni cfg data blksize
     \<lparr>nt_server = Some (transfer_start cfg), nt_sent = {}, nt_client = \<lparr>tc_expected = 1, tc_got = [], tc_done = False\<rparr>\<rparr>"
| step: "net_reach uni cfg data blksize s \<Longrightarrow> net_step uni cfg data blksize s s' \<Longrightarrow> net_reach uni cfg data blksize s'"

definition sent_ok :: "bytes \<Rightarrow> nat \<Rightarrow> bytes \<Rightarrow> bool" where
  "sent_ok data bs p \<longleftrightarrow>
     (\<exists>i. 1 \<le> i \<and> i \<le> n_blocks data bs \<and> p = data_packet data bs i) \<or>
     p = encode_error ERR_UNDEFINED (ascii ''Transfer timed out'')"

definition client_ok :: "bytes \<Rightarrow> nat \<Rightarrow> tftp_client \<Rightarrow> bool" where
  "client_ok data bs c \<longleftrightarrow> 1 \<le> tc_expected c \<and> tc_got c = take ((tc_expected c - 1) * bs) data \<and>
     (if tc_done c then tc_expected c = n_blocks data bs + 1 else tc_expected c \<le> n_blocks data bs)"

definition net_ok :: "tftp_server \<Rightarrow> bytes \<Rightarrow> nat \<Rightarrow> tftp_net \<Rightarrow> bool" where
  "net_ok cfg data bs s \<longleftrightarrow> (\<forall>t. nt_server s = Some t \<longrightarrow> transfer_ok cfg data bs t) \<and>
     (\<forall>p \<in> nt_sent s. sent_ok data bs p) \<and> client_ok data bs (nt_client s)"

lemma client_recv_ok:
  assumes "client_ok data bs c" "sent_ok data bs p" "0 < bs" "n_blocks data bs < 65536"
  shows "client_ok data bs (client_recv bs c p)"
proof (cases "\<not> tc_done c \<and> take 4 p = word_field 2 OP_DATA @ word_field 2 (of_nat (tc_expected c) :: u16)")
  case True
  let ?e = "tc_expected c"
  have e: "1 \<le> ?e" "?e \<le> n_blocks data bs" "tc_got c = take ((?e - 1) * bs) data"
    using assms(1) True by (simp_all add: client_ok_def)
  have "p \<noteq> encode_error ERR_UNDEFINED (ascii ''Transfer timed out'')"
  proof
    assume p: "p = encode_error ERR_UNDEFINED (ascii ''Transfer timed out'')"
    have "take 2 p = word_field 2 OP_ERROR" by (simp add: p encode_error_def)
    moreover have "take 2 p = take 2 (take 4 p)" by simp
    ultimately have "word_field 2 OP_ERROR = word_field 2 OP_DATA" using True by simp
    then show False by (simp add: word_field_inj tftp_ops)
  qed
  then obtain i where i: "1 \<le> i" "i \<le> n_blocks data bs" "p = data_packet data bs i"
    using assms(2) by (auto simp: sent_ok_def)
  have "drop 2 (take 4 p) = word_field 2 (of_nat i :: u16)" by (simp add: i(3) data_packet_def encode_data_def)
  then have "word_field 2 (of_nat i :: u16) = word_field 2 (of_nat ?e :: u16)" using True by simp
  then have "(of_nat i :: u16) = of_nat ?e" by (simp add: word_field_inj)
  then have ie: "i = ?e" using i e assms(4) by (simp add: word_unat_eq_iff unat_of_nat)
  have d: "drop 4 p = file_block data bs ?e" by (simp add: i(3) ie data_packet_def encode_data_def)
  have "take ((?e - 1) * bs) data @ file_block data bs ?e = take (?e * bs) data"
    using e(1) take_add [of "(?e - 1) * bs" bs data]
    by (cases ?e) (simp_all add: file_block_def window_def add.commute)
  then show ?thesis
    using True e last_block_short [OF assms(3) e(1,2)] by (simp add: client_recv_def client_ok_def d)
next
  case False
  then have "client_recv bs c p = c" unfolding client_recv_def by (rule if_not_P)
  with assms(1) show ?thesis by simp
qed

lemma net_step_ok:
  assumes "net_step uni cfg data blksize s s'" "net_ok cfg data (unat blksize) s"
    and "0 < unat blksize" "n_blocks data (unat blksize) < 65536"
  shows "net_ok cfg data (unat blksize) s'"
  using assms(1)
proof cases
  case (server t chunk ev out later)
  have t: "transfer_ok cfg data (unat blksize) t" using assms(2) server by (simp add: net_ok_def)
  have c: "chunk = file_block data (unat blksize) (unat (tr_current t))" using transfer_chunk [OF t assms(3)] server by simp
  have "sent_ok data (unat blksize) (encode_data (tr_current t) chunk)"
    using t unfolding sent_ok_def transfer_ok_def
    by (intro disjI1 exI [of _ "unat (tr_current t)"]) (simp add: data_packet_def c)
  moreover have "\<forall>p \<in> set out. sent_ok data (unat blksize) p" using after_wait_out [OF server(4)] by (auto simp: sent_ok_def)
  moreover have "transfer_ok cfg data (unat blksize) t'" if "later = Some t'" for t'
    using after_wait_ok [OF t assms(3,4)] server(4) that c by blast
  ultimately show ?thesis using assms(2) server(1) by (auto simp: net_ok_def)
next
  case (client p)
  then show ?thesis using assms client_recv_ok by (simp add: net_ok_def)
qed

lemma net_reach_ok:
  assumes "0 < unat blksize" "n_blocks data (unat blksize) < 65536"
  shows "net_reach uni cfg data blksize s \<Longrightarrow> net_ok cfg data (unat blksize) s"
proof (induction rule: net_reach.induct)
  case start
  show ?case by (simp add: net_ok_def transfer_start_ok client_ok_def n_blocks_def)
next
  case (step s s')
  then show ?case using net_step_ok assms by blast
qed

lemma client_ok_done: "client_ok data bs c \<Longrightarrow> tc_done c \<Longrightarrow> 0 < bs \<Longrightarrow> tc_got c = data"
proof -
  assume a: "client_ok data bs c" "tc_done c" "0 < bs"
  have "length data < (length data div bs + 1) * bs"
    using a(3) dividend_less_times_div [of bs "length data"] by (simp add: add.commute mult.commute)
  then show ?thesis using a by (simp add: client_ok_def n_blocks_def)
qed

section \<open>Negotiation and paths\<close>

lemma negotiate_bounds:
  "8 \<le> max_blksize \<Longrightarrow> negotiate_blksize options max_blksize = 512 \<or>
    8 \<le> negotiate_blksize options max_blksize \<and> negotiate_blksize options max_blksize \<le> max_blksize"
proof (induction options max_blksize rule: negotiate_blksize.induct)
  case (2 key val options max_blksize)
  have "(8 :: u16) \<le> of_nat v" if "parse_uint 65536 val = Some v" "8 \<le> v" for v
    using parse_uint_bound [OF that(1)] that(2) by (simp add: word_le_nat_alt unat_of_nat)
  then show ?case using 2 by (auto split: option.split)
qed simp

lemma negotiate_requested:
  "list_all (\<lambda>(k, v). k \<noteq> ascii ''blksize'') before \<Longrightarrow> parse_uint 65536 val = Some v \<Longrightarrow> 8 \<le> v \<Longrightarrow>
    unat (negotiate_blksize (before @ (ascii ''blksize'', val) # later) max_blksize) = min v (unat max_blksize)"
proof (induction before)
  case Nil
  then have "v < 65536" by (simp add: parse_uint_bound)
  with Nil show ?case by (auto simp: min_def word_le_nat_alt unat_of_nat)
qed auto

text \<open>Lexical resolution of a path from a directory.\<close>

fun walk :: "rstr list \<Rightarrow> rstr list \<Rightarrow> rstr list" where
  "walk dir [] = dir"
| "walk dir (c # cs) = walk (if c = [] \<or> c = ascii ''.'' then dir else if c = ascii ''..'' then butlast dir else dir @ [c]) cs"

lemma walk_safe: "list_all (\<lambda>c. c \<noteq> ascii ''..'') cs \<Longrightarrow> \<exists>below. walk dir cs = dir @ below"
  by (induction dir cs rule: walk.induct) auto

lemma safe_path_below:
  assumes "is_safe_path name"
  shows "\<exists>below. walk dir (split_on is_sep name) = dir @ below"
    and "hd name \<noteq> 47" "hd name \<noteq> 92"
  using assms walk_safe [of "split_on is_sep name" dir]
  by (auto simp: is_safe_path_def list_all_iff starts_with_single)

text \<open>What lies outside the canonical root cannot influence what is sent.\<close>

definition same_under_root :: "tftp_server \<Rightarrow> tftp_fs \<Rightarrow> tftp_fs \<Rightarrow> bool" where
  "same_under_root cfg fs fs' \<longleftrightarrow> fs_join fs' = fs_join fs \<and> fs_canonicalize fs' = fs_canonicalize fs \<and>
     (\<forall>root path. fs_canonicalize fs (ts_tftp_root cfg) = Some root \<and> starts_with root path \<longrightarrow>
       fs_read fs' path = fs_read fs path)"

lemma handle_rrq_confined:
  "same_under_root cfg fs fs' \<Longrightarrow> handle_rrq uni fs' cfg filename options evs = handle_rrq uni fs cfg filename options evs"
  by (simp add: handle_rrq_def same_under_root_def split: option.split)

lemma handle_request_confined:
  "same_under_root cfg fs fs' \<Longrightarrow> handle_request uni fs' cfg d evs = handle_request uni fs cfg d evs"
  by (simp add: handle_request_def handle_rrq_confined split: sum.split tftp_packet.split)

text \<open>A read request for an existing file under the root, from the first packet to the last.\<close>

lemma request_served:
  assumes "fs_canonicalize fs (fs_join fs (ts_tftp_root cfg) filename) = Some path"
    and "fs_canonicalize fs (ts_tftp_root cfg) = Some root" "starts_with root path" "fs_read fs path = Some data"
    and "is_safe_path filename" "cstr_ok filename" "cstr_ok mode" "n_blocks data 512 < 65536"
  shows "handle_request uni fs cfg (encode_rrq filename mode [])
      (map (\<lambda>i. Received (ack_datagram (of_nat i))) [1..<Suc (n_blocks data 512)]) =
    (map (data_packet data 512) [1..<Suc (n_blocks data 512)], Inr Returned)"
proof -
  have "handle_request uni fs cfg (encode_rrq filename mode []) evs = handle_rrq uni fs cfg filename [] evs" for evs
    using parse_encode_rrq [OF assms(6,7), of "[]" uni] by (simp add: handle_request_def)
  moreover have "handle_rrq uni fs cfg filename [] evs = transfer_blocks uni cfg data 512 (transfer_start cfg) evs" for evs
    using assms(1-5) by (simp add: handle_rrq_def)
  moreover have "transfer_blocks uni cfg data 512 (transfer_start cfg)
      (map (\<lambda>i. Received (ack_datagram (of_nat i))) [1..<Suc (n_blocks data (unat (512 :: u16)))]) =
      (map (data_packet data (unat (512 :: u16))) [1..<Suc (n_blocks data (unat (512 :: u16)))], Inr Returned)"
    using assms(8) by (intro transfer_acked) (simp_all add: transfer_start_def n_blocks_def)
  ultimately show ?thesis by (simp del: upt_Suc)
qed

end
