(* ===== verification/Services.thy ===== *)
theory Services
  imports Cli Tftp
begin

text \<open>
  The service loops and the program around them (\<open>net/dhcp/server.rs\<close>, \<open>net/tftp/server.rs\<close>,
  \<open>net/http/mod.rs\<close>, \<open>iscsi/transport.rs\<close>, \<open>main.rs\<close>). Each loop selects between its socket and the
  cancellation token; what the socket brings is an event, and so is whether a reply can be sent.
  The TFTP, HTTP and iSCSI loops start a task per datagram or connection and drop its result, so
  what a task does (\<open>Tftp\<close>, \<open>Boot\<close>, \<open>Link\<close>) has no effect on its service; the DHCP listeners answer in
  the loop itself. \<open>main\<close> returns when the first service does, and the tasks end with it.
\<close>

section \<open>One loop\<close>

datatype 'e incoming = Arrived 'e | SocketError | Cancelled

text \<open>How far a service is: not bound yet, in its loop, or its task ended by \<open>Ok\<close>, \<open>Err\<close> or a panic.\<close>

datatype status = Starting | Up | Stopped | Failed | Crashed

definition alive :: "status \<Rightarrow> bool" where
  "alive st \<longleftrightarrow> st = Starting \<or> st = Up"

lemma alive_simps [simp]:
  "alive Starting" "alive Up" "\<not> alive Stopped" "\<not> alive Failed" "\<not> alive Crashed"
  by (simp_all add: alive_def)

primrec serve_loop :: "('e incoming \<Rightarrow> 'o list \<times> status) \<Rightarrow> 'e incoming list \<Rightarrow> 'o list \<times> status" where
  "serve_loop turn [] = ([], Up)"
| "serve_loop turn (ev # evs) =
     (case turn ev of (out, st) \<Rightarrow>
        if st = Up then (case serve_loop turn evs of (outs, st') \<Rightarrow> (out @ outs, st')) else (out, st))"

text \<open>
  What the loops have in common: there are arrivals they can deal with, and what those make them
  hand out; anything else ends the loop.
\<close>

locale service =
  fixes turn :: "'e incoming \<Rightarrow> 'o list \<times> status"
    and handled :: "'e \<Rightarrow> bool"
    and out :: "'e \<Rightarrow> 'o list"
  assumes arrived: "handled e \<Longrightarrow> turn (Arrived e) = (out e, Up)"
    and unhandled: "\<not> handled e \<Longrightarrow> \<not> alive (snd (turn (Arrived e)))"
    and socket_error: "turn SocketError = ([], Failed)"
    and cancelled: "turn Cancelled = ([], Stopped)"
begin

lemma turn_alive: "alive (snd (turn ev)) \<longleftrightarrow> (\<exists>e. ev = Arrived e \<and> handled e)"
proof (cases ev)
  case (Arrived e)
  then show ?thesis using arrived [of e] unhandled [of e] by (cases "handled e") simp_all
qed (simp_all add: socket_error cancelled)

lemma turn_up: "snd (turn ev) = Up \<longleftrightarrow> (\<exists>e. ev = Arrived e \<and> handled e)"
proof (cases ev)
  case (Arrived e)
  then show ?thesis using arrived [of e] unhandled [of e] by (cases "handled e") auto
qed (simp_all add: socket_error cancelled)

lemma turn_out: "snd (turn ev) = Up \<Longrightarrow> \<exists>e. ev = Arrived e \<and> handled e \<and> turn ev = (out e, Up)"
  by (auto simp: turn_up arrived)

lemma loop_handled: "list_all handled es \<Longrightarrow> serve_loop turn (map Arrived es) = (concat (map out es), Up)"
  by (induction es) (simp_all add: arrived)

lemma loop_up: "snd (serve_loop turn evs) = Up \<longleftrightarrow> (\<exists>es. evs = map Arrived es \<and> list_all handled es)"
proof (induction evs)
  case (Cons ev evs)
  show ?case
  proof (cases "snd (turn ev) = Up")
    case True
    then obtain e where e: "ev = Arrived e" "handled e" "turn ev = (out e, Up)" using turn_out by blast
    then have "snd (serve_loop turn (ev # evs)) = snd (serve_loop turn evs)"
      by (simp split: prod.split)
    then show ?thesis using e Cons by (auto simp: Cons_eq_map_conv)
  next
    case False
    then have "snd (serve_loop turn (ev # evs)) \<noteq> Up" by (auto split: prod.splits)
    moreover have "\<not> (\<exists>es. ev # evs = map Arrived es \<and> list_all handled es)"
      using False turn_up by (auto simp: Cons_eq_map_conv)
    ultimately show ?thesis by blast
  qed
qed simp

end

section \<open>The four services\<close>

text \<open>A datagram at a DHCP listener: its bytes, its sender, and the addresses a reply can be sent to.\<close>

type_synonym dhcp_arrival = "bytes \<times> sock_addr \<times> (sock_addr \<Rightarrow> bool)"

definition listener_turn :: "boot_config \<Rightarrow> bool \<Rightarrow> dhcp_arrival incoming \<Rightarrow> (bytes \<times> sock_addr) list \<times> status" where
  "listener_turn cfg is_port67 ev =
     (case ev of
        Cancelled \<Rightarrow> ([], Stopped)
      | SocketError \<Rightarrow> ([], Failed)
      | Arrived (d, src, can_send) \<Rightarrow>
          (case listener_step cfg is_port67 d src of
             Inl e \<Rightarrow> ([], Crashed)
           | Inr None \<Rightarrow> ([], Up)
           | Inr (Some (bs, dest)) \<Rightarrow> if can_send dest then ([(bs, dest)], Up) else ([], Failed)))"

definition listener_loop :: "boot_config \<Rightarrow> bool \<Rightarrow> dhcp_arrival incoming list \<Rightarrow> (bytes \<times> sock_addr) list \<times> status" where
  "listener_loop cfg is_port67 = serve_loop (listener_turn cfg is_port67)"

text \<open>The TFTP loop copies up to 4096 bytes of a datagram into the task it spawns.\<close>

definition tftp_turn :: "(bytes \<times> sock_addr) incoming \<Rightarrow> (bytes \<times> sock_addr) list \<times> status" where
  "tftp_turn ev =
     (case ev of
        Cancelled \<Rightarrow> ([], Stopped)
      | SocketError \<Rightarrow> ([], Failed)
      | Arrived (d, src) \<Rightarrow> ([(take 4096 d, src)], Up))"

definition http_turn :: "sock_addr incoming \<Rightarrow> sock_addr list \<times> status" where
  "http_turn ev =
     (case ev of Cancelled \<Rightarrow> ([], Stopped) | SocketError \<Rightarrow> ([], Failed) | Arrived peer \<Rightarrow> ([peer], Up))"

definition iscsi_turn :: "sock_addr incoming \<Rightarrow> sock_addr list \<times> status" where
  "iscsi_turn ev =
     (case ev of Cancelled \<Rightarrow> ([], Stopped) | SocketError \<Rightarrow> ([], Failed) | Arrived peer \<Rightarrow> ([peer], Up))"

fun deliverable :: "boot_config \<Rightarrow> bool \<Rightarrow> dhcp_arrival \<Rightarrow> bool" where
  "deliverable cfg is_port67 (d, src, can_send) =
     (case listener_step cfg is_port67 d src of
        Inl e \<Rightarrow> False | Inr None \<Rightarrow> True | Inr (Some (bs, dest)) \<Rightarrow> can_send dest)"

fun replies :: "boot_config \<Rightarrow> bool \<Rightarrow> dhcp_arrival \<Rightarrow> (bytes \<times> sock_addr) list" where
  "replies cfg is_port67 (d, src, can_send) =
     (case listener_step cfg is_port67 d src of Inr (Some reply) \<Rightarrow> [reply] | _ \<Rightarrow> [])"

interpretation dhcp: service "listener_turn cfg p" "deliverable cfg p" "replies cfg p" for cfg p
  by unfold_locales (auto simp: listener_turn_def split: sum.splits option.splits)

interpretation tftp: service tftp_turn "\<lambda>_. True" "\<lambda>(d, src). [(take 4096 d, src)]"
  by unfold_locales (auto simp: tftp_turn_def)

interpretation http: service http_turn "\<lambda>_. True" "\<lambda>peer. [peer]"
  by unfold_locales (simp_all add: http_turn_def)

interpretation iscsi: service iscsi_turn "\<lambda>_. True" "\<lambda>peer. [peer]"
  by unfold_locales (simp_all add: iscsi_turn_def)

section \<open>The program\<close>

datatype svc = DhcpSvc | TftpSvc | HttpSvc | IscsiSvc

datatype main_event =
    Bound svc bool
  | DhcpIn bool "dhcp_arrival incoming"
  | TftpIn "(bytes \<times> sock_addr) incoming"
  | HttpIn "sock_addr incoming"
  | IscsiIn "sock_addr incoming"
  | CtrlC

record services =
  sv_status :: "svc \<Rightarrow> status"
  sv_replies :: "(bytes \<times> sock_addr) list"
  sv_transfers :: "(bytes \<times> sock_addr) list"
  sv_http :: "sock_addr list"
  sv_iscsi :: "sock_addr list"

definition services_start :: services where
  "services_start = \<lparr>sv_status = (\<lambda>_. Starting), sv_replies = [], sv_transfers = [], sv_http = [], sv_iscsi = []\<rparr>"

text \<open>
  One event. A service binds first (both sockets, for DHCP), and nothing reaches one that is not in
  its loop. The two DHCP listeners run in one \<open>select\<close>, so either of them ends the service.
\<close>

definition services_step :: "boot_config \<Rightarrow> main_event \<Rightarrow> services \<Rightarrow> services" where
  "services_step cfg ev s =
     (case ev of
        Bound v ok \<Rightarrow>
          if sv_status s v = Starting
          then s\<lparr>sv_status := (sv_status s)(v := if ok then Up else Failed)\<rparr> else s
      | DhcpIn p x \<Rightarrow>
          if sv_status s DhcpSvc = Up
          then s\<lparr>sv_replies := sv_replies s @ fst (listener_turn cfg p x),
                 sv_status := (sv_status s)(DhcpSvc := snd (listener_turn cfg p x))\<rparr> else s
      | TftpIn x \<Rightarrow>
          if sv_status s TftpSvc = Up
          then s\<lparr>sv_transfers := sv_transfers s @ fst (tftp_turn x),
                 sv_status := (sv_status s)(TftpSvc := snd (tftp_turn x))\<rparr> else s
      | HttpIn x \<Rightarrow>
          if sv_status s HttpSvc = Up
          then s\<lparr>sv_http := sv_http s @ fst (http_turn x),
                 sv_status := (sv_status s)(HttpSvc := snd (http_turn x))\<rparr> else s
      | IscsiIn x \<Rightarrow>
          if sv_status s IscsiSvc = Up
          then s\<lparr>sv_iscsi := sv_iscsi s @ fst (iscsi_turn x),
                 sv_status := (sv_status s)(IscsiSvc := snd (iscsi_turn x))\<rparr> else s
      | CtrlC \<Rightarrow> s)"

text \<open>\<open>main\<close>'s \<open>select\<close> over the services and Ctrl-C: whichever ends first, the exit code is the same.\<close>

primrec run_services :: "boot_config \<Rightarrow> main_event list \<Rightarrow> services \<Rightarrow> services \<times> exit_code option" where
  "run_services cfg [] s = (s, None)"
| "run_services cfg (ev # evs) s =
     (let s' = services_step cfg ev s in
      if ev = CtrlC \<or> \<not> list_all (\<lambda>v. alive (sv_status s' v)) [DhcpSvc, TftpSvc, HttpSvc, IscsiSvc]
      then (s', Some Success) else run_services cfg evs s')"

section \<open>What ends the program\<close>

definition all_up :: "services \<Rightarrow> bool" where
  "all_up s \<longleftrightarrow> sv_status s = (\<lambda>_. Up)"

primrec harmless :: "boot_config \<Rightarrow> main_event \<Rightarrow> bool" where
  "harmless cfg (Bound v ok) \<longleftrightarrow> True"
| "harmless cfg (DhcpIn p x) \<longleftrightarrow> (\<exists>e. x = Arrived e \<and> deliverable cfg p e)"
| "harmless cfg (TftpIn x) \<longleftrightarrow> (\<exists>e. x = Arrived e)"
| "harmless cfg (HttpIn x) \<longleftrightarrow> (\<exists>e. x = Arrived e)"
| "harmless cfg (IscsiIn x) \<longleftrightarrow> (\<exists>e. x = Arrived e)"
| "harmless cfg CtrlC \<longleftrightarrow> False"

lemma svc_alive: "list_all (\<lambda>v. alive (st v)) [DhcpSvc, TftpSvc, HttpSvc, IscsiSvc] \<longleftrightarrow> (\<forall>v. alive (st v))"
  using svc.exhaust by (simp, metis)

lemma step_up: "all_up s \<Longrightarrow>
    harmless cfg ev \<longleftrightarrow> ev \<noteq> CtrlC \<and> (\<forall>v. alive (sv_status (services_step cfg ev s) v))"
  by (cases ev) (auto simp: services_step_def all_up_def dhcp.turn_alive tftp.turn_alive http.turn_alive iscsi.turn_alive
      simp del: split_paired_Ex)

lemma harmless_up: "all_up s \<Longrightarrow> harmless cfg ev \<Longrightarrow> all_up (services_step cfg ev s)"
  by (cases ev) (auto simp: services_step_def all_up_def dhcp.turn_up tftp.turn_up http.turn_up iscsi.turn_up
      simp del: split_paired_Ex)

lemma run_services_up:
  "all_up s \<Longrightarrow> snd (run_services cfg evs s) = (if list_all (harmless cfg) evs then None else Some Success)"
proof (induction evs arbitrary: s)
  case (Cons ev evs)
  show ?case
  proof (cases "harmless cfg ev")
    case True
    then show ?thesis
      using Cons harmless_up [OF Cons.prems True] step_up [OF Cons.prems, of cfg ev]
      by (simp only: run_services.simps svc_alive Let_def) simp
  next
    case False
    then show ?thesis
      using step_up [OF Cons.prems, of cfg ev]
      by (simp only: run_services.simps svc_alive Let_def) simp
  qed
qed simp

text \<open>What the services have handed out when they have been through a list of harmless events.\<close>

definition dhcp_replies :: "boot_config \<Rightarrow> main_event list \<Rightarrow> (bytes \<times> sock_addr) list" where
  "dhcp_replies cfg evs = concat (map (\<lambda>ev. case ev of DhcpIn p (Arrived e) \<Rightarrow> replies cfg p e | _ \<Rightarrow> []) evs)"

definition tftp_requests :: "main_event list \<Rightarrow> (bytes \<times> sock_addr) list" where
  "tftp_requests evs = concat (map (\<lambda>ev. case ev of TftpIn (Arrived (d, src)) \<Rightarrow> [(take 4096 d, src)] | _ \<Rightarrow> []) evs)"

definition http_peers :: "main_event list \<Rightarrow> sock_addr list" where
  "http_peers evs = concat (map (\<lambda>ev. case ev of HttpIn (Arrived peer) \<Rightarrow> [peer] | _ \<Rightarrow> []) evs)"

definition iscsi_peers :: "main_event list \<Rightarrow> sock_addr list" where
  "iscsi_peers evs = concat (map (\<lambda>ev. case ev of IscsiIn (Arrived peer) \<Rightarrow> [peer] | _ \<Rightarrow> []) evs)"

lemma harmless_step:
  assumes "all_up s" "harmless cfg ev"
  shows "sv_replies (services_step cfg ev s) = sv_replies s @ dhcp_replies cfg [ev] \<and>
    sv_transfers (services_step cfg ev s) = sv_transfers s @ tftp_requests [ev] \<and>
    sv_http (services_step cfg ev s) = sv_http s @ http_peers [ev] \<and>
    sv_iscsi (services_step cfg ev s) = sv_iscsi s @ iscsi_peers [ev]"
  using assms dhcp.arrived tftp.arrived http.arrived iscsi.arrived
  by (cases ev) (auto simp: services_step_def all_up_def dhcp_replies_def tftp_requests_def http_peers_def iscsi_peers_def)

lemma run_services_out:
  assumes "all_up s" "list_all (harmless cfg) evs" "run_services cfg evs s = (s', res)"
  shows "sv_replies s' = sv_replies s @ dhcp_replies cfg evs \<and>
    sv_transfers s' = sv_transfers s @ tftp_requests evs \<and>
    sv_http s' = sv_http s @ http_peers evs \<and> sv_iscsi s' = sv_iscsi s @ iscsi_peers evs"
  using assms
proof (induction evs arbitrary: s)
  case Nil
  then show ?case by (simp add: dhcp_replies_def tftp_requests_def http_peers_def iscsi_peers_def)
next
  case (Cons ev evs)
  let ?s = "services_step cfg ev s"
  have h: "harmless cfg ev" "list_all (harmless cfg) evs" using Cons.prems(2) by simp_all
  have "run_services cfg evs ?s = (s', res)"
    using Cons.prems(3) step_up [OF Cons.prems(1), of cfg ev] h(1)
    by (simp only: run_services.simps svc_alive Let_def) simp
  from Cons.IH [OF harmless_up [OF Cons.prems(1) h(1)] h(2) this] harmless_step [OF Cons.prems(1) h(1)]
  show ?case by (simp add: dhcp_replies_def tftp_requests_def http_peers_def iscsi_peers_def)
qed

text \<open>With names that fit an option a DHCP datagram is harmful only by its reply.\<close>

lemma deliverable_eq: "boot_fits cfg \<Longrightarrow> deliverable cfg p (d, src, can_send) \<longleftrightarrow>
    (\<forall>reply dest. handle_datagram (take 2048 d) cfg p src = Some (reply, dest) \<longrightarrow> can_send dest)"
  using listener_reply [of cfg d p src]
  by (cases "handle_datagram (take 2048 d) cfg p src") (auto simp: listener_step_def)

text \<open>The replies, as the decision core made them.\<close>

definition decided :: "boot_config \<Rightarrow> main_event list \<Rightarrow> (dhcp_message \<times> sock_addr) list" where
  "decided cfg evs = concat (map (\<lambda>ev. case ev of
       DhcpIn p (Arrived (d, src, can_send)) \<Rightarrow>
         (case handle_datagram (take 2048 d) cfg p src of None \<Rightarrow> [] | Some reply \<Rightarrow> [reply])
     | _ \<Rightarrow> []) evs)"

lemma replies_decided: "boot_fits cfg \<Longrightarrow>
    map (apfst dhcp_parse) (dhcp_replies cfg evs) = map (apfst Inr) (decided cfg evs)"
proof (induction evs)
  case (Cons ev evs)
  have "map (apfst dhcp_parse) (dhcp_replies cfg [ev]) = map (apfst Inr) (decided cfg [ev])"
  proof (cases "\<exists>p d src can_send. ev = DhcpIn p (Arrived (d, src, can_send))")
    case True
    then obtain p d src can_send where ev: "ev = DhcpIn p (Arrived (d, src, can_send))" by blast
    show ?thesis
      using listener_reply [OF Cons.prems, of d p src]
      by (cases "handle_datagram (take 2048 d) cfg p src") (auto simp: ev dhcp_replies_def decided_def listener_step_def)
  next
    case False
    then show ?thesis
      by (auto simp: dhcp_replies_def decided_def split: main_event.split incoming.split)
  qed
  then show ?case using Cons by (simp add: dhcp_replies_def decided_def)
qed (simp add: dhcp_replies_def decided_def)

definition all_bound :: "main_event list" where
  "all_bound = [Bound DhcpSvc True, Bound TftpSvc True, Bound HttpSvc True, Bound IscsiSvc True]"

lemma run_all_bound: "\<exists>s. run_services cfg (all_bound @ evs) services_start = run_services cfg evs s \<and> all_up s \<and>
    sv_replies s = [] \<and> sv_transfers s = [] \<and> sv_http s = [] \<and> sv_iscsi s = []"
proof -
  let ?s = "services_start\<lparr>sv_status := (\<lambda>_. Starting)(DhcpSvc := Up, TftpSvc := Up, HttpSvc := Up, IscsiSvc := Up)\<rparr>"
  have "((\<lambda>_. Starting)(DhcpSvc := Up, TftpSvc := Up, HttpSvc := Up, IscsiSvc := Up)) v = Up" for v
    by (cases v) simp_all
  then have "all_up ?s" by (auto simp: all_up_def)
  moreover have "run_services cfg (all_bound @ evs) services_start = run_services cfg evs ?s"
    by (simp add: all_bound_def services_step_def services_start_def)
  ultimately show ?thesis by (intro exI [of _ ?s]) (simp add: services_start_def)
qed

text \<open>A service that cannot bind its socket ends the program.\<close>

lemma bind_failure: "sv_status s v = Starting \<Longrightarrow> snd (run_services cfg (Bound v False # evs) s) = Some Success"
  by (cases v) (simp_all add: services_step_def)

end
