(* ===== verification/Server.thy ===== *)
theory Server
  imports System Replies Services
begin

text \<open>
  The running server: the service loops, the registry of targets they share, and one task per
  accepted iSCSI connection, each with its own receive buffer (\<open>main.rs\<close>, \<open>net/http/mod.rs\<close>,
  \<open>iscsi/transport.rs\<close>). The tasks interleave PDU by PDU; what each socket brings and
  whether a write succeeds is up to the outside. A task that is left alone does what \<open>handle_conn\<close>
  of \<open>Link\<close> does, and the whole is a refinement of the world of \<open>System\<close>, whose invariants it takes
  over. The code holds no lock over a PDU: \<open>Interleaved\<close> has the tasks overlap inside commands, and shows when
  this level describes them.
\<close>

section \<open>Tasks\<close>

record conn_task =
  tk_conn :: connection
  tk_buf :: bytes
  tk_sent :: bytes
  tk_writes :: nat
  tk_end :: conn_end

definition task_start :: conn_task where
  "task_start = \<lparr>tk_conn = connection_new, tk_buf = [], tk_sent = [], tk_writes = 0, tk_end = Reading\<rparr>"

text \<open>The inner loop is done with the buffer and the task waits for bytes.\<close>

definition between :: "bytes \<Rightarrow> bool" where
  "between buf \<longleftrightarrow> decode buf = Inl ShortHeader \<or> decode buf = Inl ShortData"

text \<open>The end of a turn: the replies go out, and the loop goes on, or ends the connection.\<close>

definition task_reply :: "write_results \<Rightarrow> conn_task \<Rightarrow> nat \<Rightarrow> connection \<Rightarrow> outbound list \<Rightarrow> conn_task" where
  "task_reply wr t used c' outs =
     (case write_outs wr (tk_writes t) outs of (sent, n, ok) \<Rightarrow>
        let t' = t\<lparr>tk_conn := c', tk_sent := tk_sent t @ sent, tk_writes := n\<rparr> in
        if \<not> ok then t'\<lparr>tk_buf := [], tk_end := Broken\<rparr>
        else if cn_stage c' = Closing then t'\<lparr>tk_buf := [], tk_end := Finished\<rparr>
        else t'\<lparr>tk_buf := drop used (tk_buf t)\<rparr>)"

text \<open>One turn of the inner loop: the next complete PDU, or a framing error.\<close>

definition task_work :: "write_results \<Rightarrow> registry \<Rightarrow> conn_task \<Rightarrow> (registry \<times> conn_task) io" where
  "task_work wr r t =
     (case decode (tk_buf t) of
        Inl e \<Rightarrow> Inr (r, t\<lparr>tk_buf := [], tk_end := Finished\<rparr>)
      | Inr (req, used) \<Rightarrow>
          (case handle r (tk_conn t) req (take BHS_LEN (tk_buf t)) of
             Inl e \<Rightarrow> Inl e
           | Inr (r', c', outs) \<Rightarrow> Inr (r', task_reply wr t used c' outs)))"

definition task_link :: "registry \<Rightarrow> conn_task \<Rightarrow> conn_link" where
  "task_link r t = \<lparr>lk_registry = r, lk_conn = tk_conn t, lk_buf = tk_buf t, lk_sent = tk_sent t,
     lk_writes = tk_writes t, lk_end = tk_end t\<rparr>"

lemma task_link_sel [simp]:
  "lk_registry (task_link r t) = r" "lk_conn (task_link r t) = tk_conn t" "lk_buf (task_link r t) = tk_buf t"
  "lk_sent (task_link r t) = tk_sent t" "lk_writes (task_link r t) = tk_writes t" "lk_end (task_link r t) = tk_end t"
  by (simp_all add: task_link_def)

lemma task_work_link:
  assumes "tk_end t = Reading" "\<not> between (tk_buf t)"
  shows "link_feed wr (Inr (task_link r t)) [] =
    (case task_work wr r t of Inl e \<Rightarrow> Inl e | Inr (r', t') \<Rightarrow> link_feed wr (Inr (task_link r' t')) [])"
proof (cases "decode (tk_buf t)")
  case (Inl e)
  then show ?thesis
    using assms by (simp add: link_feed_def task_work_def drain_link.simps [of wr r] between_def task_link_def)
next
  case (Inr p)
  then show ?thesis
    using assms
    by (cases "handle r (tk_conn t) (fst p) (take BHS_LEN (tk_buf t))"; cases "write_outs wr (tk_writes t) (snd (snd (projr (handle r (tk_conn t) (fst p) (take BHS_LEN (tk_buf t))))))")
      (auto simp: link_feed_def task_work_def task_reply_def drain_link.simps [of wr r] sending_twice Let_def split: prod.splits)
qed

section \<open>The server\<close>

record server =
  sr_services :: services
  sr_registry :: registry
  sr_tasks :: "conn_task list"
  sr_exit :: "exit_code option"

definition server_start :: server where
  "server_start = \<lparr>sr_services = services_start, sr_registry = registry_new, sr_tasks = [], sr_exit = None\<rparr>"

datatype action = Main main_event | Ask http_request | Recv nat bytes | Hangup nat bool | Work nat

definition spawn :: "services \<Rightarrow> services \<Rightarrow> conn_task list" where
  "spawn sv sv' = replicate (length (sv_iscsi sv') - length (sv_iscsi sv)) task_start"

text \<open>
  \<open>main\<close> takes the events of the service loops until it exits, and everything ends with it. An HTTP
  request needs an accepted connection. A read brings at most 8192 bytes, and only to a task whose
  inner loop is done; an empty or failed read ends the task.
\<close>

inductive server_step ::
  "(rstr \<Rightarrow> rstr) \<Rightarrow> config \<Rightarrow> client_manager \<Rightarrow> boot_config \<Rightarrow> (nat \<Rightarrow> write_results) \<Rightarrow> action \<Rightarrow> server \<Rightarrow> server \<Rightarrow> bool"
  for uni cfg m boot wr where
  main: "sr_exit s = None \<Longrightarrow> run_services boot [ev] (sr_services s) = (sv', res) \<Longrightarrow>
     server_step uni cfg m boot wr (Main ev) s
       (s\<lparr>sr_services := sv', sr_tasks := sr_tasks s @ spawn (sr_services s) sv', sr_exit := res\<rparr>)"
| ask: "sr_exit s = None \<Longrightarrow> sv_http (sr_services s) \<noteq> [] \<Longrightarrow>
     http_handle uni cfg m (sr_registry s) req = Inr (resp, r') \<Longrightarrow>
     server_step uni cfg m boot wr (Ask req) s (s\<lparr>sr_registry := r'\<rparr>)"
| recv: "sr_exit s = None \<Longrightarrow> k < length (sr_tasks s) \<Longrightarrow> t = sr_tasks s ! k \<Longrightarrow> tk_end t = Reading \<Longrightarrow>
     between (tk_buf t) \<Longrightarrow> bs \<noteq> [] \<Longrightarrow> length bs \<le> 8192 \<Longrightarrow>
     server_step uni cfg m boot wr (Recv k bs) s
       (s\<lparr>sr_tasks := (sr_tasks s)[k := t\<lparr>tk_buf := tk_buf t @ bs\<rparr>]\<rparr>)"
| hangup: "sr_exit s = None \<Longrightarrow> k < length (sr_tasks s) \<Longrightarrow> t = sr_tasks s ! k \<Longrightarrow> tk_end t = Reading \<Longrightarrow>
     between (tk_buf t) \<Longrightarrow>
     server_step uni cfg m boot wr (Hangup k ok) s
       (s\<lparr>sr_tasks := (sr_tasks s)[k := t\<lparr>tk_buf := [], tk_end := if ok then Finished else Broken\<rparr>]\<rparr>)"
| work: "sr_exit s = None \<Longrightarrow> k < length (sr_tasks s) \<Longrightarrow> t = sr_tasks s ! k \<Longrightarrow> tk_end t = Reading \<Longrightarrow>
     \<not> between (tk_buf t) \<Longrightarrow> task_work (wr k) (sr_registry s) t = Inr (r', t') \<Longrightarrow>
     server_step uni cfg m boot wr (Work k) s (s\<lparr>sr_registry := r', sr_tasks := (sr_tasks s)[k := t']\<rparr>)"

inductive server_run ::
  "(rstr \<Rightarrow> rstr) \<Rightarrow> config \<Rightarrow> client_manager \<Rightarrow> boot_config \<Rightarrow> (nat \<Rightarrow> write_results) \<Rightarrow> action list \<Rightarrow> server \<Rightarrow> server \<Rightarrow> bool"
  for uni cfg m boot wr where
  nil: "server_run uni cfg m boot wr [] s s"
| more: "server_step uni cfg m boot wr a s s' \<Longrightarrow> server_run uni cfg m boot wr as s' s'' \<Longrightarrow>
     server_run uni cfg m boot wr (a # as) s s''"

inductive_simps server_run_simps [simp]:
  "server_run uni cfg m boot wr [] s s'" "server_run uni cfg m boot wr (a # as) s s'"

section \<open>The world it refines\<close>

definition server_world :: "server \<Rightarrow> world" where
  "server_world s = \<lparr>wd_registry = sr_registry s, wd_conns = map tk_conn (sr_tasks s)\<rparr>"

lemma server_world_start: "server_world server_start = world_start"
  by (simp add: server_world_def server_start_def world_start_def)

lemma iscsi_grows: "sv_iscsi (services_step boot ev sv) = sv_iscsi sv \<or>
    (\<exists>peer. sv_iscsi (services_step boot ev sv) = sv_iscsi sv @ [peer])"
  by (cases ev) (auto simp: services_step_def iscsi_turn_def split: incoming.split)

lemma run_services_one: "run_services boot [ev] sv = (sv', res) \<Longrightarrow> sv' = services_step boot ev sv"
  by (auto simp: Let_def split: if_splits)

lemma spawned: "run_services boot [ev] sv = (sv', res) \<Longrightarrow> spawn sv sv' = [] \<or> spawn sv sv' = [task_start]"
  using iscsi_grows [of boot ev sv] run_services_one [of boot ev sv sv' res]
  by (auto simp: spawn_def simp del: run_services.simps)

lemma task_work_handle:
  assumes "task_work wr r t = Inr (r', t')"
  shows "(r' = r \<and> tk_conn t' = tk_conn t) \<or>
    (\<exists>q used outs. decode (tk_buf t) = Inr (q, used) \<and> request_wf q \<and>
      handle r (tk_conn t) q (take BHS_LEN (tk_buf t)) = Inr (r', tk_conn t', outs))"
  using assms decode_wf [of "tk_buf t"]
  by (auto simp: task_work_def task_reply_def Let_def split: sum.splits prod.splits if_splits)

lemma list_update_same: "xs ! k = x \<Longrightarrow> xs[k := x] = xs"
  by (metis list_update_id)

lemma server_step_world:
  assumes "server_step uni cfg m boot wr a s s'"
  shows "server_world s' = server_world s \<or> (\<exists>e. world_step uni cfg m e (server_world s) (server_world s'))"
  using assms
proof cases
  case (main ev sv' res)
  from spawned [OF main(4)] show ?thesis
  proof
    assume "spawn (sr_services s) sv' = [task_start]"
    then have "server_world s' = server_world s\<lparr>wd_conns := wd_conns (server_world s) @ [connection_new]\<rparr>"
      using main(2) by (simp add: server_world_def task_start_def)
    then show ?thesis by (metis world_step.accept)
  qed (simp add: main(2) server_world_def)
next
  case (ask req resp r')
  then show ?thesis
    using world_step.http [of uni cfg m "server_world s" req resp r'] by (auto simp: server_world_def)
next
  case (work k t r' t')
  let ?w = "server_world s"
  have conn: "k < length (wd_conns ?w)" "wd_conns ?w ! k = tk_conn t"
    using work by (simp_all add: server_world_def)
  have w': "server_world s' = ?w\<lparr>wd_registry := r', wd_conns := (wd_conns ?w)[k := tk_conn t']\<rparr>"
    using work(2) by (simp add: server_world_def map_update)
  from task_work_handle [OF work(8)] show ?thesis
  proof
    assume "r' = sr_registry s \<and> tk_conn t' = tk_conn t"
    then show ?thesis using w' conn list_update_same [of "wd_conns ?w" k] by (simp add: server_world_def)
  next
    assume "\<exists>q used outs. decode (tk_buf t) = Inr (q, used) \<and> request_wf q \<and>
      handle (sr_registry s) (tk_conn t) q (take BHS_LEN (tk_buf t)) = Inr (r', tk_conn t', outs)"
    then obtain q outs where q: "request_wf q"
      "handle (wd_registry ?w) (wd_conns ?w ! k) q (take BHS_LEN (tk_buf t)) = Inr (r', tk_conn t', outs)"
      using conn(2) by (auto simp: server_world_def)
    show ?thesis using world_step.pdu [OF conn(1) q, of uni cfg m] w' by metis
  qed
qed (auto simp: server_world_def map_update list_update_same)

interpretation servers: stuttering_refinement "server_step uni cfg m boot wr" "server_run uni cfg m boot wr"
    "world_step uni cfg m" "world_run uni cfg m" server_world for uni cfg m boot wr
  by unfold_locales (auto dest: server_step_world)

lemma server_run_world: "server_run uni cfg m boot wr as s s' \<Longrightarrow>
    \<exists>es. world_run uni cfg m es (server_world s) (server_world s')"
  using servers.run_follows by blast

section \<open>Invariants of the server\<close>

text \<open>
  A buffer never holds more than one incomplete PDU and one read, a task that has ended has dropped
  its buffer, and there is one task for each connection the iSCSI loop accepted.
\<close>

definition BUF_LIMIT :: nat where
  "BUF_LIMIT = BHS_LEN + MAX_DATA_SEGMENT + 8192"

definition task_inv :: "conn_task \<Rightarrow> bool" where
  "task_inv t \<longleftrightarrow> length (tk_buf t) \<le> BUF_LIMIT \<and> (tk_end t \<noteq> Reading \<longrightarrow> tk_buf t = []) \<and>
     (cn_stage (tk_conn t) = Closing \<longrightarrow> tk_end t \<noteq> Reading)"

definition server_inv :: "client_manager \<Rightarrow> server \<Rightarrow> bool" where
  "server_inv m s \<longleftrightarrow> world_inv m (server_world s) \<and> list_all task_inv (sr_tasks s) \<and>
     length (sr_tasks s) = length (sv_iscsi (sr_services s))"

lemma between_pad:
  assumes "d \<le> MAX_DATA_SEGMENT"
  shows "d + pad4 d \<le> MAX_DATA_SEGMENT"
proof -
  obtain k where k: "d + pad4 d = 4 * k" using pad4_dvd [of d] by auto
  moreover have "pad4 d < 4" by (rule pad4_lt)
  ultimately have "4 * k < 4 * (65536 + 1)" using assms by (simp add: MAX_DATA_SEGMENT_def)
  then have "k \<le> 65536" by simp
  then show ?thesis using k by (simp add: MAX_DATA_SEGMENT_def)
qed

lemma between_short:
  assumes "between buf"
  shows "length buf \<le> BHS_LEN + MAX_DATA_SEGMENT"
proof -
  let ?d = "be24 (take BHS_LEN buf) 5"
  have "length buf < BHS_LEN \<or> ?d \<le> MAX_DATA_SEGMENT \<and> length buf < BHS_LEN + ?d + pad4 ?d"
    using assms by (auto simp: between_def decode_def Let_def split: if_splits)
  then show ?thesis using between_pad [of ?d] by auto
qed

lemma task_inv_start: "task_inv task_start"
  by (simp add: task_inv_def task_start_def connection_new_def)

lemma task_inv_reply: "task_inv t \<Longrightarrow> task_inv (task_reply wr t used c' outs)"
  by (auto simp: task_inv_def task_reply_def Let_def split: prod.splits)

lemma task_inv_work: "task_inv t \<Longrightarrow> task_work wr r t = Inr (r', t') \<Longrightarrow> task_inv t'"
  by (auto simp: task_work_def intro: task_inv_reply split: sum.splits) (simp add: task_inv_def)

lemma task_inv_recv: "tk_end t = Reading \<Longrightarrow> task_inv t \<Longrightarrow> between (tk_buf t) \<Longrightarrow> length bs \<le> 8192 \<Longrightarrow>
    task_inv (t\<lparr>tk_buf := tk_buf t @ bs\<rparr>)"
  using between_short [of "tk_buf t"] by (simp add: task_inv_def BUF_LIMIT_def)

lemma list_all_update: "list_all P xs \<Longrightarrow> P x \<Longrightarrow> list_all P (xs[k := x])"
  using set_update_subset_insert [of xs k x] by (auto simp: list_all_iff)

lemma length_spawn: "run_services boot [ev] sv = (sv', res) \<Longrightarrow>
    length (sv_iscsi sv') = length (sv_iscsi sv) + length (spawn sv sv')"
  using iscsi_grows [of boot ev sv] run_services_one [of boot ev sv sv' res]
  by (auto simp: spawn_def simp del: run_services.simps)

lemma spawn_inv: "list_all task_inv (spawn sv sv')"
  by (simp add: spawn_def task_inv_start list_all_iff)

text \<open>What every step keeps of the tasks, whatever it does to the targets.\<close>

definition tasks_inv :: "server \<Rightarrow> bool" where
  "tasks_inv s \<longleftrightarrow> list_all task_inv (sr_tasks s) \<and> length (sr_tasks s) = length (sv_iscsi (sr_services s))"

lemma server_inv_tasks: "server_inv m s \<longleftrightarrow> world_inv m (server_world s) \<and> tasks_inv s"
  by (simp add: server_inv_def tasks_inv_def)

lemma tasks_inv_update: "tasks_inv s \<Longrightarrow> task_inv t \<Longrightarrow> tasks_inv (s\<lparr>sr_registry := r, sr_tasks := (sr_tasks s)[k := t]\<rparr>)"
  by (simp add: tasks_inv_def list_all_update)

lemma server_step_tasks:
  assumes "server_step uni cfg m boot wr a s s'" "tasks_inv s"
  shows "tasks_inv s'"
proof -
  have inv: "task_inv (sr_tasks s ! k)" if "k < length (sr_tasks s)" for k
    using assms(2) that by (simp add: tasks_inv_def list_all_length)
  from assms(1) show ?thesis
  proof cases
    case (main ev sv' res)
    then show ?thesis using assms(2) length_spawn [OF main(4)] spawn_inv by (simp add: tasks_inv_def)
  next
    case (recv k t bs)
    then have "task_inv (t\<lparr>tk_buf := tk_buf t @ bs\<rparr>)" using task_inv_recv inv by blast
    from tasks_inv_update [OF assms(2) this, of k "sr_registry s"] show ?thesis using recv(2) by simp
  next
    case (hangup k t ok)
    then have "task_inv (t\<lparr>tk_buf := [], tk_end := if ok then Finished else Broken\<rparr>)"
      by (simp add: task_inv_def)
    from tasks_inv_update [OF assms(2) this, of k "sr_registry s"] show ?thesis using hangup(2) by simp
  next
    case (work k t r' t')
    then have "task_inv t'" using task_inv_work inv by blast
    from tasks_inv_update [OF assms(2) this, of k r'] show ?thesis using work(2) by simp
  qed (use assms(2) in \<open>simp add: tasks_inv_def\<close>)
qed

lemma server_step_inv:
  assumes "server_step uni cfg m boot wr a s s'" "server_inv m s" "images_ok m"
  shows "server_inv m s'"
  using server_step_world [OF assms(1)] world_step_inv [OF _ _ assms(3)] server_step_tasks [OF assms(1)] assms(2)
  by (auto simp: server_inv_tasks)

lemma server_inv_start: "server_inv m server_start"
  by (simp add: server_inv_def server_world_start world_inv_start) (simp add: server_start_def services_start_def)

lemma server_run_inv: "server_run uni cfg m boot wr as s s' \<Longrightarrow> server_inv m s \<Longrightarrow> images_ok m \<Longrightarrow> server_inv m s'"
  using servers.conc.run_keeps [where holds = "server_inv m"] server_step_inv by blast

end
