(* ===== verification/Sections.thy ===== *)
theory Sections
  imports Session
begin

text \<open>
  A SCSI command as the sequence of critical sections it runs through. The handlers hold no lock over a
  whole command: \<open>Volume::read_at\<close> and \<open>write_at\<close> take the lock of the overlay once for every
  \<open>read_block\<close> and every \<open>write_block\<close>, and what other tasks store in between is seen. Everything else a
  command uses is immutable or its own. A \<open>program\<close> is what is left of a command up to its
  outcome; run with nobody in between, it does what \<open>execute\<close> of \<open>Scsi\<close> does in one step.
\<close>

section \<open>Programs\<close>

datatype program =
    Answer "scsi_outcome io"
  | Load nat nat "bytes option io \<Rightarrow> program"
  | Store nat bytes program

primrec solo :: "program \<Rightarrow> volume \<Rightarrow> volume \<times> scsi_outcome io" where
  "solo (Answer oc) = (\<lambda>v. (v, oc))"
| "solo (Load blk n k) = (\<lambda>v. solo (k (ov_read_block (vol_overlay v) blk n)) v)"
| "solo (Store blk data p) = (\<lambda>v. solo p (v\<lparr>vol_overlay := ov_write_block (vol_overlay v) blk data\<rparr>))"

section \<open>The volume\<close>

text \<open>The loop of \<open>read_at\<close>, with the bytes read so far and what is done with the result.\<close>

function read_sections :: "volume \<Rightarrow> nat \<Rightarrow> nat \<Rightarrow> bytes \<Rightarrow> (bytes io \<Rightarrow> program) \<Rightarrow> program" where
  "read_sections v pos remaining acc fin =
     (if remaining = 0 then fin (Inr acc)
      else
        let blk = pos div BLOCK; within = pos mod BLOCK in
        case block_len v blk of
          Inl e \<Rightarrow> fin (Inl e)
        | Inr blen \<Rightarrow>
            if blen < within then fin (Inl Panicked)
            else
              let take_n = min (blen - within) remaining in
              if take_n = 0 then fin (Inl Diverged)
              else Load blk blen (\<lambda>found.
                case found of
                  Inl e \<Rightarrow> fin (Inl e)
                | Inr (Some block) \<Rightarrow>
                    read_sections v (pos + take_n) (remaining - take_n) (acc @ window within take_n block) fin
                | Inr None \<Rightarrow>
                    (case bs_read (vol_master v) (blk * BLOCK + within) take_n of
                       Inl e \<Rightarrow> fin (Inl e)
                     | Inr chunk \<Rightarrow> read_sections v (pos + take_n) (remaining - take_n) (acc @ chunk) fin)))"
  by pat_completeness auto
termination
  by (relation "measure (\<lambda>(v, pos, remaining, acc, fin). remaining)") auto

declare read_sections.simps [simp del]

definition read_at_sections :: "volume \<Rightarrow> nat \<Rightarrow> nat \<Rightarrow> (bytes io \<Rightarrow> program) \<Rightarrow> program" where
  "read_at_sections v offset len fin =
     (case check_bounds v offset len of Inl e \<Rightarrow> fin (Inl e) | Inr _ \<Rightarrow> read_sections v offset len [] fin)"

text \<open>The loop of \<open>write_at\<close>: a partial block is loaded in one section and stored in another.\<close>

function write_sections :: "volume \<Rightarrow> nat \<Rightarrow> bytes \<Rightarrow> (unit io \<Rightarrow> program) \<Rightarrow> program" where
  "write_sections v pos buf fin =
     (if buf = [] then fin (Inr ())
      else
        let blk = pos div BLOCK; within = pos mod BLOCK in
        case block_len v blk of
          Inl e \<Rightarrow> fin (Inl e)
        | Inr blen \<Rightarrow>
            if blen < within then fin (Inl Panicked)
            else
              let take_n = min (blen - within) (length buf); src = take take_n buf in
              if take_n = 0 then fin (Inl Diverged)
              else if length src = blen then Store blk src (write_sections v (pos + take_n) (drop take_n buf) fin)
              else Load blk blen (\<lambda>found.
                case found of
                  Inl e \<Rightarrow> fin (Inl e)
                | Inr (Some data) \<Rightarrow>
                    Store blk (put within src data) (write_sections v (pos + take_n) (drop take_n buf) fin)
                | Inr None \<Rightarrow>
                    (case bs_read (vol_master v) (blk * BLOCK) blen of
                       Inl e \<Rightarrow> fin (Inl e)
                     | Inr data \<Rightarrow>
                         Store blk (put within src data) (write_sections v (pos + take_n) (drop take_n buf) fin))))"
  by pat_completeness auto
termination
  by (relation "measure (\<lambda>(v, pos, buf, fin). length buf)") auto

declare write_sections.simps [simp del]

definition write_at_sections :: "volume \<Rightarrow> nat \<Rightarrow> bytes \<Rightarrow> (unit io \<Rightarrow> program) \<Rightarrow> program" where
  "write_at_sections v offset buf fin =
     (case check_bounds v offset (length buf) of
        Inl e \<Rightarrow> fin (Inl e) | Inr _ \<Rightarrow> write_sections v offset buf fin)"

text \<open>What a program takes from the volume when it is made is the master, which no section changes.\<close>

lemma block_len_master: "vol_master w = vol_master v \<Longrightarrow> block_len w blk = block_len v blk"
  by (simp add: block_len_def vol_size_def Let_def)

lemma check_bounds_master: "vol_master w = vol_master v \<Longrightarrow> check_bounds w off len = check_bounds v off len"
  by (simp add: check_bounds_def vol_size_def split: option.split)

lemma solo_read_sections:
  assumes "vol_master w = vol_master v"
  shows "solo (read_sections v pos remaining acc fin) w =
    solo (fin (case vol_read_loop w pos remaining of Inl e \<Rightarrow> Inl e | Inr bs \<Rightarrow> Inr (acc @ bs))) w"
proof (induction remaining arbitrary: pos acc rule: less_induct)
  case (less remaining)
  let ?blk = "pos div BLOCK" and ?within = "pos mod BLOCK"
  show ?case
  proof (cases "block_len v ?blk")
    case (Inl e)
    then show ?thesis
      using block_len_master [OF assms, of ?blk]
      by (simp add: read_sections.simps [of v pos] vol_read_loop.simps [of w pos] Let_def)
  next
    case (Inr blen)
    define n where "n = min (blen - ?within) remaining"
    have IH: "0 < n \<Longrightarrow> 0 < remaining \<Longrightarrow> solo (read_sections v (pos + n) (remaining - n) acc' fin) w =
        solo (fin (case vol_read_loop w (pos + n) (remaining - n) of Inl e \<Rightarrow> Inl e | Inr bs \<Rightarrow> Inr (acc' @ bs))) w" for acc'
      by (rule less.IH) simp
    show ?thesis
      using Inr block_len_master [OF assms, of ?blk] IH assms
      by (simp add: read_sections.simps [of v pos] vol_read_loop.simps [of w pos] Let_def vol_read_chunk_def
          flip: n_def split: sum.split option.split)
  qed
qed

lemma solo_write_sections:
  assumes "vol_master w = vol_master v"
  shows "solo (write_sections v pos buf fin) w = (case vol_write_loop w pos buf of (w', r) \<Rightarrow> solo (fin r) w')"
  using assms
proof (induction "length buf" arbitrary: w pos buf rule: less_induct)
  case less
  let ?blk = "pos div BLOCK" and ?within = "pos mod BLOCK"
  show ?case
  proof (cases "block_len v ?blk")
    case (Inl e)
    then show ?thesis
      using block_len_master [OF less.prems, of ?blk]
      by (simp add: write_sections.simps [of v pos] vol_write_loop.simps [of w pos] Let_def)
  next
    case (Inr blen)
    define n where "n = min (blen - ?within) (length buf)"
    have IH: "solo (write_sections v (pos + n) (drop n buf) fin) w' =
        (case vol_write_loop w' (pos + n) (drop n buf) of (w'', r) \<Rightarrow> solo (fin r) w'')"
      if "0 < n" "buf \<noteq> []" "vol_master w' = vol_master v" for w'
      using that by (intro less.hyps) simp_all
    show ?thesis
      using Inr block_len_master [OF less.prems, of ?blk] IH less.prems
      by (simp add: write_sections.simps [of v pos] vol_write_loop.simps [of w pos] Let_def vol_write_chunk_def
          flip: n_def split: sum.split option.split)
  qed
qed

lemma solo_read_at:
  "vol_master w = vol_master v \<Longrightarrow> solo (read_at_sections v off len fin) w = solo (fin (vol_read_at w off len)) w"
  using check_bounds_master [of w v off len]
  by (cases "check_bounds v off len"; cases "vol_read_loop w off len")
    (simp_all add: read_at_sections_def vol_read_at_def solo_read_sections)

lemma solo_write_at:
  "vol_master w = vol_master v \<Longrightarrow>
    solo (write_at_sections v off buf fin) w = (case vol_write_at w off buf of (w', r) \<Rightarrow> solo (fin r) w')"
  using check_bounds_master [of w v off "length buf"]
  by (cases "check_bounds v off (length buf)") (simp_all add: write_at_sections_def vol_write_at_def solo_write_sections)

section \<open>The commands\<close>

definition scsi_read_sections :: "logical_unit \<Rightarrow> nat \<Rightarrow> nat \<Rightarrow> program" where
  "scsi_read_sections lu lba blocks =
     (if blocks = 0 then Answer (Inr outcome_ok)
      else case total_blocks lu of Inl e \<Rightarrow> Answer (Inl e)
      | Inr n_blocks \<Rightarrow>
          if \<not> lba_in_range n_blocks lba blocks then
            Answer (Inr (outcome_check ILLEGAL_REQUEST ASC_LBA_OUT_OF_RANGE))
          else read_at_sections (lu_volume lu) (lba * lu_block_size lu) (blocks * lu_block_size lu)
            (\<lambda>r. case r of
                Inr bs \<Rightarrow> Answer (Inr (outcome_good bs))
              | Inl e \<Rightarrow> Answer (medium_error ASC_UNRECOVERED_READ_ERROR e)))"

definition scsi_write_sections :: "logical_unit \<Rightarrow> nat \<Rightarrow> nat \<Rightarrow> bytes \<Rightarrow> program" where
  "scsi_write_sections lu lba blocks write_data =
     (if blocks = 0 then Answer (Inr outcome_ok)
      else case total_blocks lu of Inl e \<Rightarrow> Answer (Inl e)
      | Inr n_blocks \<Rightarrow>
          if \<not> lba_in_range n_blocks lba blocks then
            Answer (Inr (outcome_check ILLEGAL_REQUEST ASC_LBA_OUT_OF_RANGE))
          else if length write_data \<noteq> blocks * lu_block_size lu then
            Answer (Inr (outcome_check ILLEGAL_REQUEST ASC_INVALID_FIELD_IN_CDB))
          else write_at_sections (lu_volume lu) (lba * lu_block_size lu) write_data
            (\<lambda>r. case r of
                Inr _ \<Rightarrow> Answer (Inr outcome_ok)
              | Inl e \<Rightarrow> Answer (medium_error ASC_WRITE_ERROR e)))"

text \<open>Only READ and WRITE reach the overlay; the other commands are answered from immutable fields.\<close>

definition dispatch_sections :: "logical_unit \<Rightarrow> bytes \<Rightarrow> bytes \<Rightarrow> program" where
  "dispatch_sections lu cdb write_data =
     (let op = cdb ! 0 in
      if op = 0x28 then scsi_read_sections lu (lba32 cdb) (len16 cdb)
      else if op = 0x88 then scsi_read_sections lu (lba64 cdb) (len32_16 cdb)
      else if op = 0x2a then scsi_write_sections lu (lba32 cdb) (len16 cdb) write_data
      else if op = 0x8a then scsi_write_sections lu (lba64 cdb) (len32_16 cdb) write_data
      else Answer (snd (dispatch lu cdb write_data)))"

definition execute_sections :: "scsi_target \<Rightarrow> scsi_command \<Rightarrow> bytes \<Rightarrow> program" where
  "execute_sections t cmd write_data =
     (case lun_at t (sc_lun cmd) of
        None \<Rightarrow> Answer (Inr (outcome_check ILLEGAL_REQUEST ASC_LUN_NOT_SUPPORTED))
      | Some (n, lu) \<Rightarrow>
          if sc_cdb cmd ! 0 = 0xa0 then Answer (Inr (report_luns t))
          else dispatch_sections lu (sc_cdb cmd) write_data)"

lemma solo_scsi_read: "solo (scsi_read_sections lu lba blocks) (lu_volume lu) = (lu_volume lu, scsi_read lu lba blocks)"
  by (auto simp: scsi_read_sections_def scsi_read_def solo_read_at split: sum.split)

lemma solo_scsi_write:
  "(case solo (scsi_write_sections lu lba blocks buf) (lu_volume lu) of (v, oc) \<Rightarrow> (lu\<lparr>lu_volume := v\<rparr>, oc)) =
    scsi_write lu lba blocks buf"
  by (auto simp: scsi_write_sections_def scsi_write_def solo_write_at split: sum.split prod.split)

lemma solo_dispatch:
  "(case solo (dispatch_sections lu cdb buf) (lu_volume lu) of (v, oc) \<Rightarrow> (lu\<lparr>lu_volume := v\<rparr>, oc)) = dispatch lu cdb buf"
proof -
  consider "cdb ! 0 = 0x28" | "cdb ! 0 = 0x88" | "cdb ! 0 = 0x2a" | "cdb ! 0 = 0x8a"
    | "cdb ! 0 \<notin> {0x28, 0x88, 0x2a, 0x8a}" by auto
  then show ?thesis
  proof cases
    case 5
    then have "fst (dispatch lu cdb buf) = lu" by (intro dispatch_pure) (simp add: is_write_op_def)
    then show ?thesis using 5 by (cases "dispatch lu cdb buf") (simp add: dispatch_sections_def)
  qed (simp_all add: dispatch_sections_def dispatch_def solo_scsi_read solo_scsi_write)
qed

text \<open>
  The sections of a command are on the overlay of one unit of the target. \<open>finish_alone\<close> runs a program to
  its end there, which is what \<open>execute\<close> does.
\<close>

definition unit_volume :: "scsi_target \<Rightarrow> nat \<Rightarrow> volume" where
  "unit_volume t n = lu_volume (the (st_luns t ! n))"

definition set_volume :: "scsi_target \<Rightarrow> nat \<Rightarrow> volume \<Rightarrow> scsi_target" where
  "set_volume t n v = t\<lparr>st_luns := (st_luns t)[n := map_option (lu_volume_update (\<lambda>_. v)) (st_luns t ! n)]\<rparr>"

definition command_unit :: "scsi_target \<Rightarrow> scsi_command \<Rightarrow> nat option" where
  "command_unit t cmd = map_option fst (lun_at t (sc_lun cmd))"

definition finish_alone :: "scsi_target \<Rightarrow> nat option \<Rightarrow> program \<Rightarrow> scsi_target \<times> scsi_outcome io" where
  "finish_alone t u p =
     (case p of Answer oc \<Rightarrow> (t, oc)
      | _ \<Rightarrow> (case u of None \<Rightarrow> (t, Inl Panicked)
             | Some n \<Rightarrow> (case solo p (unit_volume t n) of (v, oc) \<Rightarrow> (set_volume t n v, oc))))"

text \<open>One section of a program on the target; \<open>None\<close> when there is none left.\<close>

definition one_section :: "scsi_target \<Rightarrow> nat \<Rightarrow> program \<Rightarrow> (scsi_target \<times> program) option" where
  "one_section t n p =
     (case p of
        Answer oc \<Rightarrow> None
      | Load blk len k \<Rightarrow> Some (t, k (ov_read_block (vol_overlay (unit_volume t n)) blk len))
      | Store blk data p' \<Rightarrow>
          (let v = unit_volume t n in
           Some (set_volume t n (v\<lparr>vol_overlay := ov_write_block (vol_overlay v) blk data\<rparr>), p')))"

lemma unit_set_volume: "n < length (st_luns t) \<Longrightarrow> st_luns t ! n \<noteq> None \<Longrightarrow> unit_volume (set_volume t n v) n = v"
  by (auto simp: unit_volume_def set_volume_def)

lemma set_volume_same: "st_luns t ! n \<noteq> None \<Longrightarrow> set_volume t n (unit_volume t n) = t"
proof -
  assume "st_luns t ! n \<noteq> None"
  then obtain lu where "st_luns t ! n = Some lu" by blast
  moreover from this have "(st_luns t)[n := Some lu] = st_luns t" by (metis list_update_id)
  ultimately show ?thesis by (simp add: set_volume_def unit_volume_def)
qed

lemma set_volume_twice: "n < length (st_luns t) \<Longrightarrow> set_volume (set_volume t n v) n w = set_volume t n w"
  by (cases "st_luns t ! n") (simp_all add: set_volume_def)

definition has_unit :: "scsi_target \<Rightarrow> nat option \<Rightarrow> bool" where
  "has_unit t u \<longleftrightarrow> (\<forall>n. u = Some n \<longrightarrow> n < length (st_luns t) \<and> st_luns t ! n \<noteq> None)"

lemma has_unit_command: "has_unit t (command_unit t cmd)"
  by (auto simp: has_unit_def command_unit_def lun_at_Some)

lemma finish_alone_solo:
  "has_unit t (Some n) \<Longrightarrow> finish_alone t (Some n) p = (case solo p (unit_volume t n) of (v, oc) \<Rightarrow> (set_volume t n v, oc))"
  by (cases p) (simp_all add: finish_alone_def has_unit_def set_volume_same)

lemma one_section_alone:
  assumes "has_unit t (Some n)" "one_section t n p = Some (t', p')"
  shows "finish_alone t' (Some n) p' = finish_alone t (Some n) p \<and> has_unit t' (Some n)"
proof (cases p)
  case (Store blk data q)
  let ?v = "(unit_volume t n)\<lparr>vol_overlay := ov_write_block (vol_overlay (unit_volume t n)) blk data\<rparr>"
  have t: "t' = set_volume t n ?v" "p' = q" using assms(2) Store by (simp_all add: one_section_def Let_def)
  have n: "n < length (st_luns t)" "st_luns t ! n \<noteq> None" using assms(1) by (simp_all add: has_unit_def)
  then have "has_unit t' (Some n)" by (auto simp: t(1) has_unit_def set_volume_def)
  then show ?thesis
    using assms(1) Store by (simp add: finish_alone_solo t unit_set_volume n set_volume_twice)
qed (use assms in \<open>auto simp: one_section_def finish_alone_solo\<close>)

lemma execute_alone: "finish_alone t (command_unit t cmd) (execute_sections t cmd buf) = execute t cmd buf"
proof (cases "lun_at t (sc_lun cmd)")
  case None
  then show ?thesis by (simp add: execute_def execute_sections_def finish_alone_def)
next
  case (Some p)
  obtain n lu where p: "lun_at t (sc_lun cmd) = Some (n, lu)" using Some by (cases p) simp
  then have n: "n < length (st_luns t)" "st_luns t ! n = Some lu" by (simp_all add: lun_at_Some)
  have set: "set_volume t n v = t\<lparr>st_luns := (st_luns t)[n := Some (lu\<lparr>lu_volume := v\<rparr>)]\<rparr>" for v
    by (simp add: set_volume_def n)
  have u: "has_unit t (Some n)" "command_unit t cmd = Some n" "unit_volume t n = lu_volume lu"
    using n p by (simp_all add: has_unit_def command_unit_def unit_volume_def)
  show ?thesis
  proof (cases "sc_cdb cmd ! 0 = 0xa0")
    case True
    then show ?thesis using p by (simp add: execute_def execute_sections_def finish_alone_def)
  next
    case False
    then show ?thesis
      using p u solo_dispatch [of lu "sc_cdb cmd" buf]
      by (cases "solo (dispatch_sections lu (sc_cdb cmd) buf) (lu_volume lu)")
        (simp add: execute_def execute_sections_def finish_alone_solo set Let_def flip: solo_dispatch)
  qed
qed

section \<open>The command inside a PDU\<close>

text \<open>
  The command that the handling of a PDU executes, with the assembled data: a command that is not a write,
  a write whose data came with it, or the Data-Out that completes a write. All other PDUs touch nothing
  but the connection and, once, the name table of the registry.
\<close>

definition scsi_command_of :: "connection \<Rightarrow> scsi_command \<Rightarrow> (scsi_command \<times> bytes) option" where
  "scsi_command_of c cmd =
     (if cn_target c = None then None
      else if \<not> sc_write cmd then Some (cmd, sc_data cmd)
      else if length (sc_data cmd) = unat (sc_edtl cmd) then Some (cmd, put 0 (sc_data cmd) (zeros (unat (sc_edtl cmd))))
      else None)"

definition data_out_command_of :: "connection \<Rightarrow> scsi_data_out \<Rightarrow> (scsi_command \<times> bytes) option" where
  "data_out_command_of c d =
     (case cn_in_flight c (do_itt d) of
        None \<Rightarrow> None
      | Some p \<Rightarrow>
          let start = unat (do_buffer_offset d); received = pw_received p + length (do_data d) mod 2 ^ 32 in
          if length (pw_buf p) < start + length (do_data d) \<or> 2 ^ 32 \<le> received \<or> received < unat (sc_edtl (pw_cmd p))
          then None
          else Some (pw_cmd p, put start (do_data d) (pw_buf p)))"

definition command_of :: "connection \<Rightarrow> request \<Rightarrow> (scsi_command \<times> bytes) option" where
  "command_of c req =
     (if cn_stage c \<noteq> FullFeature then None
      else case req of ScsiCommand cmd \<Rightarrow> scsi_command_of c cmd | DataOut d \<Rightarrow> data_out_command_of c d | _ \<Rightarrow> None)"

lemmas command_of_defs = command_of_def scsi_command_of_def data_out_command_of_def

text \<open>What the handling of that PDU does with the outcome of the command.\<close>

definition scsi_command_reply :: "connection \<Rightarrow> scsi_command \<Rightarrow> scsi_outcome \<Rightarrow> (connection \<times> outbound list) io" where
  "scsi_command_reply c cmd oc =
     (let c1 = c\<lparr>cn_exp_cmd_sn := cn_exp_cmd_sn c + 1\<rparr> in
      if sc_write cmd then Inr (bump_stat_sn c1, [scsi_resp c1 cmd oc 0])
      else if sc_read cmd \<and> oc_status oc = 0 \<and> oc_data oc \<noteq> [] then data_in_chunks c1 cmd (oc_data oc)
      else Inr (bump_stat_sn c1, [scsi_resp c1 cmd oc (of_nat (unat (sc_edtl cmd) - length (oc_data oc) mod 2 ^ 32))]))"

definition data_out_reply :: "connection \<Rightarrow> scsi_data_out \<Rightarrow> scsi_outcome \<Rightarrow> (connection \<times> outbound list) io" where
  "data_out_reply c d oc =
     (case cn_in_flight c (do_itt d) of
        None \<Rightarrow> Inl Panicked
      | Some p \<Rightarrow>
          let c1 = c\<lparr>cn_in_flight := (cn_in_flight c)(do_itt d := None)\<rparr> in
          Inr (bump_stat_sn c1, [scsi_resp c1 (pw_cmd p) oc 0]))"

definition command_reply :: "connection \<Rightarrow> request \<Rightarrow> scsi_outcome \<Rightarrow> (connection \<times> outbound list) io" where
  "command_reply c req oc =
     (case req of ScsiCommand cmd \<Rightarrow> scsi_command_reply c cmd oc | DataOut d \<Rightarrow> data_out_reply c d oc
      | _ \<Rightarrow> Inl Panicked)"

lemmas command_reply_defs = command_reply_def scsi_command_reply_def data_out_reply_def

text \<open>The handling of a PDU is its command followed by its reply, or it has no command.\<close>

lemma run_target_conn: "cn_target c' = cn_target c \<Longrightarrow> run_target r c' cmd bs = run_target r c cmd bs"
  by (simp add: run_target_def)

lemma handle_command_split:
  assumes "command_of c req = Some (cmd, bs)"
  shows "handle r c req bhs =
    (case run_target r c cmd bs of Inl e \<Rightarrow> Inl e
     | Inr (r', oc) \<Rightarrow> (case command_reply c req oc of Inl e \<Rightarrow> Inl e | Inr (c', outs) \<Rightarrow> Inr (r', c', outs)))"
proof -
  have ff: "cn_stage c = FullFeature" using assms by (simp add: command_of_defs split: if_splits)
  show ?thesis
  proof (cases req)
    case (ScsiCommand cmd0)
    obtain i where t: "cn_target c = Some i" and cmd: "cmd0 = cmd"
      using assms ScsiCommand ff by (auto simp: command_of_defs split: if_splits)
    note conn = run_target_conn [of "c\<lparr>cn_exp_cmd_sn := cn_exp_cmd_sn c + 1\<rparr>" c r cmd]
    show ?thesis
    proof (cases "sc_write cmd")
      case True
      then have w: "length (sc_data cmd) = unat (sc_edtl cmd)" "bs = put 0 (sc_data cmd) (zeros (unat (sc_edtl cmd)))"
        using assms ScsiCommand ff t cmd by (auto simp: command_of_defs split: if_splits)
      have "unat (sc_edtl cmd) mod 2 ^ 32 = unat (sc_edtl cmd)" using unsigned_less [of "sc_edtl cmd", where ?'a = nat] by simp
      then show ?thesis
        using True w ScsiCommand ff t cmd conn
        by (simp add: handle_def handle_command_def begin_write_def finish_write_def command_reply_defs Let_def
            split: sum.split prod.split)
    next
      case False
      then have "bs = sc_data cmd" using assms ScsiCommand ff t cmd by (auto simp: command_of_defs split: if_splits)
      then show ?thesis
        using False ScsiCommand ff t cmd conn
        by (simp add: handle_def handle_command_def command_reply_defs Let_def split: sum.split prod.split)
    qed
  next
    case (DataOut d)
    then obtain p where p: "cn_in_flight c (do_itt d) = Some p" "cmd = pw_cmd p" "bs = put (unat (do_buffer_offset d)) (do_data d) (pw_buf p)"
      "\<not> length (pw_buf p) < unat (do_buffer_offset d) + length (do_data d)"
      "\<not> 2 ^ 32 \<le> pw_received p + length (do_data d) mod 2 ^ 32" "\<not> pw_received p + length (do_data d) mod 2 ^ 32 < unat (sc_edtl (pw_cmd p))"
      using assms ff by (auto simp: command_of_defs Let_def split: option.splits if_splits)
    then show ?thesis
      using DataOut ff run_target_conn [of "c\<lparr>cn_in_flight := (cn_in_flight c)(do_itt d := None)\<rparr>" c r "pw_cmd p"]
      by (simp add: handle_def handle_data_out_def finish_write_def command_reply_defs Let_def split: sum.split prod.split)
  qed (use assms ff in \<open>simp_all add: command_of_defs\<close>)
qed

lemma names_only: "reg_targets q = reg_targets r \<Longrightarrow> registry_get q = registry_get r \<and> registry_iqns q = registry_iqns r"
  by (auto simp: registry_get_def registry_iqns_def)

lemma handle_login_names:
  assumes "reg_targets q = reg_targets r"
  shows "handle_login q c lq = map_sum id (\<lambda>(_, x). (q, x)) (handle_login r c lq)"
proof -
  have get: "registry_get q = registry_get r" using names_only [OF assms] by simp
  have "resolve_target q c0 lq = resolve_target r c0 lq" for c0 unfolding resolve_target_def get by (rule refl)
  then show ?thesis by (simp add: handle_login_def Let_def split: option.split prod.split)
qed

lemma begin_write_without_command:
  assumes "length (sc_data cmd) \<noteq> unat (sc_edtl cmd)" "begin_write r c cmd bhs = Inr (r', c', outs)"
  shows "r' = r \<and> begin_write q c cmd bhs = Inr (q, c', outs)"
proof (cases "unat (sc_edtl cmd) < length (sc_data cmd)")
  case False
  then have "length (sc_data cmd) mod 2 ^ 32 = length (sc_data cmd)" using unsigned_less [of "sc_edtl cmd", where ?'a = nat] by simp
  then show ?thesis using assms False by (auto simp: begin_write_def Let_def split: if_splits)
qed (use assms in \<open>auto simp: begin_write_def rejected_def Let_def split: if_splits prod.splits\<close>)

lemma handle_without_command:
  assumes "command_of c req = None" "handle r c req bhs = Inr (r', c', outs)" "reg_targets q = reg_targets r"
  shows "r' = r \<and> handle q c req bhs = Inr (q, c', outs)"
proof (cases "cn_stage c = FullFeature")
  case True
  show ?thesis
  proof (cases req)
    case (ScsiCommand cmd)
    then consider "cn_target c = None" | "cn_target c \<noteq> None" "sc_write cmd" "length (sc_data cmd) \<noteq> unat (sc_edtl cmd)"
      using assms(1) True by (auto simp: command_of_defs split: if_splits)
    then show ?thesis
    proof cases
      case 1
      then show ?thesis
        using assms(2) True ScsiCommand by (auto simp: handle_def handle_command_def rejected_def split: prod.splits)
    next
      case 2
      then show ?thesis
        using assms(2) True ScsiCommand begin_write_without_command [OF 2(3)]
        by (auto simp: handle_def handle_command_def Let_def)
    qed
  next
    case (DataOut d)
    then show ?thesis
      using assms(1,2) True
      by (auto simp: command_of_defs handle_def handle_data_out_def rejected_def Let_def split: option.splits if_splits prod.splits)
  qed (use assms(2) True names_only [OF assms(3)] in
      \<open>auto simp: handle_def handle_nop_def handle_text_def handle_task_mgmt_def handle_logout_def rejected_def Let_def
        split: prod.splits\<close>)
next
  case False
  have "r' = r \<and> handle_login q c lq = Inr (q, c', outs)" if "handle_login r c lq = Inr (r', c', outs)" for lq
    using that handle_login_names [OF assms(3), of c lq] handle_login_names [of r r c lq] by simp
  then show ?thesis
    using assms(2) False
    by (cases "cn_stage c"; cases req) (auto simp: handle_def rejected_def split: prod.splits)
qed

end
