(* ===== verification/Interleaved.thy ===== *)
theory Interleaved
  imports Server Sections
begin

text \<open>
  The running server at the grain of its locks. A task that executes a command does so section by section
  (\<open>Sections\<close>), with any steps of the other tasks, of HTTP requests and of the service loops in
  between; only what comes before the command and after it is one step, for it is on the task's own
  connection. As long as no two tasks are at the same time inside commands of one target, every run
  is simulated by a run of \<open>Server\<close>, where a PDU is one step: the PDU counts as done when its reply goes out.
\<close>

section \<open>Live states and steps\<close>

record execution =
  ex_target :: nat
  ex_unit :: "nat option"
  ex_program :: program

record live =
  lv_server :: server
  lv_busy :: "nat \<Rightarrow> execution option"

definition live_start :: live where
  "live_start = \<lparr>lv_server = server_start, lv_busy = Map.empty\<rparr>"

datatype live_action = Idle action | Begin nat | Access nat | Finish nat

definition task_command :: "conn_task \<Rightarrow> (scsi_command \<times> bytes) option" where
  "task_command t = (case decode (tk_buf t) of Inl e \<Rightarrow> None | Inr (req, used) \<Rightarrow> command_of (tk_conn t) req)"

definition begun :: "registry \<Rightarrow> nat \<Rightarrow> scsi_command \<Rightarrow> bytes \<Rightarrow> execution" where
  "begun r i cmd bs = \<lparr>ex_target = i, ex_unit = command_unit (reg_heap r ! i) cmd,
     ex_program = execute_sections (reg_heap r ! i) cmd bs\<rparr>"

definition with_target :: "server \<Rightarrow> nat \<Rightarrow> scsi_target \<Rightarrow> server" where
  "with_target s i t = s\<lparr>sr_registry := (sr_registry s)\<lparr>reg_heap := (reg_heap (sr_registry s))[i := t]\<rparr>\<rparr>"

text \<open>
  \<open>idle\<close>: a step of the server that executes no command. \<open>start\<close>, \<open>access\<close> and \<open>finish\<close>: a task decodes a
  PDU with a command and enters it; it goes through one critical section; it has the outcome and replies.
\<close>

inductive live_step ::
  "(rstr \<Rightarrow> rstr) \<Rightarrow> config \<Rightarrow> client_manager \<Rightarrow> boot_config \<Rightarrow> (nat \<Rightarrow> write_results) \<Rightarrow> live_action \<Rightarrow> live \<Rightarrow> live \<Rightarrow> bool"
  for uni cfg m boot wr where
  idle: "server_step uni cfg m boot wr a (lv_server l) s' \<Longrightarrow>
     (\<And>k. a = Work k \<Longrightarrow> task_command (sr_tasks (lv_server l) ! k) = None) \<Longrightarrow>
     live_step uni cfg m boot wr (Idle a) l (l\<lparr>lv_server := s'\<rparr>)"
| start: "s = lv_server l \<Longrightarrow> sr_exit s = None \<Longrightarrow> k < length (sr_tasks s) \<Longrightarrow> t = sr_tasks s ! k \<Longrightarrow>
     tk_end t = Reading \<Longrightarrow> lv_busy l k = None \<Longrightarrow> task_command t = Some (cmd, bs) \<Longrightarrow> cn_target (tk_conn t) = Some i \<Longrightarrow>
     live_step uni cfg m boot wr (Begin k) l (l\<lparr>lv_busy := (lv_busy l)(k \<mapsto> begun (sr_registry s) i cmd bs)\<rparr>)"
| access: "s = lv_server l \<Longrightarrow> sr_exit s = None \<Longrightarrow> lv_busy l k = Some ex \<Longrightarrow> ex_unit ex = Some n \<Longrightarrow>
     one_section (reg_heap (sr_registry s) ! ex_target ex) n (ex_program ex) = Some (t', p') \<Longrightarrow>
     live_step uni cfg m boot wr (Access k) l
       (l\<lparr>lv_server := with_target s (ex_target ex) t', lv_busy := (lv_busy l)(k \<mapsto> ex\<lparr>ex_program := p'\<rparr>)\<rparr>)"
| finish: "s = lv_server l \<Longrightarrow> sr_exit s = None \<Longrightarrow> lv_busy l k = Some ex \<Longrightarrow> ex_program ex = Answer (Inr oc) \<Longrightarrow>
     t = sr_tasks s ! k \<Longrightarrow> decode (tk_buf t) = Inr (req, used) \<Longrightarrow> command_reply (tk_conn t) req oc = Inr (c', outs) \<Longrightarrow>
     live_step uni cfg m boot wr (Finish k) l
       (l\<lparr>lv_server := s\<lparr>sr_tasks := (sr_tasks s)[k := task_reply (wr k) t used c' outs]\<rparr>, lv_busy := (lv_busy l)(k := None)\<rparr>)"

inductive live_run ::
  "(rstr \<Rightarrow> rstr) \<Rightarrow> config \<Rightarrow> client_manager \<Rightarrow> boot_config \<Rightarrow> (nat \<Rightarrow> write_results) \<Rightarrow> live_action list \<Rightarrow> live \<Rightarrow> live \<Rightarrow> bool"
  for uni cfg m boot wr where
  nil: "live_run uni cfg m boot wr [] l l"
| more: "live_step uni cfg m boot wr a l l' \<Longrightarrow> live_run uni cfg m boot wr as l' l'' \<Longrightarrow>
     live_run uni cfg m boot wr (a # as) l l''"

inductive_simps live_run_simps [simp]:
  "live_run uni cfg m boot wr [] l l'" "live_run uni cfg m boot wr (a # as) l l'"

text \<open>No two tasks are inside commands of one target.\<close>

definition apart :: "live \<Rightarrow> bool" where
  "apart l \<longleftrightarrow> (\<forall>k k' ex ex'. lv_busy l k = Some ex \<longrightarrow> lv_busy l k' = Some ex' \<longrightarrow> k \<noteq> k' \<longrightarrow> ex_target ex \<noteq> ex_target ex')"

inductive exclusive_run ::
  "(rstr \<Rightarrow> rstr) \<Rightarrow> config \<Rightarrow> client_manager \<Rightarrow> boot_config \<Rightarrow> (nat \<Rightarrow> write_results) \<Rightarrow> live_action list \<Rightarrow> live \<Rightarrow> live \<Rightarrow> bool"
  for uni cfg m boot wr where
  nil: "exclusive_run uni cfg m boot wr [] l l"
| more: "live_step uni cfg m boot wr a l l' \<Longrightarrow> apart l' \<Longrightarrow> exclusive_run uni cfg m boot wr as l' l'' \<Longrightarrow>
     exclusive_run uni cfg m boot wr (a # as) l l''"

inductive_simps exclusive_run_simps [simp]:
  "exclusive_run uni cfg m boot wr [] l l'" "exclusive_run uni cfg m boot wr (a # as) l l'"

interpretation lives: labelled_runs "live_step uni cfg m boot wr" "live_run uni cfg m boot wr" for uni cfg m boot wr
  by unfold_locales auto

lemma exclusive_live: "exclusive_run uni cfg m boot wr as l l' \<Longrightarrow> live_run uni cfg m boot wr as l l'"
  by (induction rule: exclusive_run.induct) auto

section \<open>Tasks\<close>

text \<open>The buffers, the end of a task and the number of tasks are as in the server, however commands overlap.\<close>

lemma busy_decodes: "task_command t = Some x \<Longrightarrow> \<not> between (tk_buf t)"
  by (auto simp: task_command_def between_def split: sum.splits)

lemma live_step_tasks:
  assumes "live_step uni cfg m boot wr a l l'" "tasks_inv (lv_server l)"
  shows "tasks_inv (lv_server l')"
  using assms(1)
proof cases
  case (idle a s')
  then show ?thesis using server_step_tasks assms(2) by simp
next
  case (finish s k ex oc t req used c' outs)
  show ?thesis
  proof (cases "k < length (sr_tasks s)")
    case True
    then have "task_inv t" using assms(2) finish by (simp add: tasks_inv_def list_all_length)
    then have "task_inv (task_reply (wr k) t used c' outs)" by (rule task_inv_reply)
    from tasks_inv_update [OF _ this, of s k "sr_registry s"] assms(2) finish show ?thesis by simp
  next
    case False
    then show ?thesis using finish assms(2) by (simp add: tasks_inv_def list_update_beyond)
  qed
qed (use assms(2) in \<open>simp_all add: with_target_def tasks_inv_def\<close>)

lemma tasks_inv_start: "tasks_inv server_start"
  by (simp add: tasks_inv_def server_start_def services_start_def)

lemma live_run_tasks: "live_run uni cfg m boot wr as live_start l \<Longrightarrow> tasks_inv (lv_server l)"
  using lives.run_keeps [where holds = "\<lambda>l. tasks_inv (lv_server l)"] live_step_tasks tasks_inv_start
  by (fastforce simp: live_start_def)

section \<open>Steps that execute no command\<close>

lemma http_names_only:
  assumes "http_handle uni cfg m r req = Inr (resp, r')" "reg_targets q = reg_targets r" "length (reg_heap q) = length (reg_heap r)"
  shows "\<exists>q' new. http_handle uni cfg m q req = Inr (resp, q') \<and> reg_heap r' = reg_heap r @ new \<and>
    reg_heap q' = reg_heap q @ new \<and> reg_targets q' = reg_targets r'"
  using assms by (auto simp: http_handle_def Let_def registry_insert_def split: if_splits option.splits)

lemma work_names_only:
  assumes "task_command t = None" "task_work wr r t = Inr (r', t')" "reg_targets q = reg_targets r"
  shows "r' = r \<and> task_work wr q t = Inr (q, t')"
  using assms handle_without_command [OF _ _ assms(3), of "tk_conn t"]
  by (fastforce simp: task_command_def task_work_def split: sum.splits)

lemma registry_tasks_commute: "sr_registry_update f (sr_tasks_update g s) = sr_tasks_update g (sr_registry_update f s)"
  by (cases s) simp

lemma idle_names_only:
  assumes "server_step uni cfg m boot wr a s s'" "\<And>k. a = Work k \<Longrightarrow> task_command (sr_tasks s ! k) = None"
    and "reg_targets q = reg_targets (sr_registry s)" "length (reg_heap q) = length (reg_heap (sr_registry s))"
  shows "\<exists>q' new. server_step uni cfg m boot wr a (s\<lparr>sr_registry := q\<rparr>) (s'\<lparr>sr_registry := q'\<rparr>) \<and>
    reg_heap (sr_registry s') = reg_heap (sr_registry s) @ new \<and> reg_heap q' = reg_heap q @ new \<and>
    reg_targets q' = reg_targets (sr_registry s')"
  using assms(1)
proof cases
  case (main ev sv' res)
  let ?s = "s\<lparr>sr_registry := q\<rparr>"
  have "server_step uni cfg m boot wr (Main ev) ?s
      (?s\<lparr>sr_services := sv', sr_tasks := sr_tasks ?s @ spawn (sr_services ?s) sv', sr_exit := res\<rparr>)"
    by (rule server_step.main) (use main(3,4) in \<open>simp_all del: run_services.simps\<close>)
  moreover have "?s\<lparr>sr_services := sv', sr_tasks := sr_tasks ?s @ spawn (sr_services ?s) sv', sr_exit := res\<rparr> =
      s'\<lparr>sr_registry := q\<rparr>"
    using main(2) by (cases s) simp
  ultimately have "server_step uni cfg m boot wr a ?s (s'\<lparr>sr_registry := q\<rparr>)" by (simp only: main(1))
  then show ?thesis using main(2) assms(3) by (intro exI [of _ q] exI [of _ "[]"]) simp
next
  case (ask req resp r')
  obtain q' new where "http_handle uni cfg m q req = Inr (resp, q')" "reg_heap r' = reg_heap (sr_registry s) @ new"
      "reg_heap q' = reg_heap q @ new" "reg_targets q' = reg_targets r'"
    using http_names_only [OF ask(5) assms(3,4)] by blast
  then show ?thesis
    using server_step.ask [of "s\<lparr>sr_registry := q\<rparr>" uni cfg m req resp q' boot wr] ask
    by (intro exI [of _ q'] exI [of _ new]) simp
next
  case (recv k t bs)
  then show ?thesis
    using server_step.recv [of "s\<lparr>sr_registry := q\<rparr>" k t bs uni cfg m boot wr] assms(3)
    by (intro exI [of _ q] exI [of _ "[]"]) (simp add: registry_tasks_commute)
next
  case (hangup k t ok)
  then show ?thesis
    using server_step.hangup [of "s\<lparr>sr_registry := q\<rparr>" k t uni cfg m boot wr ok] assms(3)
    by (intro exI [of _ q] exI [of _ "[]"]) (simp add: registry_tasks_commute)
next
  case (work k t r' t')
  then have "r' = sr_registry s" "task_work (wr k) q t = Inr (q, t')"
    using work_names_only [of t "wr k" "sr_registry s" r' t' q] assms(2,3) by auto
  then show ?thesis
    using server_step.work [of "s\<lparr>sr_registry := q\<rparr>" k t wr q t' uni cfg m boot] work assms(3)
    by (intro exI [of _ q] exI [of _ "[]"]) (simp add: registry_tasks_commute)
qed

lemma idle_keeps_busy:
  assumes "server_step uni cfg m boot wr a s s'" "\<And>k. a = Work k \<Longrightarrow> task_command (sr_tasks s ! k) = None"
    and "k < length (sr_tasks s)" "task_command (sr_tasks s ! k) = Some x"
  shows "k < length (sr_tasks s') \<and> sr_tasks s' ! k = sr_tasks s ! k"
  using assms(1)
proof cases
  case (recv j t bs)
  then show ?thesis using assms(3,4) busy_decodes [OF assms(4)] by (cases "j = k") auto
next
  case (hangup j t ok)
  then show ?thesis using assms(3,4) busy_decodes [OF assms(4)] by (cases "j = k") auto
next
  case (work j t r' t')
  then show ?thesis using assms by (cases "j = k") auto
qed (use assms in \<open>auto simp: nth_append\<close>)

section \<open>The simulation\<close>

text \<open>
  A live state is linked to a state of the server when they agree on everything but the targets somebody is
  working on; and such a target is, in the server, as the command will find it, so that what is left of the command on
  the live target gives what the whole command gives on the server's.
\<close>

definition in_progress :: "live \<Rightarrow> registry \<Rightarrow> nat \<Rightarrow> execution \<Rightarrow> bool" where
  "in_progress l q k ex \<longleftrightarrow>
     (let s = lv_server l; t = sr_tasks s ! k; i = ex_target ex; live_t = reg_heap (sr_registry s) ! i in
      k < length (sr_tasks s) \<and> tk_end t = Reading \<and> cn_target (tk_conn t) = Some i \<and> i < length (reg_heap q) \<and>
      has_unit live_t (ex_unit ex) \<and>
      (\<exists>cmd bs. task_command t = Some (cmd, bs) \<and>
         finish_alone live_t (ex_unit ex) (ex_program ex) = execute (reg_heap q ! i) cmd bs))"

definition at_rest :: "live \<Rightarrow> nat \<Rightarrow> bool" where
  "at_rest l i \<longleftrightarrow> (\<forall>k ex. lv_busy l k = Some ex \<longrightarrow> ex_target ex \<noteq> i)"

definition linked :: "client_manager \<Rightarrow> live \<Rightarrow> server \<Rightarrow> bool" where
  "linked m l s \<longleftrightarrow> images_ok m \<and> server_inv m s \<and> apart l \<and>
     (let r = sr_registry (lv_server l); q = sr_registry s in
      s = (lv_server l)\<lparr>sr_registry := q\<rparr> \<and> reg_targets q = reg_targets r \<and> length (reg_heap q) = length (reg_heap r) \<and>
      (\<forall>i < length (reg_heap r). at_rest l i \<longrightarrow> reg_heap r ! i = reg_heap q ! i) \<and>
      (\<forall>k ex. lv_busy l k = Some ex \<longrightarrow> in_progress l q k ex))"

lemma linked_start: "images_ok m \<Longrightarrow> linked m live_start server_start"
  by (simp add: linked_def server_inv_start live_start_def apart_def Let_def)

lemma linked_idle:
  assumes "live_step uni cfg m boot wr (Idle a) l l'" "linked m l s"
  shows "\<exists>a s'. server_step uni cfg m boot wr a s s' \<and> linked m l' s'"
  using assms(1)
proof cases
  case (idle c')
  let ?c = "lv_server l" and ?q = "sr_registry s"
  have link: "images_ok m" "server_inv m s" "apart l" "s = ?c\<lparr>sr_registry := ?q\<rparr>" "reg_targets ?q = reg_targets (sr_registry ?c)"
      "length (reg_heap ?q) = length (reg_heap (sr_registry ?c))"
      "\<forall>i < length (reg_heap ?q). at_rest l i \<longrightarrow> reg_heap (sr_registry ?c) ! i = reg_heap ?q ! i"
      "\<And>k ex. lv_busy l k = Some ex \<Longrightarrow> in_progress l ?q k ex"
    using assms(2) by (simp_all add: linked_def Let_def)
  obtain q' new where q': "server_step uni cfg m boot wr a (?c\<lparr>sr_registry := ?q\<rparr>) (c'\<lparr>sr_registry := q'\<rparr>)"
      "reg_heap (sr_registry c') = reg_heap (sr_registry ?c) @ new" "reg_heap q' = reg_heap ?q @ new"
      "reg_targets q' = reg_targets (sr_registry c')"
    using idle_names_only [OF idle(2) _ link(5,6)] idle(3) by blast
  let ?s = "c'\<lparr>sr_registry := q'\<rparr>"
  have step: "server_step uni cfg m boot wr a s ?s" using q'(1) link(4) by simp
  have "in_progress l' q' k ex" if "lv_busy l' k = Some ex" for k ex
  proof -
    have p: "in_progress l ?q k ex" using link(8) that idle(1) by simp
    then obtain x where "k < length (sr_tasks ?c)" "task_command (sr_tasks ?c ! k) = Some x"
      by (auto simp: in_progress_def Let_def)
    then have "k < length (sr_tasks c')" "sr_tasks c' ! k = sr_tasks ?c ! k"
      using idle_keeps_busy [OF idle(2)] idle(3) by blast+
    then show ?thesis using p idle(1) q'(2,3) link(6) by (simp add: in_progress_def Let_def nth_append)
  qed
  moreover have "at_rest l' i \<longleftrightarrow> at_rest l i" "apart l'" for i
    using idle(1) link(3) by (simp_all add: at_rest_def apart_def)
  moreover have "server_inv m ?s" using server_step_inv [OF step link(2,1)] .
  ultimately have "linked m l' ?s"
    using idle(1) q'(2-4) link(1,6,7) by (simp add: linked_def Let_def nth_append)
  with step show ?thesis by blast
qed

lemma linked_start_command:
  assumes "live_step uni cfg m boot wr (Begin k) l l'" "apart l'" "linked m l s"
  shows "linked m l' s"
  using assms(1)
proof cases
  case (start c t cmd bs i)
  let ?q = "sr_registry s" and ?r = "sr_registry c"
  have link: "server_inv m s" "s = c\<lparr>sr_registry := ?q\<rparr>" "length (reg_heap ?q) = length (reg_heap ?r)"
      "\<And>i. i < length (reg_heap ?r) \<Longrightarrow> at_rest l i \<Longrightarrow> reg_heap ?r ! i = reg_heap ?q ! i"
      "\<And>k ex. lv_busy l k = Some ex \<Longrightarrow> in_progress l ?q k ex"
    using assms(3) start(2) by (simp_all add: linked_def Let_def)
  have tasks: "sr_tasks s = sr_tasks c" by (subst link(2)) simp
  have "conn_inv ?q (tk_conn t)"
    using link(1) start(4,5) tasks by (simp add: server_inv_def world_inv_def server_world_def)
  then have i: "i < length (reg_heap ?q)" using start(9) by (simp add: conn_inv_def)
  have rest: "at_rest l i"
    unfolding at_rest_def
  proof (intro allI impI)
    fix k2 ex2 assume "lv_busy l k2 = Some ex2"
    then have "k2 \<noteq> k" "lv_busy l' k2 = Some ex2" "lv_busy l' k = Some (begun ?r i cmd bs)" using start(1,7) by auto
    then show "ex_target ex2 \<noteq> i" using assms(2) unfolding apart_def by (fastforce simp: begun_def)
  qed
  have eq: "reg_heap ?r ! i = reg_heap ?q ! i" using link(4) i rest link(3) by simp
  have "in_progress l' ?q k (begun ?r i cmd bs)"
    using start i eq execute_alone [of "reg_heap ?q ! i" cmd bs] has_unit_command [of "reg_heap ?q ! i" cmd]
    by (auto simp: in_progress_def begun_def Let_def)
  moreover have "in_progress l' ?q k' ex" if "in_progress l ?q k' ex" for k' ex
    using that start(1) by (simp add: in_progress_def)
  ultimately have "\<forall>k ex. lv_busy l' k = Some ex \<longrightarrow> in_progress l' ?q k ex" using link(5) start(1) by auto
  moreover have "at_rest l' i' \<Longrightarrow> at_rest l i'" for i'
    using start(1,7) by (auto simp: at_rest_def split: if_splits) (metis option.distinct(1))
  ultimately show ?thesis using assms(2,3) start(1) by (simp add: linked_def Let_def)
qed

lemma linked_access:
  assumes "live_step uni cfg m boot wr (Access k) l l'" "linked m l s"
  shows "linked m l' s"
  using assms(1)
proof cases
  case (access c ex n t' p')
  let ?q = "sr_registry s" and ?r = "sr_registry c" and ?i = "ex_target ex"
  have link: "apart l" "length (reg_heap ?q) = length (reg_heap ?r)"
      "\<And>k ex. lv_busy l k = Some ex \<Longrightarrow> in_progress l ?q k ex"
    using assms(2) access(2) by (simp_all add: linked_def Let_def)
  have i: "?i < length (reg_heap ?r)" and unit: "has_unit (reg_heap ?r ! ?i) (Some n)"
    using link(3) [OF access(4)] link(2) access(2,5) by (simp_all add: in_progress_def Let_def)
  have heap: "reg_heap (sr_registry (lv_server l')) = (reg_heap ?r)[?i := t']"
    "sr_tasks (lv_server l') = sr_tasks c" "reg_targets (sr_registry (lv_server l')) = reg_targets ?r"
    using access(1,2) by (simp_all add: with_target_def)
  have "in_progress l' ?q k' ex'" if "lv_busy l' k' = Some ex'" for k' ex'
  proof (cases "k' = k")
    case True
    then have "ex' = ex\<lparr>ex_program := p'\<rparr>" using that access(1) by simp
    then show ?thesis
      using True link(3) [OF access(4)] one_section_alone [OF unit access(6)] i heap access(2,5)
      by (auto simp: in_progress_def Let_def)
  next
    case False
    then have ex': "lv_busy l k' = Some ex'" using that access(1) by simp
    then have "ex_target ex' \<noteq> ?i" using link(1) access(4) False by (auto simp: apart_def)
    then show ?thesis using link(3) [OF ex'] heap access(2) by (simp add: in_progress_def Let_def)
  qed
  moreover have "at_rest l' i' \<longleftrightarrow> at_rest l i' \<and> i' \<noteq> ?i" "apart l'" for i'
    using access(1,4) link(1) by (auto simp: at_rest_def apart_def split: if_splits)
  ultimately show ?thesis
    using assms(2) access(1,2) heap by (auto simp: linked_def Let_def with_target_def)
qed

lemma linked_finish:
  assumes "live_step uni cfg m boot wr (Finish k) l l'" "linked m l s"
  shows "\<exists>s'. server_step uni cfg m boot wr (Work k) s s' \<and> linked m l' s'"
  using assms(1)
proof cases
  case (finish c ex oc t req used c' outs)
  let ?r = "sr_registry c" and ?i = "ex_target ex"
  define q where "q = sr_registry s"
  have link: "images_ok m" "server_inv m s" "apart l" "reg_targets q = reg_targets ?r"
      "length (reg_heap q) = length (reg_heap ?r)"
      "\<And>i. i < length (reg_heap ?r) \<Longrightarrow> at_rest l i \<Longrightarrow> reg_heap ?r ! i = reg_heap q ! i"
      "\<And>k ex. lv_busy l k = Some ex \<Longrightarrow> in_progress l q k ex"
    using assms(2) finish(2) by (simp_all add: linked_def Let_def q_def)
  have s: "s = c\<lparr>sr_registry := q\<rparr>" using assms(2) finish(2) by (simp add: linked_def Let_def q_def)
  obtain cmd bs where p: "k < length (sr_tasks c)" "tk_end t = Reading" "cn_target (tk_conn t) = Some ?i" "?i < length (reg_heap q)"
      "task_command t = Some (cmd, bs)" "finish_alone (reg_heap ?r ! ?i) (ex_unit ex) (ex_program ex) = execute (reg_heap q ! ?i) cmd bs"
    using link(7) [OF finish(4)] finish(2,6) by (auto simp: in_progress_def Let_def)
  let ?q' = "q\<lparr>reg_heap := (reg_heap q)[?i := reg_heap ?r ! ?i]\<rparr>"
  have "execute (reg_heap q ! ?i) cmd bs = (reg_heap ?r ! ?i, Inr oc)" using p(6) finish(5) by (simp add: finish_alone_def)
  then have "run_target q (tk_conn t) cmd bs = Inr (?q', oc)" using p(3) by (simp add: run_target_def)
  moreover have "command_of (tk_conn t) req = Some (cmd, bs)" using p(5) finish(7) by (simp add: task_command_def)
  ultimately have work: "task_work (wr k) q t = Inr (?q', task_reply (wr k) t used c' outs)"
    using handle_command_split [of "tk_conn t" req cmd bs q "take BHS_LEN (tk_buf t)"] finish(7,8) by (simp add: task_work_def)
  let ?s = "c\<lparr>sr_registry := ?q', sr_tasks := (sr_tasks c)[k := task_reply (wr k) t used c' outs]\<rparr>"
  have step: "server_step uni cfg m boot wr (Work k) s ?s"
    using server_step.work [of s k t wr ?q' _ uni cfg m boot] finish(3,6) p(1,2) busy_decodes [OF p(5)] work by (simp add: s)
  moreover have "linked m l' ?s"
  proof -
    have "in_progress l' ?q' k' ex'" if "lv_busy l' k' = Some ex'" for k' ex'
    proof -
      have k': "k' \<noteq> k" "lv_busy l k' = Some ex'" using that finish(1) by (auto split: if_splits)
      then have "ex_target ex' \<noteq> ?i" using link(3) finish(4) by (auto simp: apart_def)
      then show ?thesis using link(7) [OF k'(2)] k'(1) finish(1,2) by (simp add: in_progress_def Let_def)
    qed
    moreover have "at_rest l' i \<Longrightarrow> i \<noteq> ?i \<Longrightarrow> at_rest l i" for i
      using finish(1,4) by (auto simp: at_rest_def split: if_splits) (metis option.inject)
    then have "(reg_heap ?r) ! i = (reg_heap ?q') ! i" if "at_rest l' i" "i < length (reg_heap ?r)" for i
      using link(5,6) that by (cases "i = ?i") auto
    moreover have "apart l'" using link(3) finish(1) by (auto simp: apart_def split: if_splits)
    moreover have "server_inv m ?s" using server_step_inv [OF step link(2,1)] .
    ultimately show ?thesis using finish(1) link(1,4,5) by (simp add: linked_def Let_def)
  qed
  ultimately show ?thesis by blast
qed

interpretation links: stuttering_simulation "\<lambda>a l l'. live_step uni cfg m boot wr a l l' \<and> apart l'" "exclusive_run uni cfg m boot wr"
    "server_step uni cfg m boot wr" "server_run uni cfg m boot wr" "linked m" for uni cfg m boot wr
proof unfold_locales
  fix a l l' s
  assume step: "live_step uni cfg m boot wr a l l' \<and> apart l'" and link: "linked m l s"
  show "linked m l' s \<or> (\<exists>a s'. server_step uni cfg m boot wr a s s' \<and> linked m l' s')"
  proof (cases a)
    case (Idle b)
    then show ?thesis using linked_idle step link by blast
  next
    case (Begin k)
    then show ?thesis using linked_start_command step link by blast
  next
    case (Access k)
    then show ?thesis using linked_access step link by blast
  next
    case (Finish k)
    then show ?thesis using linked_finish step link by blast
  qed
qed auto

lemma exclusive_run_linked:
  assumes "exclusive_run uni cfg m boot wr as live_start l" "images_ok m"
  obtains bs s where "server_run uni cfg m boot wr bs server_start s" "linked m l s"
  using links.run_simulated [OF assms(1) linked_start [OF assms(2)]] by blast

lemma linked_sel:
  assumes "linked m l s"
  shows "s = (lv_server l)\<lparr>sr_registry := sr_registry s\<rparr>" "sr_tasks s = sr_tasks (lv_server l)"
    "reg_targets (sr_registry s) = reg_targets (sr_registry (lv_server l))"
    "length (reg_heap (sr_registry s)) = length (reg_heap (sr_registry (lv_server l)))"
    "i < length (reg_heap (sr_registry s)) \<Longrightarrow> at_rest l i \<Longrightarrow>
      reg_heap (sr_registry (lv_server l)) ! i = reg_heap (sr_registry s) ! i"
    "server_inv m s"
proof -
  show s: "s = (lv_server l)\<lparr>sr_registry := sr_registry s\<rparr>" using assms by (simp add: linked_def Let_def)
  show "sr_tasks s = sr_tasks (lv_server l)" by (subst s) simp
qed (use assms in \<open>simp_all add: linked_def Let_def\<close>)

lemma linked_idle_state:
  assumes "linked m l s" "lv_busy l = Map.empty"
  shows "s = lv_server l"
proof -
  have "reg_heap (sr_registry s) = reg_heap (sr_registry (lv_server l))"
    using linked_sel(4,5) [OF assms(1)] assms(2) by (intro nth_equalityI) (simp_all add: at_rest_def)
  then have "sr_registry s = sr_registry (lv_server l)" using linked_sel(3) [OF assms(1)] by simp
  then show ?thesis using linked_sel(1) [OF assms(1)] by simp
qed

section \<open>Progress\<close>

text \<open>
  The PDU in hand drives a 32-bit counter past its end: a Data-Out that of the bytes received or of the R2Ts, an answer
  that of the Data-In PDUs.
\<close>

definition task_overflows :: "live \<Rightarrow> nat \<Rightarrow> bool" where
  "task_overflows l k \<longleftrightarrow>
     (let t = sr_tasks (lv_server l) ! k in
      \<exists>q used. decode (tk_buf t) = Inr (q, used) \<and>
        (case lv_busy l k of
           None \<Rightarrow> data_out_overflows (tk_conn t) q
         | Some ex \<Rightarrow> (\<exists>cmd oc. q = ScsiCommand cmd \<and> ex_program ex = Answer (Inr oc) \<and> answer_overflows (tk_conn t) oc)))"

lemma handle_without_command_ok:
  assumes "registry_inv q" "conn_inv q c" "request_wf req" "command_of c req = None" "\<not> data_out_overflows c req"
    and "reg_targets r = reg_targets q"
  shows "\<exists>p. handle r c req bhs = Inr p"
proof (cases "handle q c req bhs")
  case (Inl e)
  then obtain cmd where cmd: "req = ScsiCommand cmd" "\<not> sc_write cmd" "cn_target c \<noteq> None"
    using handle_panics_lemma [OF assms(1-3) Inl] assms(5) by (auto simp: panics_def run_target_def split: option.splits)
  then have "cn_stage c \<noteq> FullFeature" using assms(4) by (auto simp: command_of_defs)
  then show ?thesis using Inl cmd(1) by (cases "cn_stage c") (simp_all add: handle_def)
next
  case (Inr p)
  then show ?thesis
    using handle_without_command [OF assms(4) _ assms(6), of bhs "fst p" "fst (snd p)" "snd (snd p)"] by auto
qed

lemma command_reply_ok:
  assumes "command_of c req = Some x" "\<And>cmd. req = ScsiCommand cmd \<Longrightarrow> \<not> answer_overflows c oc"
  shows "\<exists>p. command_reply c req oc = Inr p"
proof (cases req)
  case (ScsiCommand cmd)
  let ?c = "c\<lparr>cn_exp_cmd_sn := cn_exp_cmd_sn c + 1\<rparr>"
  have "data_in_chunks ?c cmd (oc_data oc) \<noteq> Inl e" for e
    using data_in_chunks_panics [of ?c cmd "oc_data oc" e] assms(2) [OF ScsiCommand] by (auto simp: answer_overflows_def)
  then have "\<exists>p. data_in_chunks ?c cmd (oc_data oc) = Inr p" by (metis sumE)
  then show ?thesis using ScsiCommand by (simp add: command_reply_defs Let_def)
next
  case (DataOut d)
  then show ?thesis
    using assms(1) by (auto simp: command_of_defs command_reply_defs Let_def split: if_splits option.splits)
qed (use assms(1) in \<open>auto simp: command_of_defs split: if_splits\<close>)

lemma busy_progress:
  assumes link: "linked m l s" and busy: "lv_busy l k = Some ex" and "sr_exit (lv_server l) = None" "\<not> task_overflows l k"
  shows "\<exists>l'. live_step uni cfg m boot wr (Access k) l l' \<or> live_step uni cfg m boot wr (Finish k) l l'"
proof -
  let ?c = "lv_server l" and ?q = "sr_registry s" and ?i = "ex_target ex" and ?t = "sr_tasks (lv_server l) ! k"
  let ?live = "reg_heap (sr_registry ?c) ! ?i"
  have "in_progress l ?q k ex" using link busy by (simp add: linked_def Let_def)
  then obtain cmd bs where p: "?i < length (reg_heap ?q)" "task_command ?t = Some (cmd, bs)" "has_unit ?live (ex_unit ex)"
      "finish_alone ?live (ex_unit ex) (ex_program ex) = execute (reg_heap ?q ! ?i) cmd bs"
    by (auto simp: in_progress_def Let_def)
  have "target_inv (reg_heap ?q ! ?i)"
    using linked_sel(6) [OF link] p(1) by (simp add: server_inv_def world_inv_def server_world_def registry_inv_def list_all_length)
  then obtain t' oc where ok: "finish_alone ?live (ex_unit ex) (ex_program ex) = (t', Inr oc)" using execute_step p(4) by metis
  show ?thesis
  proof (cases "\<exists>x. ex_program ex = Answer x")
    case True
    then have ans: "ex_program ex = Answer (Inr oc)" using ok by (auto simp: finish_alone_def)
    obtain req used where req: "decode (tk_buf ?t) = Inr (req, used)" "command_of (tk_conn ?t) req = Some (cmd, bs)"
      using p(2) by (auto simp: task_command_def split: sum.splits)
    have "\<not> answer_overflows (tk_conn ?t) oc" if "req = ScsiCommand c0" for c0
      using assms(4) req(1) busy ans that by (auto simp: task_overflows_def Let_def)
    then obtain c' outs where "command_reply (tk_conn ?t) req oc = Inr (c', outs)"
      using command_reply_ok [OF req(2)] by (metis surj_pair)
    from live_step.finish [OF refl assms(3) busy ans refl req(1) this] show ?thesis by blast
  next
    case False
    then obtain n where n: "ex_unit ex = Some n" using ok by (cases "ex_unit ex"; cases "ex_program ex") (auto simp: finish_alone_def)
    obtain t1 p1 where "one_section ?live n (ex_program ex) = Some (t1, p1)"
      using False by (cases "ex_program ex") (auto simp: one_section_def Let_def)
    from live_step.access [OF refl assms(3) busy n this] show ?thesis by blast
  qed
qed

lemma idle_progress:
  assumes link: "linked m l s" and free: "lv_busy l k = None" and "sr_exit (lv_server l) = None" "\<not> task_overflows l k"
    and k: "k < length (sr_tasks (lv_server l))" "tk_end (sr_tasks (lv_server l) ! k) = Reading"
    and work: "\<not> between (tk_buf (sr_tasks (lv_server l) ! k))"
  shows "\<exists>l'. live_step uni cfg m boot wr (Idle (Work k)) l l' \<or> live_step uni cfg m boot wr (Begin k) l l'"
proof -
  let ?c = "lv_server l" and ?q = "sr_registry s" and ?t = "sr_tasks (lv_server l) ! k"
  have inv: "registry_inv ?q" "conn_inv ?q (tk_conn ?t)"
    using linked_sel(2,6) [OF link] k(1) by (simp_all add: server_inv_def world_inv_def server_world_def)
  show ?thesis
  proof (cases "task_command ?t")
    case None
    have "\<exists>p. task_work (wr k) (sr_registry ?c) ?t = Inr p"
    proof (cases "decode (tk_buf ?t)")
      case (Inr x)
      then obtain req used where req: "decode (tk_buf ?t) = Inr (req, used)" by (cases x) simp
      then have "command_of (tk_conn ?t) req = None" "\<not> data_out_overflows (tk_conn ?t) req"
        using None assms(4) free by (auto simp: task_command_def task_overflows_def Let_def)
      from handle_without_command_ok [OF inv decode_wf [OF req] this linked_sel(3) [OF link, symmetric]]
      obtain p where "handle (sr_registry ?c) (tk_conn ?t) req (take BHS_LEN (tk_buf ?t)) = Inr p" by blast
      then show ?thesis using req by (cases p) (simp add: task_work_def)
    qed (simp add: task_work_def)
    then obtain r' t' where "task_work (wr k) (sr_registry ?c) ?t = Inr (r', t')" by (metis surj_pair)
    from live_step.idle [OF server_step.work [where wr = wr, OF assms(3) k(1) refl k(2) work this]] None show ?thesis by blast
  next
    case (Some x)
    then obtain cmd bs where cmd: "task_command ?t = Some (cmd, bs)" by (cases x) simp
    then obtain req where "command_of (tk_conn ?t) req = Some (cmd, bs)" by (auto simp: task_command_def split: sum.splits)
    then have "cn_stage (tk_conn ?t) = FullFeature" by (auto simp: command_of_defs split: if_splits)
    then obtain i where "cn_target (tk_conn ?t) = Some i" using inv(2) by (auto simp: conn_inv_def)
    from live_step.start [OF refl assms(3) k(1) refl k(2) free cmd this] show ?thesis by blast
  qed
qed

lemma busy_not_between:
  assumes "linked m l s" "lv_busy l k = Some ex"
  shows "\<not> between (tk_buf (sr_tasks (lv_server l) ! k))"
proof -
  have "in_progress l (sr_registry s) k ex" using assms by (simp add: linked_def Let_def)
  then show ?thesis using busy_decodes by (auto simp: in_progress_def Let_def)
qed

text \<open>No READ is among the commands whose answer is too long.\<close>

lemma reads_do_not_overflow:
  assumes link: "linked m l s" and read: "decode (tk_buf (sr_tasks (lv_server l) ! k)) = Inr (ScsiCommand cmd, used)"
    "is_read_op (sc_cdb cmd ! 0)"
  shows "\<not> task_overflows l k"
proof
  assume over: "task_overflows l k"
  let ?q = "sr_registry s" and ?t = "sr_tasks (lv_server l) ! k"
  obtain ex oc where busy: "lv_busy l k = Some ex" "ex_program ex = Answer (Inr oc)" "answer_overflows (tk_conn ?t) oc"
    using over read(1) by (auto simp: task_overflows_def data_out_overflows_def Let_def split: option.splits)
  have "in_progress l ?q k ex" using link busy(1) by (simp add: linked_def Let_def)
  then obtain cmd' bs i where p: "i < length (reg_heap ?q)" "task_command ?t = Some (cmd', bs)"
      "\<exists>t'. execute (reg_heap ?q ! i) cmd' bs = (t', Inr oc)"
    using busy(2) by (auto simp: in_progress_def Let_def finish_alone_def) metis
  then have "cmd' = cmd" using read(1) by (auto simp: task_command_def command_of_defs split: if_splits)
  moreover have "target_inv (reg_heap ?q ! i)" "sector_blocks (reg_heap ?q ! i)"
    using linked_sel(6) [OF link] p(1)
    by (simp_all add: server_inv_def world_inv_def server_world_def registry_inv_def list_all_length)
  ultimately have "\<not> answer_overflows (tk_conn ?t) oc"
    using p(3) read_answer_fits [of "reg_heap ?q ! i" cmd bs _ oc "max (sp_max_recv (cn_params (tk_conn ?t))) 512"] read(2)
    by (auto simp: answer_overflows_def)
  then show False using busy(3) by simp
qed

lemma live_progress:
  assumes "linked m l s" "sr_exit (lv_server l) = None" "k < length (sr_tasks (lv_server l))"
    and "tk_end (sr_tasks (lv_server l) ! k) = Reading" "\<not> task_overflows l k"
  shows "if between (tk_buf (sr_tasks (lv_server l) ! k))
    then \<forall>bs. bs \<noteq> [] \<longrightarrow> length bs \<le> 8192 \<longrightarrow> (\<exists>l'. live_step uni cfg m boot wr (Idle (Recv k bs)) l l')
    else \<exists>l'. live_step uni cfg m boot wr (Idle (Work k)) l l' \<or> live_step uni cfg m boot wr (Begin k) l l' \<or>
      live_step uni cfg m boot wr (Access k) l l' \<or> live_step uni cfg m boot wr (Finish k) l l'"
proof (cases "between (tk_buf (sr_tasks (lv_server l) ! k))")
  case True
  then show ?thesis
    using live_step.idle [OF server_step.recv [OF assms(2,3) refl assms(4) True]] by (simp only: if_True) blast
next
  case False
  have "\<exists>l'. live_step uni cfg m boot wr (Idle (Work k)) l l' \<or> live_step uni cfg m boot wr (Begin k) l l' \<or>
      live_step uni cfg m boot wr (Access k) l l' \<or> live_step uni cfg m boot wr (Finish k) l l'"
  proof (cases "lv_busy l k")
    case None
    from idle_progress [OF assms(1) None assms(2,5,3,4) False] show ?thesis by blast
  next
    case (Some ex)
    from busy_progress [OF assms(1) Some assms(2,5)] show ?thesis by blast
  qed
  then show ?thesis using False by (simp only: if_False)
qed

section \<open>The converse\<close>

text \<open>Every run of the server is an exclusive run: a command may go through its sections undisturbed.\<close>

lemma exclusive_append:
  "exclusive_run uni cfg m boot wr as l l' \<Longrightarrow> exclusive_run uni cfg m boot wr bs l' l'' \<Longrightarrow>
    exclusive_run uni cfg m boot wr (as @ bs) l l''"
  by (induction rule: exclusive_run.induct) auto

definition solo_state :: "server \<Rightarrow> nat \<Rightarrow> execution \<Rightarrow> live" where
  "solo_state s k ex = \<lparr>lv_server = s, lv_busy = [k \<mapsto> ex]\<rparr>"

lemma apart_solo: "apart (solo_state s k ex)" "apart \<lparr>lv_server = s, lv_busy = Map.empty\<rparr>"
  by (auto simp: apart_def solo_state_def split: if_splits)

lemma section_step:
  assumes "sr_exit s = None" "ex_unit ex = Some n"
    and "one_section (reg_heap (sr_registry s) ! ex_target ex) n (ex_program ex) = Some (t1, p1)"
  shows "live_step uni cfg m boot wr (Access k) (solo_state s k ex)
    (solo_state (with_target s (ex_target ex) t1) k (ex\<lparr>ex_program := p1\<rparr>))"
  using live_step.access [of s "solo_state s k ex" k ex n t1 p1 uni cfg m boot wr] assms by (simp add: solo_state_def)

lemma with_target_again:
  "i < length (reg_heap (sr_registry s)) \<Longrightarrow> reg_heap (sr_registry (with_target s i t)) ! i = t"
  "with_target (with_target s i t) i t' = with_target s i t'"
  "length (reg_heap (sr_registry (with_target s i t))) = length (reg_heap (sr_registry s))" "sr_exit (with_target s i t) = sr_exit s"
  by (simp_all add: with_target_def)

lemma sections_run:
  assumes "sr_exit s = None" "ex_unit ex = Some n" "ex_target ex < length (reg_heap (sr_registry s))"
    and "has_unit (reg_heap (sr_registry s) ! ex_target ex) (Some n)"
    and "finish_alone (reg_heap (sr_registry s) ! ex_target ex) (Some n) (ex_program ex) = (t', oc)"
  shows "\<exists>as. exclusive_run uni cfg m boot wr as (solo_state s k ex)
    (solo_state (with_target s (ex_target ex) t') k (ex\<lparr>ex_program := Answer oc\<rparr>))"
  using assms
proof (induction "ex_program ex" arbitrary: s ex)
  case (Answer x)
  then have t: "t' = reg_heap (sr_registry s) ! ex_target ex" "ex_program ex = Answer oc"
    by (simp_all add: finish_alone_def flip: Answer(1))
  have "with_target s (ex_target ex) t' = s" "ex\<lparr>ex_program := Answer oc\<rparr> = ex"
    by (simp_all add: with_target_def t(1) flip: t(2))
  then show ?case by (intro exI [of _ "[]"]) simp
next
  case (Load blk len f)
  let ?i = "reg_heap (sr_registry s) ! ex_target ex"
  obtain t1 r where sec: "one_section (reg_heap (sr_registry s) ! ex_target ex) n (ex_program ex) = Some (t1, f r)"
    using that [of ?i "ov_read_block (vol_overlay (unit_volume ?i n)) blk len"] by (simp add: one_section_def flip: Load(2))
  let ?s = "with_target s (ex_target ex) t1" and ?ex = "ex\<lparr>ex_program := f r\<rparr>"
  note alone = one_section_alone [OF Load(6) sec]
  have "\<exists>as. exclusive_run uni cfg m boot wr as (solo_state ?s k ?ex)
      (solo_state (with_target ?s (ex_target ?ex) t') k (?ex\<lparr>ex_program := Answer oc\<rparr>))"
    using Load(3-7) alone by (intro Load(1)) (simp_all add: with_target_again)
  then obtain as where "exclusive_run uni cfg m boot wr as (solo_state ?s k ?ex)
      (solo_state (with_target s (ex_target ex) t') k (ex\<lparr>ex_program := Answer oc\<rparr>))" by (auto simp: with_target_again)
  then have "exclusive_run uni cfg m boot wr (Access k # as) (solo_state s k ex)
      (solo_state (with_target s (ex_target ex) t') k (ex\<lparr>ex_program := Answer oc\<rparr>))"
    using section_step [OF Load(3,4) sec] apart_solo(1) by (simp only: exclusive_run_simps) blast
  then show ?case by blast
next
  case (Store blk data p)
  obtain t1 where sec: "one_section (reg_heap (sr_registry s) ! ex_target ex) n (ex_program ex) = Some (t1, p)"
    using that by (simp add: one_section_def Let_def flip: Store(2))
  let ?s = "with_target s (ex_target ex) t1" and ?ex = "ex\<lparr>ex_program := p\<rparr>"
  note alone = one_section_alone [OF Store(6) sec]
  have "\<exists>as. exclusive_run uni cfg m boot wr as (solo_state ?s k ?ex)
      (solo_state (with_target ?s (ex_target ?ex) t') k (?ex\<lparr>ex_program := Answer oc\<rparr>))"
    using Store(3-7) alone by (intro Store(1)) (simp_all add: with_target_again)
  then obtain as where "exclusive_run uni cfg m boot wr as (solo_state ?s k ?ex)
      (solo_state (with_target s (ex_target ex) t') k (ex\<lparr>ex_program := Answer oc\<rparr>))" by (auto simp: with_target_again)
  then have "exclusive_run uni cfg m boot wr (Access k # as) (solo_state s k ex)
      (solo_state (with_target s (ex_target ex) t') k (ex\<lparr>ex_program := Answer oc\<rparr>))"
    using section_step [OF Store(3,4) sec] apart_solo(1) by (simp only: exclusive_run_simps) blast
  then show ?case by blast
qed

definition settled :: "server \<Rightarrow> live" where
  "settled s = \<lparr>lv_server = s, lv_busy = Map.empty\<rparr>"

lemma command_runs:
  assumes "sr_exit s = None" "k < length (sr_tasks s)" "tk_end (sr_tasks s ! k) = Reading" "registry_inv (sr_registry s)"
    and "conn_inv (sr_registry s) (tk_conn (sr_tasks s ! k))" "task_command (sr_tasks s ! k) = Some (cmd, bs)"
    and work: "task_work (wr k) (sr_registry s) (sr_tasks s ! k) = Inr (r', t')"
  shows "\<exists>as. exclusive_run uni cfg m boot wr as (settled s) (settled (s\<lparr>sr_registry := r', sr_tasks := (sr_tasks s)[k := t']\<rparr>))"
proof -
  let ?t = "sr_tasks s ! k" and ?r = "sr_registry s"
  obtain req used where req: "decode (tk_buf ?t) = Inr (req, used)" "command_of (tk_conn ?t) req = Some (cmd, bs)"
    using assms(6) by (auto simp: task_command_def split: sum.splits)
  then obtain c' outs where h: "handle ?r (tk_conn ?t) req (take BHS_LEN (tk_buf ?t)) = Inr (r', c', outs)"
      "t' = task_reply (wr k) ?t used c' outs"
    using work by (auto simp: task_work_def split: sum.splits)
  then obtain oc where oc: "run_target ?r (tk_conn ?t) cmd bs = Inr (r', oc)" "command_reply (tk_conn ?t) req oc = Inr (c', outs)"
    using handle_command_split [OF req(2)] by (auto split: sum.splits)
  then obtain i t1 where i: "cn_target (tk_conn ?t) = Some i" "execute (reg_heap ?r ! i) cmd bs = (t1, Inr oc)"
      "r' = ?r\<lparr>reg_heap := (reg_heap ?r)[i := t1]\<rparr>"
    by (auto simp: run_target_def split: option.splits sum.splits prod.splits)
  have lt: "i < length (reg_heap ?r)" using assms(5) i(1) by (simp add: conn_inv_def)
  let ?ex = "begun ?r i cmd bs" and ?s = "with_target s i t1"
  have ex: "ex_target ?ex = i" "ex_unit ?ex = command_unit (reg_heap ?r ! i) cmd"
    "finish_alone (reg_heap ?r ! i) (ex_unit ?ex) (ex_program ?ex) = (t1, Inr oc)"
    using i(2) execute_alone [of "reg_heap ?r ! i" cmd bs] by (simp_all add: begun_def)
  have start: "live_step uni cfg m boot wr (Begin k) (settled s) (solo_state s k ?ex)"
    using live_step.start [of s "settled s" k ?t cmd bs i uni cfg m boot wr] assms(1-3,6) i(1)
    by (simp add: settled_def solo_state_def)
  have "\<exists>as. exclusive_run uni cfg m boot wr as (solo_state s k ?ex) (solo_state ?s k (?ex\<lparr>ex_program := Answer (Inr oc)\<rparr>))"
  proof (cases "ex_unit ?ex")
    case None
    then have "execute_sections (reg_heap ?r ! i) cmd bs = Answer (Inr oc)" "t1 = reg_heap ?r ! i"
      using ex(2,3) by (simp_all add: command_unit_def execute_sections_def begun_def finish_alone_def)
    then have "?s = s" "?ex\<lparr>ex_program := Answer (Inr oc)\<rparr> = ?ex" by (simp_all add: with_target_def begun_def)
    then show ?thesis by (intro exI [of _ "[]"]) simp
  next
    case (Some n)
    then show ?thesis
      using sections_run [of s ?ex n t1 "Inr oc" uni cfg m boot wr k] assms(1) lt ex has_unit_command [of "reg_heap ?r ! i" cmd]
      by simp
  qed
  then obtain as where run: "exclusive_run uni cfg m boot wr as (solo_state s k ?ex)
      (solo_state ?s k (?ex\<lparr>ex_program := Answer (Inr oc)\<rparr>))" by blast
  let ?last = "settled (s\<lparr>sr_registry := r', sr_tasks := (sr_tasks s)[k := t']\<rparr>)"
  have "live_step uni cfg m boot wr (Finish k) (solo_state ?s k (?ex\<lparr>ex_program := Answer (Inr oc)\<rparr>)) ?last"
    using live_step.finish [of ?s "solo_state ?s k (?ex\<lparr>ex_program := Answer (Inr oc)\<rparr>)" k _ oc ?t req used c' outs uni cfg m boot wr]
      assms(1) req(1) oc(2) h(2) i(3)
    by (simp add: solo_state_def settled_def with_target_def)
  then have "exclusive_run uni cfg m boot wr [Finish k] (solo_state ?s k (?ex\<lparr>ex_program := Answer (Inr oc)\<rparr>)) ?last"
    using apart_solo(2) by (simp add: settled_def)
  from exclusive_append [OF run this] start apart_solo(1)
  have "exclusive_run uni cfg m boot wr (Begin k # as @ [Finish k]) (settled s) ?last" by auto
  then show ?thesis by blast
qed

lemma server_step_live:
  assumes "server_step uni cfg m boot wr a s s'" "server_inv m s"
  shows "\<exists>as. exclusive_run uni cfg m boot wr as (settled s) (settled s')"
proof (cases "\<exists>k x. a = Work k \<and> task_command (sr_tasks s ! k) = Some x")
  case True
  then obtain k cmd bs where k: "a = Work k" "task_command (sr_tasks s ! k) = Some (cmd, bs)" by auto
  from assms(1) show ?thesis
  proof cases
    case (work j t r' t')
    have "registry_inv (sr_registry s)" "conn_inv (sr_registry s) (tk_conn (sr_tasks s ! k))"
      using assms(2) work k(1) by (simp_all add: server_inv_def world_inv_def server_world_def)
    then show ?thesis using command_runs [of s k cmd bs wr r' t' uni cfg m boot] work k by simp
  qed (use k in simp_all)
next
  case False
  have "task_command (sr_tasks s ! k) = None" if "a = Work k" for k
    using False that by (cases "task_command (sr_tasks s ! k)") blast+
  then have "live_step uni cfg m boot wr (Idle a) (settled s) (settled s\<lparr>lv_server := s'\<rparr>)"
    using assms(1) by (intro live_step.idle) (simp_all add: settled_def)
  then have "live_step uni cfg m boot wr (Idle a) (settled s) (settled s')" by (simp add: settled_def)
  then have "exclusive_run uni cfg m boot wr [Idle a] (settled s) (settled s')" using apart_solo(2) by (simp add: settled_def)
  then show ?thesis by blast
qed

lemma server_run_live:
  assumes "server_run uni cfg m boot wr as s s'" "server_inv m s" "images_ok m"
  shows "\<exists>bs. exclusive_run uni cfg m boot wr bs (settled s) (settled s')"
  using assms(1,2)
proof (induction as arbitrary: s)
  case Nil
  then show ?case by (intro exI [of _ "[]"]) simp
next
  case (Cons a as)
  then obtain s1 where s1: "server_step uni cfg m boot wr a s s1" "server_run uni cfg m boot wr as s1 s'" by auto
  from server_step_live [OF s1(1) Cons.prems(2)] Cons.IH [OF s1(2) server_step_inv [OF s1(1) Cons.prems(2) assms(3)]]
  show ?case using exclusive_append by blast
qed

end
