(* ===== verification/Cache.thy ===== *)
theory Cache
  imports Volume
begin

text \<open>
  The shared RAM block cache (\<open>cache/mod.rs\<close>): \<open>CachedStore\<close> decorates a backing store with an
  LRU cache of master blocks under a byte budget. The crate \<open>lru\<close> is not part of the
  repository: its operations are the record \<open>lru_ops\<close>, an argument of every definition, and
  the locale \<open>lru_map\<close> states what its documentation says they do, through the view of a cache as the
  list of its entries, most recently used first. Counters are \<open>AtomicU64\<close>, which wrap.
\<close>

section \<open>The LRU map of the crate\<close>

record 'c lru_ops =
  lru_empty :: 'c
  lru_get :: "nat \<Rightarrow> 'c \<Rightarrow> bytes option \<times> 'c"
  lru_put :: "nat \<Rightarrow> bytes \<Rightarrow> 'c \<Rightarrow> bytes option \<times> 'c"
  lru_pop :: "'c \<Rightarrow> (nat \<times> bytes) option \<times> 'c"
  lru_len :: "'c \<Rightarrow> nat"

definition without :: "nat \<Rightarrow> (nat \<times> bytes) list \<Rightarrow> (nat \<times> bytes) list" where
  "without k es = filter (\<lambda>e. fst e \<noteq> k) es"

locale lru_map =
  fixes ops :: "'c lru_ops" and view :: "'c \<Rightarrow> (nat \<times> bytes) list"
  assumes view_empty: "view (lru_empty ops) = []"
    and get_found: "fst (lru_get ops k c) = map_of (view c) k"
    and get_view: "view (snd (lru_get ops k c)) =
        (case map_of (view c) k of None \<Rightarrow> view c | Some d \<Rightarrow> (k, d) # without k (view c))"
    and put_old: "fst (lru_put ops k d c) = map_of (view c) k"
    and put_view: "view (snd (lru_put ops k d c)) = (k, d) # without k (view c)"
    and pop_entry: "fst (lru_pop ops c) = (if view c = [] then None else Some (last (view c)))"
    and pop_view: "view (snd (lru_pop ops c)) = butlast (view c)"
    and len_view: "lru_len ops c = length (view c)"

text \<open>The reference instance: the entries themselves.\<close>

definition list_lru :: "(nat \<times> bytes) list lru_ops" where
  "list_lru =
     \<lparr>lru_empty = [],
      lru_get = (\<lambda>k c. case map_of c k of None \<Rightarrow> (None, c) | Some d \<Rightarrow> (Some d, (k, d) # without k c)),
      lru_put = (\<lambda>k d c. (map_of c k, (k, d) # without k c)),
      lru_pop = (\<lambda>c. if c = [] then (None, []) else (Some (last c), butlast c)),
      lru_len = length\<rparr>"

section \<open>\<open>LruState\<close>\<close>

record 'c lru_state =
  ls_cache :: 'c
  ls_bytes :: nat

text \<open>
  The eviction loop. \<open>fuel\<close> bounds the iterations; \<open>insert_block\<close> starts it with one more
  than the number of entries. A subtraction below zero panics.
\<close>

primrec evict :: "'c lru_ops \<Rightarrow> nat \<Rightarrow> nat \<Rightarrow> 'c lru_state \<Rightarrow> 'c lru_state io" where
  "evict ops 0 budget st = Inl Diverged"
| "evict ops (Suc fuel) budget st =
     (if ls_bytes st \<le> budget then Inr st
      else case lru_pop ops (ls_cache st) of
        (None, c) \<Rightarrow> Inr (st\<lparr>ls_cache := c\<rparr>)
      | (Some (k, v), c) \<Rightarrow>
          if ls_bytes st < length v then Inl Panicked
          else evict ops fuel budget (st\<lparr>ls_cache := c, ls_bytes := ls_bytes st - length v\<rparr>))"

definition insert_block :: "'c lru_ops \<Rightarrow> nat \<Rightarrow> bytes \<Rightarrow> nat \<Rightarrow> 'c lru_state \<Rightarrow> 'c lru_state io" where
  "insert_block ops blk data budget st =
     (let added = length data;
          (old, c) = lru_put ops blk data (ls_cache st);
          removed = (case old of None \<Rightarrow> 0 | Some d \<Rightarrow> length d) in
      if ls_bytes st < removed then Inl Panicked
      else if u64_lim \<le> ls_bytes st - removed + added then Inl Panicked
      else evict ops (Suc (lru_len ops c)) budget
             (st\<lparr>ls_cache := c, ls_bytes := ls_bytes st - removed + added\<rparr>))"

section \<open>\<open>CachedStore\<close>\<close>

record 'c cached_store =
  cs_inner :: backing
  cs_budget :: nat
  cs_state :: "'c lru_state"
  cs_hits :: nat
  cs_misses :: nat

record cache_stats =
  st_hits :: nat
  st_misses :: nat
  st_blocks :: nat
  st_bytes :: nat

definition cached_new :: "'c lru_ops \<Rightarrow> backing \<Rightarrow> nat \<Rightarrow> 'c cached_store" where
  "cached_new ops inner budget =
     \<lparr>cs_inner = inner, cs_budget = budget,
      cs_state = \<lparr>ls_cache = lru_empty ops, ls_bytes = 0\<rparr>, cs_hits = 0, cs_misses = 0\<rparr>"

definition cached_stats :: "'c lru_ops \<Rightarrow> 'c cached_store \<Rightarrow> cache_stats" where
  "cached_stats ops s =
     \<lparr>st_hits = cs_hits s, st_misses = cs_misses s,
      st_blocks = lru_len ops (ls_cache (cs_state s)), st_bytes = ls_bytes (cs_state s)\<rparr>"

definition cached_size :: "'c cached_store \<Rightarrow> nat" where
  "cached_size s = bs_size (cs_inner s)"

definition wrapping_inc :: "nat \<Rightarrow> nat" where
  "wrapping_inc n = (n + 1) mod u64_lim"

text \<open>One iteration of \<open>read_at\<close>: serve \<open>take_n\<close> bytes of block \<open>blk\<close> from the cache, or read
  and cache the whole block.\<close>

definition cached_chunk ::
  "'c lru_ops \<Rightarrow> 'c cached_store \<Rightarrow> nat \<Rightarrow> nat \<Rightarrow> nat \<Rightarrow> nat \<Rightarrow> 'c cached_store \<times> bytes io" where
  "cached_chunk ops s blk blen within take_n =
     (let (found, c) = lru_get ops blk (ls_cache (cs_state s));
          s1 = s\<lparr>cs_state := (cs_state s)\<lparr>ls_cache := c\<rparr>\<rparr> in
      case found of
        Some block \<Rightarrow>
          if length block < within + take_n then (s1, Inl Panicked)
          else (s1\<lparr>cs_hits := wrapping_inc (cs_hits s1)\<rparr>, Inr (window within take_n block))
      | None \<Rightarrow>
          let s2 = s1\<lparr>cs_misses := wrapping_inc (cs_misses s1)\<rparr> in
          case bs_read (cs_inner s2) (blk * BLOCK) blen of
            Inl e \<Rightarrow> (s2, Inl e)
          | Inr full \<Rightarrow>
              if blen \<le> cs_budget s2 then
                (case insert_block ops blk full (cs_budget s2) (cs_state s2) of
                   Inl e \<Rightarrow> (s2, Inl e)
                 | Inr st \<Rightarrow> (s2\<lparr>cs_state := st\<rparr>, Inr (window within take_n full)))
              else (s2, Inr (window within take_n full)))"

text \<open>
  The loop has no bounds check of its own. \<open>fuel\<close> bounds the iterations, and running out of
  it is \<open>Diverged\<close>: \<open>cached_reads_exact_or_stuck\<close> shows how much is enough, and that past the end no
  fuel is.
\<close>

primrec cached_read_loop ::
  "'c lru_ops \<Rightarrow> nat \<Rightarrow> 'c cached_store \<Rightarrow> nat \<Rightarrow> nat \<Rightarrow> 'c cached_store \<times> bytes io" where
  "cached_read_loop ops 0 s pos remaining =
     (if remaining = 0 then (s, Inr []) else (s, Inl Diverged))"
| "cached_read_loop ops (Suc fuel) s pos remaining =
     (if remaining = 0 then (s, Inr [])
      else
        let blk = pos div BLOCK; within = pos mod BLOCK in
        if cached_size s < blk * BLOCK then (s, Inl Panicked)
        else
          let blen = min BLOCK (cached_size s - blk * BLOCK) in
          if blen < within then (s, Inl Panicked)
          else
            let take_n = min (blen - within) remaining in
            case cached_chunk ops s blk blen within take_n of
              (s', Inl e) \<Rightarrow> (s', Inl e)
            | (s', Inr chunk) \<Rightarrow>
                (case cached_read_loop ops fuel s' (pos + take_n) (remaining - take_n) of
                   (s'', Inl e) \<Rightarrow> (s'', Inl e)
                 | (s'', Inr rest) \<Rightarrow> (s'', Inr (chunk @ rest))))"

definition cached_read_at ::
  "'c lru_ops \<Rightarrow> nat \<Rightarrow> 'c cached_store \<Rightarrow> nat \<Rightarrow> nat \<Rightarrow> 'c cached_store \<times> bytes io" where
  "cached_read_at ops fuel s offset len = cached_read_loop ops fuel s offset len"

section \<open>Accounting and eviction\<close>

definition entry_bytes :: "(nat \<times> bytes) list \<Rightarrow> nat" where
  "entry_bytes es = sum_list (map (\<lambda>e. length (snd e)) es)"

lemma entry_bytes_simps [simp]:
  "entry_bytes [] = 0" "entry_bytes (e # es) = length (snd e) + entry_bytes es"
  "entry_bytes (xs @ ys) = entry_bytes xs + entry_bytes ys"
  by (simp_all add: entry_bytes_def)

lemma set_without [simp]: "set (without k es) = {e \<in> set es. fst e \<noteq> k}"
  by (auto simp: without_def)

lemma distinct_without: "distinct (map fst es) \<Longrightarrow> distinct (map fst ((k, d) # without k es))"
  by (auto simp: without_def distinct_map_filter)

lemma without_absent: "map_of es k = None \<Longrightarrow> without k es = es"
  by (induction es) (auto simp: without_def split: if_splits)

lemma entry_bytes_without:
  "distinct (map fst es) \<Longrightarrow>
    entry_bytes es = entry_bytes (without k es) + (case map_of es k of None \<Rightarrow> 0 | Some d \<Rightarrow> length d)"
proof (induction es)
  case (Cons e es)
  then show ?case
    by (cases "fst e = k")
      (auto simp: without_def map_of_eq_None_iff filter_id_conv rev_image_eqI split: option.splits)
qed (simp add: without_def)

text \<open>The accounting invariant of \<open>LruState\<close>.\<close>

definition lru_inv :: "('c \<Rightarrow> (nat \<times> bytes) list) \<Rightarrow> 'c lru_state \<Rightarrow> bool" where
  "lru_inv view st \<longleftrightarrow>
     distinct (map fst (view (ls_cache st))) \<and> ls_bytes st = entry_bytes (view (ls_cache st))"

text \<open>
  Eviction drops least recently used entries only, and no more than the budget asks: what is
  left is the longest prefix of the entries that fits.
\<close>

context lru_map
begin

lemma evict_prefix:
  assumes "lru_inv view st" and "length (view (ls_cache st)) < fuel"
  shows "\<exists>st' n. evict ops fuel budget st = Inr st' \<and> lru_inv view st' \<and>
    view (ls_cache st') = take n (view (ls_cache st)) \<and> n \<le> length (view (ls_cache st)) \<and>
    ls_bytes st' \<le> budget \<and>
    (n < length (view (ls_cache st)) \<longrightarrow> budget < entry_bytes (take (Suc n) (view (ls_cache st))))"
  using assms
proof (induction fuel arbitrary: st)
  case (Suc fuel)
  let ?V = "view (ls_cache st)"
  show ?case
  proof (cases "ls_bytes st \<le> budget")
    case True
    with Suc.prems show ?thesis by (intro exI [of _ st] exI [of _ "length ?V"]) auto
  next
    case False
    then have ne: "?V \<noteq> []" using Suc.prems by (auto simp: lru_inv_def)
    then obtain es k d where V: "?V = es @ [(k, d)]" by (metis rev_exhaust surj_pair)
    obtain c where pop: "lru_pop ops (ls_cache st) = (Some (k, d), c)" and vc: "view c = es"
      using V pop_entry [of "ls_cache st"] pop_view [of "ls_cache st"] by (metis butlast_snoc last_snoc ne prod.collapse)
    define st1 where "st1 = st\<lparr>ls_cache := c, ls_bytes := ls_bytes st - length d\<rparr>"
    have v1: "view (ls_cache st1) = es" using vc by (simp add: st1_def)
    have inv1: "lru_inv view st1" using Suc.prems(1) V v1 by (auto simp: lru_inv_def st1_def)
    obtain st' n where st': "evict ops fuel budget st1 = Inr st'" "lru_inv view st'"
      "view (ls_cache st') = take n es" "n \<le> length es" "ls_bytes st' \<le> budget"
      "n < length es \<longrightarrow> budget < entry_bytes (take (Suc n) es)"
      using Suc.IH [OF inv1] Suc.prems(2) v1 V by auto
    have big: "\<not> ls_bytes st < length d" using Suc.prems(1) V by (simp add: lru_inv_def)
    have "evict ops (Suc fuel) budget st = Inr st'"
      using False big st'(1) unfolding st1_def by (simp add: pop)
    moreover have "budget < entry_bytes (take (Suc n) ?V)"
    proof (cases "n = length es")
      case True
      with False V Suc.prems(1) show ?thesis by (simp add: lru_inv_def)
    next
      case False
      with st'(4,6) V show ?thesis by simp
    qed
    moreover have "view (ls_cache st') = take n ?V" "n \<le> length ?V" using st'(3,4) V by simp_all
    ultimately show ?thesis using st'(2,5) by blast
  qed
qed simp

lemma insert_block_evicts:
  fixes blk :: nat
  assumes inv: "lru_inv view st"
    and fit: "length data \<le> budget" "ls_bytes st \<le> budget" "budget + length data < u64_lim"
  defines "V \<equiv> (blk, data) # without blk (view (ls_cache st))"
  obtains st' n where "insert_block ops blk data budget st = Inr st'" "lru_inv view st'"
    "view (ls_cache st') = take (Suc n) V" "ls_bytes st' \<le> budget"
    "Suc n < length V \<longrightarrow> budget < entry_bytes (take (Suc (Suc n)) V)"
proof -
  obtain old c where put: "lru_put ops blk data (ls_cache st) = (old, c)" by fastforce
  have old: "old = map_of (view (ls_cache st)) blk" and c: "view c = V"
    using put put_old [of blk data "ls_cache st"] put_view [of blk data "ls_cache st"] by (simp_all add: V_def)
  define removed where "removed = (case old of None \<Rightarrow> 0 | Some d \<Rightarrow> length d)"
  define st1 where "st1 = st\<lparr>ls_cache := c, ls_bytes := ls_bytes st - removed + length data\<rparr>"
  have acc: "ls_bytes st = entry_bytes (without blk (view (ls_cache st))) + removed"
    using inv entry_bytes_without [of "view (ls_cache st)" blk]
    by (simp add: lru_inv_def removed_def old)
  have rest: "entry_bytes (view (ls_cache st)) - removed = entry_bytes (without blk (view (ls_cache st)))"
    using acc inv unfolding lru_inv_def by linarith
  have inv1: "lru_inv view st1"
    using inv c distinct_without [of "view (ls_cache st)" blk data]
    by (simp add: lru_inv_def st1_def V_def rest)
  have fuel: "length (view (ls_cache st1)) < Suc (lru_len ops c)"
    using c by (simp add: len_view st1_def)
  obtain st' n where e: "evict ops (Suc (lru_len ops c)) budget st1 = Inr st'" "lru_inv view st'"
    "view (ls_cache st') = take n V" "n \<le> length V" "ls_bytes st' \<le> budget"
    "n < length V \<longrightarrow> budget < entry_bytes (take (Suc n) V)"
    using evict_prefix [OF inv1 fuel, of budget] c by (auto simp: st1_def)
  have "n \<noteq> 0"
  proof
    assume "n = 0"
    with e(6) fit(1) show False by (simp add: V_def)
  qed
  then obtain m where m: "n = Suc m" by (cases n) auto
  have "insert_block ops blk data budget st = Inr st'"
    using put acc fit e(1) by (simp add: insert_block_def removed_def st1_def Let_def del: evict.simps)
  with e m show ?thesis using that by blast
qed

text \<open>A lookup only reorders the entries.\<close>

lemma lru_get_inv:
  assumes "lru_get ops k (ls_cache st) = (found, c)" "lru_inv view st"
  shows "found = map_of (view (ls_cache st)) k" "lru_inv view (st\<lparr>ls_cache := c\<rparr>)" "set (view c) \<subseteq> set (view (ls_cache st))"
proof -
  let ?V = "view (ls_cache st)"
  show "found = map_of ?V k" using assms(1) get_found [of k "ls_cache st"] by simp
  have c: "view c = (case map_of ?V k of None \<Rightarrow> ?V | Some d \<Rightarrow> (k, d) # without k ?V)"
    using assms(1) get_view [of k "ls_cache st"] by simp
  show "lru_inv view (st\<lparr>ls_cache := c\<rparr>)"
    using assms(2) entry_bytes_without [of ?V k] distinct_without [of ?V k]
    by (auto simp: c lru_inv_def split: option.splits)
  show "set (view c) \<subseteq> set ?V" by (auto simp: c dest: map_of_SomeD split: option.splits)
qed

end

section \<open>Reads through the cache\<close>

text \<open>Every cached block is the block of the master, and the budget holds.\<close>

definition cache_inv :: "('c \<Rightarrow> (nat \<times> bytes) list) \<Rightarrow> 'c cached_store \<Rightarrow> bool" where
  "cache_inv view s \<longleftrightarrow>
     serves (cs_inner s) \<and> cached_size s < u64_lim \<and> cs_budget s + BLOCK < u64_lim \<and>
     lru_inv view (cs_state s) \<and> ls_bytes (cs_state s) \<le> cs_budget s \<and>
     (\<forall>(k, d) \<in> set (view (ls_cache (cs_state s))).
        d = window (k * BLOCK) (min BLOCK (cached_size s - k * BLOCK)) (disk_bytes (cs_inner s)))"

lemma block_take_le:
  fixes w b c r :: nat
  assumes "w \<le> c" and "w \<le> b"
  shows "\<not> min b c < w" "w + min (min b c - w) r \<le> min b c" "min (min b c - w) r \<le> r"
  using assms by auto

context lru_map
begin

lemma cache_inv_new:
  "serves m \<Longrightarrow> bs_size m < u64_lim \<Longrightarrow> budget + BLOCK < u64_lim \<Longrightarrow>
    cache_inv view (cached_new ops m budget)"
  by (simp add: cache_inv_def cached_new_def lru_inv_def view_empty cached_size_def)

text \<open>A block of the master that fits the budget can be inserted.\<close>

lemma insert_keeps:
  assumes inv: "cache_inv view s" and pos: "blk * BLOCK \<le> cached_size s"
    and blen: "blen = min BLOCK (cached_size s - blk * BLOCK)" "blen \<le> cs_budget s"
    and full: "full = window (blk * BLOCK) blen (disk_bytes (cs_inner s))"
  shows "\<exists>st'. insert_block ops blk full (cs_budget s) (cs_state s) = Inr st' \<and> cache_inv view (s\<lparr>cs_state := st'\<rparr>)"
proof -
  have "length full = blen"
    using inv dyn.content_length [of "cs_inner s"] blen(1) pos by (simp add: full cache_inv_def cached_size_def)
  then have fit: "length full \<le> cs_budget s" "ls_bytes (cs_state s) \<le> cs_budget s"
    "cs_budget s + length full < u64_lim" "lru_inv view (cs_state s)"
    using inv blen by (auto simp: cache_inv_def)
  obtain st' m where ins: "insert_block ops blk full (cs_budget s) (cs_state s) = Inr st'"
    "lru_inv view st'" "view (ls_cache st') = take (Suc m) ((blk, full) # without blk (view (ls_cache (cs_state s))))"
    "ls_bytes st' \<le> cs_budget s"
    using insert_block_evicts [OF fit(4) fit(1-3)] by blast
  have "e = (blk, full) \<or> e \<in> set (view (ls_cache (cs_state s)))" if "e \<in> set (view (ls_cache st'))" for e
    using that in_set_takeD [of e m "without blk (view (ls_cache (cs_state s)))"] by (auto simp: ins(3))
  then have "cache_inv view (s\<lparr>cs_state := st'\<rparr>)"
    using inv ins blen by (fastforce simp: cache_inv_def cached_size_def full)
  then show ?thesis using ins(1) by blast
qed

lemma cached_chunk_ok:
  assumes inv: "cache_inv view s"
    and pos: "blk * BLOCK \<le> cached_size s" and "within + n \<le> blen"
    and blen: "blen = min BLOCK (cached_size s - blk * BLOCK)"
  obtains s' where "cached_chunk ops s blk blen within n
      = (s', Inr (window (blk * BLOCK + within) n (disk_bytes (cs_inner s))))"
    "cache_inv view s'" "cs_inner s' = cs_inner s" "cs_budget s' = cs_budget s"
proof -
  let ?D = "disk_bytes (cs_inner s)" and ?V = "view (ls_cache (cs_state s))"
  define full where "full = window (blk * BLOCK) blen ?D"
  have D: "length ?D = cached_size s"
    using inv dyn.content_length [of "cs_inner s"] by (simp add: cache_inv_def cached_size_def)
  have len: "length full = blen" using D blen pos by (simp add: full_def)
  have chunk: "window within n full = window (blk * BLOCK + within) n ?D"
    using assms(3) by (simp add: full_def window_window)
  obtain found c where get: "lru_get ops blk (ls_cache (cs_state s)) = (found, c)" by fastforce
  have st: "lru_inv view (cs_state s)" using inv by (simp add: cache_inv_def)
  note found = lru_get_inv(1) [OF get st]
  define s1 where "s1 = s\<lparr>cs_state := (cs_state s)\<lparr>ls_cache := c\<rparr>\<rparr>"
  have inv1: "cache_inv view s1"
    using inv lru_get_inv(2,3) [OF get st] by (auto simp: cache_inv_def s1_def cached_size_def)
  show ?thesis
  proof (cases found)
    case (Some d)
    then have "d = full"
      using inv found map_of_SomeD [of ?V blk d] blen by (auto simp: cache_inv_def full_def)
    with Some get len chunk assms(3) inv1 that [of "s1\<lparr>cs_hits := wrapping_inc (cs_hits s1)\<rparr>"]
    show ?thesis
      by (simp add: cached_chunk_def Let_def s1_def cache_inv_def cached_size_def)
  next
    case None
    define s2 where "s2 = s1\<lparr>cs_misses := wrapping_inc (cs_misses s1)\<rparr>"
    have inv2: "cache_inv view s2" using inv1 by (simp add: s2_def cache_inv_def cached_size_def)
    have rd: "bs_read (cs_inner s) (blk * BLOCK) blen = Inr full"
      using inv dyn.read_in_range [of "cs_inner s" "blk * BLOCK" blen] blen pos
      by (simp add: cache_inv_def cached_size_def full_def)
    show ?thesis
    proof (cases "blen \<le> cs_budget s")
      case False
      with None get rd chunk inv2 that [of s2] show ?thesis
        by (simp add: cached_chunk_def Let_def s1_def s2_def)
    next
      case True
      obtain st' where ins: "insert_block ops blk full (cs_budget s2) (cs_state s2) = Inr st'" "cache_inv view (s2\<lparr>cs_state := st'\<rparr>)"
        using insert_keeps [OF inv2, of blk blen full] True pos blen
        by (auto simp: s1_def s2_def cached_size_def full_def)
      with True None get rd chunk ins that [of "s2\<lparr>cs_state := st'\<rparr>"] show ?thesis
        by (simp add: cached_chunk_def Let_def s1_def s2_def)
    qed
  qed
qed

lemma cached_read_loop_ok:
  assumes "cache_inv view s"
    and "pos + remaining \<le> cached_size s" and "remaining \<le> fuel"
  shows "\<exists>s'. cached_read_loop ops fuel s pos remaining
      = (s', Inr (window pos remaining (disk_bytes (cs_inner s)))) \<and>
    cache_inv view s' \<and> cs_inner s' = cs_inner s \<and> cs_budget s' = cs_budget s"
  using assms
proof (induction fuel arbitrary: s pos remaining)
  case (Suc fuel)
  show ?case
  proof (cases "remaining = 0")
    case False
    define blen where "blen = min BLOCK (cached_size s - pos div BLOCK * BLOCK)"
    define n where "n = min (blen - pos mod BLOCK) remaining"
    have e: "pos div BLOCK * BLOCK + pos mod BLOCK = pos" by simp
    have lt: "pos mod BLOCK < cached_size s - pos div BLOCK * BLOCK" "pos mod BLOCK < BLOCK"
      using e False Suc.prems by (linarith, simp)
    have t: "0 < n" "n \<le> remaining" "\<not> blen < pos mod BLOCK" "pos mod BLOCK + n \<le> blen"
      using block_take_le [of "pos mod BLOCK" "cached_size s - pos div BLOCK * BLOCK" BLOCK]
        lt False unfolding n_def blen_def by (simp, simp, auto)
    have le: "pos div BLOCK * BLOCK \<le> cached_size s" using e False Suc.prems by linarith
    obtain s1 where s1: "cached_chunk ops s (pos div BLOCK) blen (pos mod BLOCK) n
        = (s1, Inr (window pos n (disk_bytes (cs_inner s))))"
      "cache_inv view s1" "cs_inner s1 = cs_inner s" "cs_budget s1 = cs_budget s"
      using cached_chunk_ok [OF Suc.prems(1) le t(4) blen_def] by (auto simp: e)
    obtain s2 where s2: "cached_read_loop ops fuel s1 (pos + n) (remaining - n)
        = (s2, Inr (window (pos + n) (remaining - n) (disk_bytes (cs_inner s))))"
      "cache_inv view s2" "cs_inner s2 = cs_inner s" "cs_budget s2 = cs_budget s"
    proof -
      have "pos + n + (remaining - n) \<le> cached_size s1" "remaining - n \<le> fuel"
        using Suc.prems t s1(3) by (simp add: cached_size_def, linarith)
      then show ?thesis using Suc.IH [OF s1(2)] s1(3,4) that by metis
    qed
    show ?thesis
      using False t le s1(1) s2 window_split_le [OF t(2), of pos "disk_bytes (cs_inner s)"]
      by (simp add: blen_def [symmetric] n_def [symmetric] Let_def)
  qed (use Suc.prems in simp)
qed simp

lemma cached_read_loop_stuck:
  assumes "cache_inv view s"
    and "pos \<le> cached_size s" and "cached_size s < pos + remaining"
  shows "\<exists>s'. cached_read_loop ops fuel s pos remaining = (s', Inl Diverged)"
  using assms
proof (induction fuel arbitrary: s pos remaining)
  case (Suc fuel)
  define blen where "blen = min BLOCK (cached_size s - pos div BLOCK * BLOCK)"
  define n where "n = min (blen - pos mod BLOCK) remaining"
  have e: "pos div BLOCK * BLOCK + pos mod BLOCK = pos" by simp
  have le: "pos div BLOCK * BLOCK \<le> cached_size s" using e Suc.prems by linarith
  have lt: "pos mod BLOCK \<le> cached_size s - pos div BLOCK * BLOCK" "pos mod BLOCK < BLOCK"
    using e Suc.prems by (linarith, simp)
  have t: "\<not> blen < pos mod BLOCK" "pos mod BLOCK + n \<le> blen" "n \<le> remaining"
    using lt unfolding n_def blen_def by - (rule block_take_le; simp)+
  have "pos + n \<le> cached_size s" using t(2) le e unfolding blen_def by linarith
  obtain s1 where s1: "cached_chunk ops s (pos div BLOCK) blen (pos mod BLOCK) n
      = (s1, Inr (window pos n (disk_bytes (cs_inner s))))"
    "cache_inv view s1" "cs_inner s1 = cs_inner s"
    using cached_chunk_ok [OF Suc.prems(1) le t(2) blen_def] by (auto simp: e)
  obtain s2 where "cached_read_loop ops fuel s1 (pos + n) (remaining - n) = (s2, Inl Diverged)"
    using Suc.IH [OF s1(2), of "pos + n" "remaining - n"] \<open>pos + n \<le> _\<close> Suc.prems t s1(3)
    by (auto simp: cached_size_def)
  with Suc.prems t le s1(1) show ?case
    by (simp add: blen_def [symmetric] n_def [symmetric] Let_def)
qed simp

end

interpretation list_map: lru_map list_lru "\<lambda>c. c"
  by unfold_locales (auto simp: list_lru_def split: option.splits)

end
