(* ===== verification/Volume_Ops.thy ===== *)
theory Volume_Ops
  imports Volume
begin

text \<open>
  Sequences and interleavings of volume operations. The first section runs a list of reads, writes
  and resets against a volume and against a flat byte array. The second lets several writers work
  on one volume at once, as connections bound to one target do: \<open>write_at\<close> takes no lock for
  the whole call, only the overlay's lock for one block at a time, so a read-modify-write is two
  steps of its writer, with other writers' steps between them.
\<close>

section \<open>Traces of operations\<close>

datatype disk_op = ReadAt nat nat | WriteAt nat bytes | ResetDisk

primrec vol_apply :: "disk_op \<Rightarrow> volume \<Rightarrow> volume \<times> bytes io" where
  "vol_apply (ReadAt off n) v = (v, vol_read_at v off n)"
| "vol_apply (WriteAt off buf) v = map_prod id (map_sum id (\<lambda>_. [])) (vol_write_at v off buf)"
| "vol_apply ResetDisk v = (vol_reset v, Inr [])"

text \<open>The same operations on an array that started as \<open>img\<close>.\<close>

primrec array_apply :: "bytes \<Rightarrow> disk_op \<Rightarrow> bytes \<Rightarrow> bytes \<times> bytes io" where
  "array_apply img (ReadAt off n) a =
     (a, if off + n \<le> length a then Inr (window off n a) else Inl InvalidData)"
| "array_apply img (WriteAt off buf) a =
     (if off + length buf \<le> length a then (put off buf a, Inr []) else (a, Inl InvalidData))"
| "array_apply img ResetDisk a = (img, Inr [])"

primrec trace :: "('op \<Rightarrow> 's \<Rightarrow> 's \<times> 'r) \<Rightarrow> 'op list \<Rightarrow> 's \<Rightarrow> 's \<times> 'r list" where
  "trace step [] s = (s, [])"
| "trace step (x # xs) s = (let (s', r) = step x s; (s'', rs) = trace step xs s' in (s'', r # rs))"

lemma vol_apply_array:
  assumes "vol_inv v"
  shows "\<exists>v' r. vol_apply x v = (v', r) \<and> vol_inv v' \<and> vol_master v' = vol_master v \<and>
    array_apply (disk_bytes (vol_master v)) x (vol_bytes v) = (vol_bytes v', r)"
proof (cases x)
  case (ReadAt off n)
  then show ?thesis
    using assms by (cases "off + n \<le> vol_size v") (simp_all add: vol_read_at_ok vol_read_at_err)
next
  case (WriteAt off buf)
  show ?thesis
  proof (cases "off + length buf \<le> vol_size v")
    case True
    then obtain v' where "vol_write_at v off buf = (v', Inr ())" "vol_inv v'"
        "vol_bytes v' = put off buf (vol_bytes v)" "vol_master v' = vol_master v"
      using assms by (auto elim: vol_write_at_ok [of v off buf])
    then show ?thesis using WriteAt True by simp
  next
    case False
    then show ?thesis using assms WriteAt by (simp add: vol_write_at_err)
  qed
next
  case ResetDisk
  then show ?thesis
    using assms vol_reset_inv vol_reset_bytes by (simp add: vol_reset_def)
qed

lemma vol_trace_array:
  assumes "vol_inv v"
  shows "\<exists>v' rs. trace vol_apply xs v = (v', rs) \<and> vol_inv v' \<and> vol_master v' = vol_master v \<and>
    trace (array_apply (disk_bytes (vol_master v))) xs (vol_bytes v) = (vol_bytes v', rs)"
  using assms
proof (induction xs arbitrary: v)
  case (Cons x xs)
  obtain v1 r where v1: "vol_apply x v = (v1, r)" "vol_inv v1" "vol_master v1 = vol_master v"
      "array_apply (disk_bytes (vol_master v)) x (vol_bytes v) = (vol_bytes v1, r)"
    using vol_apply_array [OF Cons.prems] by blast
  then show ?case using Cons.IH [OF v1(2)] by auto
qed simp

section \<open>Writers that interleave\<close>

text \<open>
  A call of \<open>write_at\<close> in progress: the loop variables, and the block it has read and not yet
  written back. Between the overlay's lookup and the read of the master the loaded block is the
  one the lookup decided on, because the master does not change.
\<close>

record writer =
  wr_off :: nat
  wr_data :: bytes
  wr_sent :: nat
  wr_loaded :: "bytes option"

definition writer_start :: "nat \<Rightarrow> bytes \<Rightarrow> writer" where
  "writer_start off buf = \<lparr>wr_off = off, wr_data = buf, wr_sent = 0, wr_loaded = None\<rparr>"

definition wr_pos :: "writer \<Rightarrow> nat" where
  "wr_pos w = wr_off w + wr_sent w"

definition wr_finished :: "writer \<Rightarrow> bool" where
  "wr_finished w \<longleftrightarrow> wr_sent w = length (wr_data w)"

definition load_block :: "volume \<Rightarrow> nat \<Rightarrow> nat \<Rightarrow> bytes io" where
  "load_block v blk blen =
     (case ov_read_block (vol_overlay v) blk blen of
        Inl e \<Rightarrow> Inl e
      | Inr (Some data) \<Rightarrow> Inr data
      | Inr None \<Rightarrow> bs_read (vol_master v) (blk * BLOCK) blen)"

lemma load_block_window:
  "vol_inv v \<Longrightarrow> blk * BLOCK < vol_size v \<Longrightarrow> blen = min BLOCK (vol_size v - blk * BLOCK) \<Longrightarrow>
    load_block v blk blen = Inr (window (blk * BLOCK) blen (vol_bytes v))"
  unfolding load_block_def by (metis vol_read_block)

definition store_block :: "volume \<Rightarrow> nat \<Rightarrow> bytes \<Rightarrow> volume" where
  "store_block v blk b = v\<lparr>vol_overlay := ov_write_block (vol_overlay v) blk b\<rparr>"

text \<open>The part of the buffer the current iteration writes.\<close>

definition wr_chunk :: "writer \<Rightarrow> nat \<Rightarrow> bytes" where
  "wr_chunk w blen = window (wr_sent w) (min (blen - wr_pos w mod BLOCK) (length (wr_data w) - wr_sent w)) (wr_data w)"

inductive writer_step :: "volume \<Rightarrow> writer \<Rightarrow> volume \<Rightarrow> writer \<Rightarrow> bool" where
  load: "\<not> wr_finished w \<Longrightarrow> block_len v (wr_pos w div BLOCK) = Inr blen \<Longrightarrow> length (wr_chunk w blen) \<noteq> blen \<Longrightarrow>
     wr_loaded w = None \<Longrightarrow> load_block v (wr_pos w div BLOCK) blen = Inr b \<Longrightarrow>
     writer_step v w v (w\<lparr>wr_loaded := Some b\<rparr>)"
| patch: "\<not> wr_finished w \<Longrightarrow> block_len v (wr_pos w div BLOCK) = Inr blen \<Longrightarrow> length (wr_chunk w blen) \<noteq> blen \<Longrightarrow>
     wr_loaded w = Some b \<Longrightarrow>
     writer_step v w (store_block v (wr_pos w div BLOCK) (put (wr_pos w mod BLOCK) (wr_chunk w blen) b))
       (w\<lparr>wr_sent := wr_sent w + length (wr_chunk w blen), wr_loaded := None\<rparr>)"
| whole: "\<not> wr_finished w \<Longrightarrow> block_len v (wr_pos w div BLOCK) = Inr blen \<Longrightarrow> length (wr_chunk w blen) = blen \<Longrightarrow>
     wr_loaded w = None \<Longrightarrow>
     writer_step v w (store_block v (wr_pos w div BLOCK) (wr_chunk w blen))
       (w\<lparr>wr_sent := wr_sent w + blen\<rparr>)"

inductive writers_run :: "volume \<Rightarrow> writer list \<Rightarrow> volume \<Rightarrow> writer list \<Rightarrow> bool" where
  stop: "writers_run v ws v ws"
| step: "k < length ws \<Longrightarrow> writer_step v (ws ! k) v' w' \<Longrightarrow> writers_run v' (ws[k := w']) v'' ws'' \<Longrightarrow>
     writers_run v ws v'' ws''"

section \<open>Writers of different blocks\<close>

text \<open>The blocks a call writes, and what holds of a call in progress.\<close>

definition wr_blocks :: "writer \<Rightarrow> nat set" where
  "wr_blocks w = (\<lambda>i. i div BLOCK) ` {wr_off w..<wr_off w + length (wr_data w)}"

definition wr_ok :: "volume \<Rightarrow> writer \<Rightarrow> bool" where
  "wr_ok v w \<longleftrightarrow> wr_off w + length (wr_data w) \<le> vol_size v \<and> wr_sent w \<le> length (wr_data w) \<and>
     (\<forall>b. wr_loaded w = Some b \<longrightarrow> \<not> wr_finished w \<and> load_block v (wr_pos w div BLOCK)
        (min BLOCK (vol_size v - wr_pos w div BLOCK * BLOCK)) = Inr b) \<and>
     (\<forall>i < wr_sent w. vol_bytes v ! (wr_off w + i) = wr_data w ! i)"

text \<open>A step that stores a block does what one iteration of \<open>write_at\<close> does.\<close>

lemma writer_step_cases:
  assumes "writer_step v w v' w'" "vol_inv v" "wr_ok v w"
  obtains (load) b where "v' = v" "w' = w\<lparr>wr_loaded := Some b\<rparr>" "wr_ok v w'"
    | (store) n where "0 < n" "wr_sent w + n \<le> length (wr_data w)" "vol_inv v'"
        "wr_pos w mod BLOCK + n \<le> BLOCK"
        "vol_bytes v' = put (wr_pos w) (window (wr_sent w) n (wr_data w)) (vol_bytes v)" "vol_master v' = vol_master v"
        "w' = w\<lparr>wr_sent := wr_sent w + n, wr_loaded := None\<rparr>"
proof -
  note load_case = that(1) and store_case = that(2)
  define blk where "blk = wr_pos w div BLOCK"
  define blen where "blen = min BLOCK (vol_size v - blk * BLOCK)"
  define left where "left = length (wr_data w) - wr_sent w"
  define n where "n = min (blen - wr_pos w mod BLOCK) left"
  have unf: "\<not> wr_finished w" using assms(1) by cases
  then have pos: "0 < left" "wr_sent w + left = length (wr_data w)" "wr_pos w + left \<le> vol_size v"
    using assms(3) by (auto simp: wr_ok_def wr_finished_def wr_pos_def left_def)
  then have len: "block_len v blk = Inr blen"
    unfolding blk_def blen_def by (intro block_len_at) linarith
  note t = vol_take [OF pos(3,1), folded blk_def, folded blen_def, folded n_def]
  then have fit: "wr_sent w + n \<le> length (wr_data w)" using pos(2) by linarith
  have chunk: "wr_chunk w blen = window (wr_sent w) n (wr_data w)"
    by (simp add: wr_chunk_def n_def left_def)
  then have len_chunk: "length (wr_chunk w blen) = n" using fit by simp
  have store: thesis
    if w: "vol_write_chunk v blk blen (wr_pos w mod BLOCK) (wr_chunk w blen) = (v', Inr ())"
      and w': "w' = w\<lparr>wr_sent := wr_sent w + n, wr_loaded := None\<rparr>"
  proof -
    have c: "wr_chunk w blen \<noteq> []" "wr_pos w + length (wr_chunk w blen) \<le> vol_size v"
      "wr_pos w mod BLOCK + length (wr_chunk w blen) \<le> BLOCK"
      using t pos len_chunk by (simp_all add: len_chunk flip: length_greater_0_conv)
    obtain v1 where v1: "vol_write_chunk v blk blen (wr_pos w mod BLOCK) (wr_chunk w blen) = (v1, Inr ())"
      "vol_inv v1" "vol_bytes v1 = put (wr_pos w) (wr_chunk w blen) (vol_bytes v)" "vol_master v1 = vol_master v"
      unfolding blen_def blk_def by (rule vol_write_chunk_ok [OF assms(2) c, unfolded blen_def blk_def])
    then have "v1 = v'" using w by simp
    with v1 show thesis using store_case [OF t(1) fit] t(3) w' by (simp add: chunk)
  qed
  from assms(1) show thesis
  proof cases
    case (load blen' b)
    then show thesis
      using load_case [of b] assms(3) len unf
      by (simp add: wr_ok_def wr_pos_def wr_finished_def blk_def blen_def del: nth_vol_bytes)
  next
    case (patch blen' b)
    then have "load_block v blk blen = Inr b" "blen' = blen"
      using assms(3) len by (simp_all add: wr_ok_def blk_def blen_def)
    then show thesis
      using patch len_chunk
      by (intro store) (simp_all add: vol_write_chunk_def load_block_def store_block_def blk_def)
  next
    case (whole blen')
    then have "blen' = blen" using len by (simp add: blk_def)
    then show thesis
      using whole len_chunk by (intro store) (simp_all add: vol_write_chunk_def store_block_def blk_def)
  qed
qed

definition wr_target :: "writer \<Rightarrow> nat \<times> bytes" where
  "wr_target w = (wr_off w, wr_data w)"

lemma wr_blocks_target: "wr_target w' = wr_target w \<Longrightarrow> wr_blocks w' = wr_blocks w"
  by (simp add: wr_target_def wr_blocks_def)

lemma block_apart:
  assumes "a div BLOCK \<noteq> b" "b * BLOCK \<le> p" "p + n \<le> b * BLOCK + BLOCK"
  shows "a < p \<or> p + n \<le> a"
  using div_BLOCK_eq [of b a] assms by linarith

text \<open>A step of one writer leaves alone a writer whose blocks are others.\<close>

lemma writer_step_other:
  assumes step: "writer_step v w v' w'" "vol_inv v" "wr_ok v w"
    and u: "wr_ok v u" "wr_blocks u \<inter> wr_blocks w = {}"
  shows "wr_ok v' u"
  using step
proof (cases rule: writer_step_cases)
  case (load b)
  with u show ?thesis by simp
next
  case (store n)
  let ?p = "wr_pos w" let ?blk = "wr_pos w div BLOCK" let ?src = "window (wr_sent w) n (wr_data w)"
  have size: "vol_size v' = vol_size v" using store(6) by (simp add: vol_size_def)
  have src: "length ?src = n" using store(2) by simp
  have p: "?blk * BLOCK \<le> ?p" "?p + n \<le> ?blk * BLOCK + BLOCK"
    using block_start_le [of ?p] store(4) div_mult_mod_eq [of ?p BLOCK] by linarith+
  have room: "?p + n \<le> vol_size v" using step(3) store(2) by (simp add: wr_ok_def wr_pos_def)
  have mine: "?blk \<in> wr_blocks w" using store(1,2) by (auto simp: wr_blocks_def wr_pos_def)
  have other: "vol_bytes v' ! i = vol_bytes v ! i" if "i < vol_size v" "i div BLOCK \<noteq> ?blk" for i
    using block_apart [OF that(2) p] that(1) room src store(5) by (auto simp: nth_put simp del: nth_vol_bytes)
  have blk: "load_block v' b (min BLOCK (vol_size v - b * BLOCK)) = load_block v b (min BLOCK (vol_size v - b * BLOCK))"
    if b: "b \<noteq> ?blk" "b * BLOCK < vol_size v" for b
  proof -
    have "window (b * BLOCK) m (vol_bytes v') = window (b * BLOCK) m (vol_bytes v)"
      if m: "m = min BLOCK (vol_size v - b * BLOCK)" for m
    proof (rule nth_equalityI)
      fix i assume "i < length (window (b * BLOCK) m (vol_bytes v'))"
      then have i: "i < m" "b * BLOCK + i < vol_size v" using size m by (auto simp: length_window)
      then have "(b * BLOCK + i) div BLOCK = b" using div_BLOCK_eq [of b "b * BLOCK + i"] m by simp
      then show "window (b * BLOCK) m (vol_bytes v') ! i = window (b * BLOCK) m (vol_bytes v) ! i"
        using i other [of "b * BLOCK + i"] b(1) size by (simp del: nth_vol_bytes)
    qed (simp add: size length_window)
    then show ?thesis
      using load_block_window [OF step(2) b(2)] load_block_window [OF store(3), of b] b(2) size by simp
  qed
  show ?thesis
    unfolding wr_ok_def size
  proof (intro conjI allI impI)
    fix b assume b: "wr_loaded u = Some b"
    then have pu: "wr_pos u div BLOCK \<in> wr_blocks u" "wr_pos u < vol_size v" "\<not> wr_finished u"
      using u(1) by (auto simp: wr_ok_def wr_blocks_def wr_pos_def wr_finished_def)
    have "wr_pos u div BLOCK \<noteq> ?blk" using pu(1) u(2) mine by (metis disjoint_iff)
    moreover have "wr_pos u div BLOCK * BLOCK < vol_size v"
      using le_less_trans [OF block_start_le pu(2)] .
    ultimately show "\<not> wr_finished u"
      "load_block v' (wr_pos u div BLOCK) (min BLOCK (vol_size v - wr_pos u div BLOCK * BLOCK)) = Inr b"
      using b u(1) blk pu(3) by (simp_all add: wr_ok_def)
  next
    fix i assume i: "i < wr_sent u"
    then have "wr_off u + i < vol_size v" "(wr_off u + i) div BLOCK \<in> wr_blocks u"
      using u(1) by (auto simp: wr_ok_def wr_blocks_def)
    moreover from this have "(wr_off u + i) div BLOCK \<noteq> ?blk" using u(2) mine by (metis disjoint_iff)
    ultimately show "vol_bytes v' ! (wr_off u + i) = wr_data u ! i"
      using other [of "wr_off u + i"] mine u i by (auto simp: wr_ok_def simp del: nth_vol_bytes)
  qed (use u(1) in \<open>simp_all add: wr_ok_def\<close>)
qed

definition disjoint_writers :: "(nat \<times> bytes) list \<Rightarrow> bool" where
  "disjoint_writers ts \<longleftrightarrow> (\<forall>j < length ts. \<forall>k < length ts. j \<noteq> k \<longrightarrow>
     wr_blocks (case_prod writer_start (ts ! j)) \<inter> wr_blocks (case_prod writer_start (ts ! k)) = {})"

lemma wr_blocks_start: "wr_blocks (case_prod writer_start (wr_target w)) = wr_blocks w"
  by (simp add: wr_blocks_def wr_target_def writer_start_def)

lemma writer_step_frame:
  assumes "writer_step v w v' w'" "vol_inv v" "wr_ok v w"
  shows "vol_inv v' \<and> vol_master v' = vol_master v \<and> wr_ok v' w' \<and> wr_target w' = wr_target w \<and>
    (\<forall>i < vol_size v. i < wr_off w \<or> wr_off w + length (wr_data w) \<le> i \<longrightarrow> vol_bytes v' ! i = vol_bytes v ! i)"
  using assms
proof (cases rule: writer_step_cases)
  case (load b)
  with assms show ?thesis by (simp add: wr_target_def)
next
  case (store n)
  have size: "vol_size v' = vol_size v" using store(6) by (simp add: vol_size_def)
  have room: "wr_off w + wr_sent w + n \<le> vol_size v" using assms(3) store(2) by (simp add: wr_ok_def)
  have nth: "vol_bytes v' ! i = (if wr_pos w \<le> i \<and> i < wr_pos w + n
      then wr_data w ! (wr_sent w + (i - wr_pos w)) else vol_bytes v ! i)" if "i < vol_size v" for i
  proof (cases "wr_pos w \<le> i \<and> i < wr_pos w + n")
    case True
    then have "window (wr_sent w) n (wr_data w) ! (i - wr_pos w) = wr_data w ! (wr_sent w + (i - wr_pos w))"
      using store(2) by (intro nth_window) auto
    with True show ?thesis using that room store(2,5) by (simp add: nth_put wr_pos_def del: nth_vol_bytes)
  next
    case False
    then show ?thesis using that room store(2,5) by (auto simp: nth_put wr_pos_def simp del: nth_vol_bytes)
  qed
  have "vol_bytes v' ! (wr_off w + i) = wr_data w ! i" if "i < wr_sent w + n" for i
  proof (cases "i < wr_sent w")
    case True
    then show ?thesis using nth [of "wr_off w + i"] room assms(3) by (simp add: wr_ok_def wr_pos_def del: nth_vol_bytes)
  next
    case False
    then show ?thesis using nth [of "wr_off w + i"] room that by (simp add: wr_pos_def del: nth_vol_bytes)
  qed
  moreover have "vol_bytes v' ! i = vol_bytes v ! i"
    if "i < vol_size v" "i < wr_off w \<or> wr_off w + length (wr_data w) \<le> i" for i
    using nth [OF that(1)] that(2) store(2) by (auto simp: wr_pos_def simp del: nth_vol_bytes)
  ultimately show ?thesis
    using store assms(3) size by (simp add: wr_ok_def wr_target_def del: nth_vol_bytes)
qed

lemma writers_run_ok:
  assumes "writers_run v ws v' ws'"
  shows "vol_inv v \<Longrightarrow> \<forall>w \<in> set ws. wr_ok v w \<Longrightarrow> disjoint_writers (map wr_target ws) \<Longrightarrow>
    vol_inv v' \<and> vol_size v' = vol_size v \<and> (\<forall>w \<in> set ws'. wr_ok v' w) \<and> map wr_target ws' = map wr_target ws \<and>
    (\<forall>i < vol_size v. (\<forall>(off, buf) \<in> set (map wr_target ws). i < off \<or> off + length buf \<le> i) \<longrightarrow>
       vol_bytes v' ! i = vol_bytes v ! i)"
  using assms
proof (induction rule: writers_run.induct)
  case (step k ws v v1 w1 v' ws')
  have k: "vol_inv v" "wr_ok v (ws ! k)" using step.prems step.hyps by auto
  note f = writer_step_frame [OF step.hyps(2) k]
  then have size: "vol_size v1 = vol_size v" by (simp add: vol_size_def)
  have targets: "map wr_target (ws[k := w1]) = map wr_target ws"
    using f step.hyps(1) by (simp add: map_update) (metis list_update_id nth_map)
  have "wr_ok v1 (ws[k := w1] ! j)" if "j < length ws" for j
  proof (cases "j = k")
    case True
    then show ?thesis using f step.hyps(1) by simp
  next
    case False
    then have "wr_blocks (ws ! j) \<inter> wr_blocks (ws ! k) = {}"
      using step.prems(3) step.hyps(1) that by (simp add: disjoint_writers_def wr_blocks_start)
    then show ?thesis
      using writer_step_other [OF step.hyps(2) k, of "ws ! j"] step.prems(2) that False by simp
  qed
  then have "\<forall>w \<in> set (ws[k := w1]). wr_ok v1 w" by (auto simp: in_set_conv_nth)
  note ih = step.IH [OF _ this, unfolded targets size, OF _ step.prems(3)]
  have "vol_bytes v1 ! i = vol_bytes v ! i"
    if "i < vol_size v" "\<forall>(off, buf) \<in> set (map wr_target ws). i < off \<or> off + length buf \<le> i" for i
  proof -
    have "wr_target (ws ! k) \<in> set (map wr_target ws)" using step.hyps(1) by simp
    then show ?thesis using f that by (fastforce simp: wr_target_def)
  qed
  then show ?case using ih f by (simp del: nth_vol_bytes)
qed auto

lemma wr_ok_start: "off + length buf \<le> vol_size v \<Longrightarrow> wr_ok v (writer_start off buf)"
  by (simp add: wr_ok_def writer_start_def)

lemma finished_window:
  assumes "wr_ok v w" "wr_finished w"
  shows "window (wr_off w) (length (wr_data w)) (vol_bytes v) = wr_data w"
  using assms by (intro nth_equalityI) (auto simp: wr_ok_def wr_finished_def length_window simp del: nth_vol_bytes)

section \<open>Writers of one block\<close>

text \<open>Two writers of neighbouring bytes of one block, each reading the block before the other stores it.\<close>

lemma first_chunk:
  assumes "0 < length buf" "off + length buf \<le> blen"  "blen \<le> BLOCK" "length buf < blen"
  shows "wr_chunk (writer_start off buf) blen = buf" "wr_pos (writer_start off buf) div BLOCK = 0"
    "wr_pos (writer_start off buf) mod BLOCK = off" "\<not> wr_finished (writer_start off buf)"
proof -
  have off: "off < BLOCK" "min (blen - off) (length buf) = length buf" using assms by linarith+
  then show "wr_chunk (writer_start off buf) blen = buf" "wr_pos (writer_start off buf) div BLOCK = 0"
    "wr_pos (writer_start off buf) mod BLOCK = off" "\<not> wr_finished (writer_start off buf)"
    using assms(1) by (simp_all add: wr_chunk_def wr_pos_def writer_start_def wr_finished_def)
qed

lemma first_load:
  assumes "vol_inv v" "buf \<noteq> []" "off + length buf \<le> min BLOCK (vol_size v)" "length buf < min BLOCK (vol_size v)"
  shows "writer_step v (writer_start off buf) v
    (writer_start off buf\<lparr>wr_loaded := Some (window 0 (min BLOCK (vol_size v)) (vol_bytes v))\<rparr>)"
proof -
  have c: "0 < length buf" "min BLOCK (vol_size v) \<le> BLOCK" "0 < vol_size v" using assms by auto
  note f = first_chunk [OF c(1) assms(3) c(2) assms(4)]
  show ?thesis
  proof (rule writer_step.load)
    show "block_len v (wr_pos (writer_start off buf) div BLOCK) = Inr (min BLOCK (vol_size v))"
      by (simp add: f block_len_def)
    show "load_block v (wr_pos (writer_start off buf) div BLOCK) (min BLOCK (vol_size v)) =
        Inr (window 0 (min BLOCK (vol_size v)) (vol_bytes v))"
      using load_block_window [OF assms(1), of 0] c(3) by (simp add: f)
    show "length (wr_chunk (writer_start off buf) (min BLOCK (vol_size v))) \<noteq> min BLOCK (vol_size v)"
      using assms(4) by (simp only: f(1) less_imp_neq not_False_eq_True)
  qed (use f(4) in \<open>simp_all add: writer_start_def\<close>)
qed

lemma first_patch:
  assumes "buf \<noteq> []" "off + length buf \<le> min BLOCK (vol_size v)" "length buf < min BLOCK (vol_size v)"
  shows "writer_step v (writer_start off buf\<lparr>wr_loaded := Some b\<rparr>) (store_block v 0 (put off buf b))
    (writer_start off buf\<lparr>wr_sent := length buf\<rparr>)"
proof -
  have c: "0 < length buf" "min BLOCK (vol_size v) \<le> BLOCK" using assms by auto
  note f = first_chunk [OF c(1) assms(2) c(2) assms(3)]
  let ?w = "writer_start off buf\<lparr>wr_loaded := Some b\<rparr>"
  have p: "wr_pos ?w = wr_pos (writer_start off buf)" "wr_finished ?w = wr_finished (writer_start off buf)"
    "wr_chunk ?w = wr_chunk (writer_start off buf)"
    by (simp_all add: wr_pos_def wr_finished_def wr_chunk_def fun_eq_iff)
  have "writer_step v ?w (store_block v (wr_pos ?w div BLOCK) (put (wr_pos ?w mod BLOCK) (wr_chunk ?w (min BLOCK (vol_size v))) b))
      (?w\<lparr>wr_sent := wr_sent ?w + length (wr_chunk ?w (min BLOCK (vol_size v))), wr_loaded := None\<rparr>)"
  proof (rule writer_step.patch)
    show "length (wr_chunk ?w (min BLOCK (vol_size v))) \<noteq> min BLOCK (vol_size v)"
      using assms(3) by (simp only: p f(1) less_imp_neq not_False_eq_True)
  qed (use p f in \<open>simp_all add: block_len_def\<close>)
  then show ?thesis using p f by (simp add: writer_start_def)
qed

lemma writers_run_0: "writer_step v w v' w' \<Longrightarrow> writers_run v' (w' # ws) v'' ws'' \<Longrightarrow> writers_run v (w # ws) v'' ws''"
  by (rule writers_run.step [of 0]) simp_all

lemma writers_run_1:
  "writer_step v u v' u' \<Longrightarrow> writers_run v' (w # u' # ws) v'' ws'' \<Longrightarrow> writers_run v (w # u # ws) v'' ws''"
  by (rule writers_run.step [of 1]) simp_all

lemma lost_update:
  assumes "vol_inv v" "2 \<le> vol_size v"
  shows "\<exists>v' ws'. writers_run v [writer_start 0 [a], writer_start 1 [b]] v' ws' \<and>
    (\<forall>w \<in> set ws'. wr_finished w) \<and> vol_bytes v' = (vol_bytes v)[1 := b]"
proof -
  define blen where "blen = min BLOCK (vol_size v)"
  define B where "B = window 0 blen (vol_bytes v)"
  have blen: "2 \<le> blen" "blen \<le> vol_size v" using assms(2) by (simp_all add: blen_def BLOCK_def)
  then have B: "length B = blen" by (simp add: B_def)
  let ?v1 = "store_block v 0 (put 0 [a] B)" let ?v2 = "store_block (store_block v 0 (put 0 [a] B)) 0 (put 1 [b] B)"
  let ?s = "\<lambda>off c. writer_start off [c]"
  have size: "vol_size ?v1 = vol_size v" by (simp add: store_block_def)
  have l: "writer_step v (?s 0 a) v (?s 0 a\<lparr>wr_loaded := Some B\<rparr>)" "writer_step v (?s 1 b) v (?s 1 b\<lparr>wr_loaded := Some B\<rparr>)"
    using first_load [OF assms(1), of "[a]" 0] first_load [OF assms(1), of "[b]" 1] blen(1)
    by (simp_all add: B_def blen_def)
  have p: "writer_step v (?s 0 a\<lparr>wr_loaded := Some B\<rparr>) ?v1 (?s 0 a\<lparr>wr_sent := 1\<rparr>)"
      "writer_step ?v1 (?s 1 b\<lparr>wr_loaded := Some B\<rparr>) ?v2 (?s 1 b\<lparr>wr_sent := 1\<rparr>)"
    using first_patch [of "[a]" 0 v B] first_patch [of "[b]" 1 ?v1 B] blen(1) size by (simp_all add: blen_def)
  have run: "writers_run v [?s 0 a, ?s 1 b] ?v2 [?s 0 a\<lparr>wr_sent := 1\<rparr>, ?s 1 b\<lparr>wr_sent := 1\<rparr>]"
    by (rule writers_run_0 [OF l(1) writers_run_1 [OF l(2) writers_run_0 [OF p(1) writers_run_1 [OF p(2) writers_run.stop]]]])
  have pos: "0 * BLOCK < vol_size v" "length (put 0 [a] B) = blen" "length (put 1 [b] B) = blen"
    using blen B by (simp_all add: length_put)
  have v1: "vol_inv ?v1" "vol_bytes ?v1 = put 0 (put 0 [a] B) (vol_bytes v)"
    using vol_store_block [OF assms(1) pos(1), of "put 0 [a] B"] pos(2) by (simp_all add: store_block_def blen_def)
  have "vol_bytes ?v2 = put 0 (put 1 [b] B) (vol_bytes ?v1)"
    using vol_store_block [OF v1(1), of 0 "put 1 [b] B"] pos(1,3) size by (simp add: store_block_def blen_def)
  also have "\<dots> = put 0 (put 1 [b] B) (vol_bytes v)"
    using v1(2) pos blen by (simp add: put_put_same)
  also have "\<dots> = put 1 [b] (vol_bytes v)"
    using put_put_window [of 0 blen "vol_bytes v" 1 "[b]"] blen by (simp add: B_def)
  also have "\<dots> = (vol_bytes v)[1 := b]"
    using assms(2) by (intro nth_equalityI) (auto simp: nth_put length_put nth_list_update simp del: nth_vol_bytes)
  finally show ?thesis
    using run by (intro exI [of _ ?v2] exI [of _ "[?s 0 a\<lparr>wr_sent := 1\<rparr>, ?s 1 b\<lparr>wr_sent := 1\<rparr>]"])
      (simp add: wr_finished_def writer_start_def)
qed

end
