(* ===== verification/Vhdx_Image.thy ===== *)
theory Vhdx_Image
  imports Vhdx
begin

text \<open>
  The builder of VHDX images (\<open>storage/vhdx/fixtures.rs\<close>), which the test suite reads back, and the
  proof that the reader gives back what was built: the round trip the property test
  \<open>reads_match_reference\<close> of \<open>storage/vhdx/mod.rs\<close> samples, for every disk of up to 4096 blocks.
\<close>

section \<open>The builder\<close>

definition MIB :: nat where "MIB = 1048576"
definition METADATA_REGION_OFF :: nat where "METADATA_REGION_OFF = 1048576"
definition BAT_REGION_OFF :: nat where "BAT_REGION_OFF = 2097152"
definition FIRST_BLOCK_OFF :: nat where "FIRST_BLOCK_OFF = 3145728"

lemmas layout_consts = MIB_def METADATA_REGION_OFF_def BAT_REGION_OFF_def FIRST_BLOCK_OFF_def

text \<open>\<open>&mut out[off..]\<close> handed to a writer.\<close>

definition at :: "nat \<Rightarrow> (bytes \<Rightarrow> bytes) \<Rightarrow> bytes \<Rightarrow> bytes" where
  "at off f out = take off out @ f (drop off out)"

definition write_header :: "nat \<Rightarrow> bytes \<Rightarrow> bytes" where
  "write_header sequence buf =
     (let h = puts [(0, ascii ''head''), (8, le_bytes 8 sequence), (66, le_bytes 2 1)] (take 4096 buf) in
      put 4 (le_bytes 4 (unat (crc32c h))) h @ drop 4096 buf)"

definition write_region_table :: "nat \<Rightarrow> bytes \<Rightarrow> bytes" where
  "write_region_table bat_len buf =
     (let r = puts [(0, ascii ''regi''), (8, le_bytes 4 2),
                (16, BAT_GUID), (32, le_bytes 8 BAT_REGION_OFF), (40, le_bytes 4 bat_len), (44, le_bytes 4 1),
                (48, METADATA_GUID), (64, le_bytes 8 METADATA_REGION_OFF), (72, le_bytes 4 MIB), (76, le_bytes 4 1)]
              (take 65536 buf) in
      put 4 (le_bytes 4 (unat (crc32c r))) r @ drop 65536 buf)"

definition put_entry :: "nat \<Rightarrow> bytes \<Rightarrow> nat \<Rightarrow> nat \<Rightarrow> (nat \<times> bytes) list" where
  "put_entry slot guid off len =
     (let e = 32 + slot * 32 in
      [(e, guid), (e + 16, le_bytes 4 off), (e + 20, le_bytes 4 len), (e + 24, le_bytes 4 0)])"

definition write_metadata :: "nat \<Rightarrow> bytes \<Rightarrow> bytes" where
  "write_metadata virtual_size buf =
     puts ([(0, ascii ''metadata''), (10, le_bytes 2 3)]
         @ put_entry 0 FILE_PARAMS_GUID 0x10000 8
         @ put_entry 1 VDISK_SIZE_GUID 0x10010 8
         @ put_entry 2 LOGICAL_SECTOR_GUID 0x10020 4
         @ [(0x10000, le_bytes 4 MIB), (0x10004, le_bytes 4 0), (0x10010, le_bytes 8 virtual_size),
            (0x10020, le_bytes 4 512)]) (take MIB buf) @ drop MIB buf"

text \<open>Blocks of zeros are left out of the file; the others get the next place and their BAT entry.\<close>

primrec payload_blocks :: "bytes list \<Rightarrow> nat \<Rightarrow> nat list \<Rightarrow> nat \<Rightarrow> bytes \<Rightarrow> nat list \<times> bytes" where
  "payload_blocks [] i bat next_off out = (bat, out)"
| "payload_blocks (chunk # chunks) i bat next_off out =
     (if list_all (\<lambda>b. b = 0) chunk then payload_blocks chunks (Suc i) bat next_off out
      else payload_blocks chunks (Suc i) (bat[i := next_off - next_off mod 2 ^ 20 + 6]) (next_off + MIB) (out @ chunk))"

primrec write_bat :: "nat list \<Rightarrow> nat \<Rightarrow> bytes \<Rightarrow> bytes io" where
  "write_bat [] off out = Inr out"
| "write_bat (e # bat) off out =
     (if length out < off + 8 then Inl Panicked else write_bat bat (off + 8) (put off (le_bytes 8 e) out))"

definition vhdx_regions :: "nat \<Rightarrow> bytes" where
  "vhdx_regions virtual_size =
     (at METADATA_REGION_OFF (write_metadata virtual_size) \<circ>
      at 262144 (write_region_table MIB) \<circ> at 196608 (write_region_table MIB) \<circ>
      at 131072 (write_header 1) \<circ> at 65536 (write_header 2)) (put 0 (ascii ''vhdxfile'') (zeros FIRST_BLOCK_OFF))"

definition dynamic_vhdx :: "bytes \<Rightarrow> bytes io" where
  "dynamic_vhdx data =
     (if length data mod MIB \<noteq> 0 then Inl Panicked
      else
        let virtual_size = length data;
            (bat, out) = payload_blocks (chunks_exact MIB data) 0 (replicate (virtual_size div MIB) 0)
                           FIRST_BLOCK_OFF (vhdx_regions virtual_size) in
        write_bat bat BAT_REGION_OFF out)"

section \<open>The regions\<close>

text \<open>A structure that was given the checksum of its bytes passes the check.\<close>

lemma crc_ok_put:
  assumes "length h = n" "8 \<le> n" "window 4 4 h = zeros 4"
  shows "crc_ok n (put 4 (le_bytes 4 (unat (crc32c h))) h)"
proof -
  let ?p = "put 4 (le_bytes 4 (unat (crc32c h))) h"
  have "take n ?p = ?p" using assms by (simp add: length_put)
  moreover have "put 4 (zeros 4) ?p = h"
    using put_window_self [of 4 4 h] assms by (simp add: put_put_same)
  moreover have "le_val (window 4 4 ?p) = unat (crc32c h)"
    using assms(1,2) unsigned_less [of "crc32c h", where ?'a = nat] by (simp add: window_put_same')
  ultimately show ?thesis by (simp add: crc_ok_def)
qed

definition header_bytes :: "nat \<Rightarrow> bytes" where
  "header_bytes sequence = write_header sequence (zeros 4096)"

definition table_bytes :: bytes where
  "table_bytes = write_region_table MIB (zeros 65536)"

definition metadata_bytes :: "nat \<Rightarrow> bytes" where
  "metadata_bytes virtual_size = write_metadata virtual_size (zeros MIB)"

lemmas window_eval = window_puts puts_fit_def puts_clear_def puts_field_def window_zeros window_all'

lemma parse_header_bytes:
  assumes "sequence < 2 ^ 64"
  shows "length (header_bytes sequence) = 4096" "parse_one_header (header_bytes sequence) = Inr sequence"
proof -
  define h where "h = puts [(0, ascii ''head''), (8, le_bytes 8 sequence), (66, le_bytes 2 1)] (zeros 4096)"
  have e: "header_bytes sequence = put 4 (le_bytes 4 (unat (crc32c h))) h"
    by (simp add: header_bytes_def write_header_def h_def Let_def zeros_def)
  have len: "length h = 4096" by (simp add: h_def length_puts puts_fit_def)
  then show L: "length (header_bytes sequence) = 4096" by (simp add: e length_put)
  have fields: "window 0 4 h = ascii ''head''" "window 8 8 h = le_bytes 8 sequence" "window 66 2 h = le_bytes 2 1"
      "window 48 16 h = zeros 16" "window 4 4 h = zeros 4"
    by (simp_all add: h_def window_eval del: ascii_Cons)
  have keep: "window a n (header_bytes sequence) = window a n h" if "a + n \<le> 4 \<or> 8 \<le> a" for a n
    using that len by (simp add: e window_put_disjoint)
  have "crc_ok 4096 (header_bytes sequence)" using crc_ok_put [OF len] fields(5) by (simp add: e)
  then show "parse_one_header (header_bytes sequence) = Inr sequence"
    using L fields assms by (simp add: parse_one_header_def keep zeros_def list_ex_iff)
qed

lemma parse_table_bytes:
  "length table_bytes = 65536"
  "parse_region_table table_bytes =
     Inr \<lparr>rg_bat = Some (BAT_REGION_OFF, MIB), rg_metadata = Some (METADATA_REGION_OFF, MIB)\<rparr>"
proof -
  define r where "r = puts [(0, ascii ''regi''), (8, le_bytes 4 2),
                (16, BAT_GUID), (32, le_bytes 8 BAT_REGION_OFF), (40, le_bytes 4 MIB), (44, le_bytes 4 1),
                (48, METADATA_GUID), (64, le_bytes 8 METADATA_REGION_OFF), (72, le_bytes 4 MIB), (76, le_bytes 4 1)]
              (zeros 65536)"
  have guid: "length BAT_GUID = 16" "length METADATA_GUID = 16" "BAT_GUID \<noteq> METADATA_GUID"
    by (simp_all add: BAT_GUID_def METADATA_GUID_def)
  have e: "table_bytes = put 4 (le_bytes 4 (unat (crc32c r))) r"
    by (simp add: table_bytes_def write_region_table_def r_def Let_def zeros_def)
  have len: "length r = 65536" by (simp add: r_def length_puts puts_fit_def guid)
  then show L: "length table_bytes = 65536" by (simp add: e length_put)
  have fields: "window 0 4 r = ascii ''regi''" "window 8 4 r = le_bytes 4 2" "window 4 4 r = zeros 4"
      "window 16 16 r = BAT_GUID" "window 32 8 r = le_bytes 8 BAT_REGION_OFF" "window 40 4 r = le_bytes 4 MIB"
      "window 48 16 r = METADATA_GUID" "window 64 8 r = le_bytes 8 METADATA_REGION_OFF" "window 72 4 r = le_bytes 4 MIB"
    by (simp_all add: r_def window_eval guid del: ascii_Cons)
  have keep: "window a n table_bytes = window a n r" if "a + n \<le> 4 \<or> 8 \<le> a" for a n
    using that len by (simp add: e window_put_disjoint)
  have crc: "crc_ok 65536 table_bytes" using crc_ok_put [OF len] fields(3) by (simp add: e)
  have count: "le_val (window 8 4 table_bytes) = 2" by (simp add: keep fields)
  have entries: "fold (region_entry table_bytes) [0..<2] \<lparr>rg_bat = None, rg_metadata = None\<rparr> =
      \<lparr>rg_bat = Some (BAT_REGION_OFF, MIB), rg_metadata = Some (METADATA_REGION_OFF, MIB)\<rparr>"
    using guid(3)
    by (simp add: numeral_2_eq_2 upt_rec region_entry_def Let_def keep fields layout_consts)
  show "parse_region_table table_bytes =
      Inr \<lparr>rg_bat = Some (BAT_REGION_OFF, MIB), rg_metadata = Some (METADATA_REGION_OFF, MIB)\<rparr>"
    using L crc by (simp add: parse_region_table_def Let_def keep fields(1,2) entries)
qed

lemma guids: "length FILE_PARAMS_GUID = 16" "length VDISK_SIZE_GUID = 16" "length LOGICAL_SECTOR_GUID = 16"
    "FILE_PARAMS_GUID \<noteq> VDISK_SIZE_GUID" "FILE_PARAMS_GUID \<noteq> LOGICAL_SECTOR_GUID" "VDISK_SIZE_GUID \<noteq> LOGICAL_SECTOR_GUID"
    "VDISK_SIZE_GUID \<noteq> FILE_PARAMS_GUID" "LOGICAL_SECTOR_GUID \<noteq> FILE_PARAMS_GUID" "LOGICAL_SECTOR_GUID \<noteq> VDISK_SIZE_GUID"
  by (simp_all add: FILE_PARAMS_GUID_def VDISK_SIZE_GUID_def LOGICAL_SECTOR_GUID_def)

lemma parse_metadata_bytes:
  assumes "n < 2 ^ 64"
  shows "length (metadata_bytes n) = MIB"
    "parse_metadata (metadata_bytes n) = Inr \<lparr>md_block_size = MIB, md_sector_size = 512, md_virtual_size = n\<rparr>"
proof -
  define ps where "ps = [(0, ascii ''metadata''), (10, le_bytes 2 3)]
         @ put_entry 0 FILE_PARAMS_GUID 0x10000 8
         @ put_entry 1 VDISK_SIZE_GUID 0x10010 8
         @ put_entry 2 LOGICAL_SECTOR_GUID 0x10020 4
         @ [(0x10000, le_bytes 4 MIB), (0x10004, le_bytes 4 0), (0x10010, le_bytes 8 n), (0x10020, le_bytes 4 512)]"
  have e: "metadata_bytes n = puts ps (zeros MIB)"
    by (simp add: metadata_bytes_def write_metadata_def ps_def zeros_def)
  have fit: "puts_fit (length (zeros MIB)) ps"
    by (simp add: ps_def puts_fit_def put_entry_def guids MIB_def Let_def)
  show L: "length (metadata_bytes n) = MIB" using length_puts [OF fit] by (simp add: e)
  have win: "window a k (metadata_bytes n) = puts_field a k ps (zeros k)"
    if "0 < k" "a + k \<le> MIB" "puts_clear a k ps" for a k
    using that window_puts [OF that(1) fit that(3)] by (simp add: e window_zeros)
  note ev = win [unfolded ps_def] puts_clear_def puts_field_def put_entry_def guids MIB_def Let_def window_all' window_zeros
  have fields: "window 0 8 (metadata_bytes n) = ascii ''metadata''" "window 10 2 (metadata_bytes n) = le_bytes 2 3"
      "window 32 16 (metadata_bytes n) = FILE_PARAMS_GUID" "window 48 4 (metadata_bytes n) = le_bytes 4 0x10000"
      "window 52 4 (metadata_bytes n) = le_bytes 4 8"
      "window 64 16 (metadata_bytes n) = VDISK_SIZE_GUID" "window 80 4 (metadata_bytes n) = le_bytes 4 0x10010"
      "window 84 4 (metadata_bytes n) = le_bytes 4 8"
      "window 96 16 (metadata_bytes n) = LOGICAL_SECTOR_GUID" "window 112 4 (metadata_bytes n) = le_bytes 4 0x10020"
      "window 116 4 (metadata_bytes n) = le_bytes 4 4"
      "window 0x10000 4 (metadata_bytes n) = le_bytes 4 MIB" "window 0x10004 4 (metadata_bytes n) = le_bytes 4 0"
      "window 0x10010 8 (metadata_bytes n) = le_bytes 8 n" "window 0x10020 4 (metadata_bytes n) = le_bytes 4 512"
    by (simp_all add: ev del: ascii_Cons)
  have items: "metadata_entries (metadata_bytes n) [0, 1, 2] \<lparr>it_block_size = None, it_sector_size = None, it_virtual_size = None\<rparr> =
      Inr \<lparr>it_block_size = Some MIB, it_sector_size = Some 512, it_virtual_size = Some n\<rparr>"
    using assms L by (simp add: metadata_entry_def Let_def fields guids window_window window_all' MIB_def)
  have "[0..<3] = [0, 1, 2 :: nat]" by (simp add: upt_rec)
  moreover have "is_power_of_two MIB" "is_power_of_two 512"
    using is_power_of_two_pow [of 20] is_power_of_two_pow [of 9] by (simp_all add: MIB_def)
  ultimately show "parse_metadata (metadata_bytes n) =
      Inr \<lparr>md_block_size = MIB, md_sector_size = 512, md_virtual_size = n\<rparr>"
    using L items by (simp add: parse_metadata_def Let_def fields MIB_def)
qed

lemma at_region:
  assumes "\<And>buf. n \<le> length buf \<Longrightarrow> g buf = g (take n buf) @ drop n buf"
    and "\<And>buf. length buf = n \<Longrightarrow> length (g buf) = n" "off + n \<le> length out"
  shows "at off g out = put off (g (window off n out)) out"
proof -
  have "length (g (take n (drop off out))) = n" using assms(2,3) by simp
  then show ?thesis using assms(1) [of "drop off out"] assms(3) by (simp add: at_def put_def window_def add.commute)
qed

text \<open>The file up to the first block, as writes into a buffer of zeros.\<close>

definition region_puts :: "nat \<Rightarrow> (nat \<times> bytes) list" where
  "region_puts n = [(0, ascii ''vhdxfile''), (65536, header_bytes 2), (131072, header_bytes 1),
     (196608, table_bytes), (262144, table_bytes), (METADATA_REGION_OFF, metadata_bytes n)]"

lemma write_header_take: "4096 \<le> length buf \<Longrightarrow> write_header s buf = write_header s (take 4096 buf) @ drop 4096 buf"
  by (simp add: write_header_def Let_def min_def)

lemma write_region_table_take:
  "65536 \<le> length buf \<Longrightarrow> write_region_table l buf = write_region_table l (take 65536 buf) @ drop 65536 buf"
  by (simp add: write_region_table_def Let_def min_def)

lemma write_metadata_take: "MIB \<le> length buf \<Longrightarrow> write_metadata n buf = write_metadata n (take MIB buf) @ drop MIB buf"
  by (simp add: write_metadata_def min_def)

lemma length_writers:
  "length buf = 4096 \<Longrightarrow> length (write_header s buf) = 4096"
  "length buf = 65536 \<Longrightarrow> length (write_region_table l buf) = 65536"
  "length buf = MIB \<Longrightarrow> length (write_metadata n buf) = MIB"
  by (simp_all add: write_header_def write_region_table_def write_metadata_def put_entry_def Let_def length_put length_puts
      puts_fit_def guids BAT_GUID_def METADATA_GUID_def MIB_def)

lemma region_lengths:
  "length (header_bytes s) = 4096" "length table_bytes = 65536" "length (metadata_bytes n) = MIB"
  using length_writers [of "zeros 4096"] length_writers [of "zeros 65536"] length_writers [of "zeros MIB"]
  by (simp_all add: header_bytes_def table_bytes_def metadata_bytes_def)

lemma puts_snoc: "puts (ps @ [(off, src)]) d = put off src (puts ps d)"
  by (induction ps arbitrary: d) (simp_all add: puts.simps)

text \<open>A writer applied to a part of the buffer that is still zero.\<close>

lemma at_fresh:
  assumes g: "\<And>buf. n \<le> length buf \<Longrightarrow> g buf = g (take n buf) @ drop n buf"
      "\<And>buf. length buf = n \<Longrightarrow> length (g buf) = n"
    and "0 < n" "off + n \<le> k" "puts_fit k ps" "puts_clear off n ps" "puts_field off n ps (zeros n) = zeros n"
  shows "at off g (puts ps (zeros k)) = puts (ps @ [(off, g (zeros n))]) (zeros k)"
proof -
  have len: "length (puts ps (zeros k)) = k" using assms(5) by (simp add: length_puts)
  have "window off n (puts ps (zeros k)) = zeros n"
    using assms(3-7) by (simp add: window_puts window_zeros)
  then show ?thesis using at_region [OF g, of off "puts ps (zeros k)"] assms(4) len by (simp only: puts_snoc)
qed

lemmas header_fresh = at_fresh [of 4096 "write_header s" for s, OF write_header_take length_writers(1), folded header_bytes_def]
lemmas table_fresh = at_fresh [of 65536 "write_region_table MIB", OF write_region_table_take length_writers(2), folded table_bytes_def]
lemmas metadata_fresh = at_fresh [of MIB "write_metadata n" for n, OF write_metadata_take length_writers(3), folded metadata_bytes_def]

lemma vhdx_regions_puts: "vhdx_regions n = puts (region_puts n) (zeros FIRST_BLOCK_OFF)"
proof -
  have "put 0 (ascii ''vhdxfile'') (zeros FIRST_BLOCK_OFF) = puts [(0, ascii ''vhdxfile'')] (zeros FIRST_BLOCK_OFF)"
    by (simp add: puts.simps)
  then show ?thesis
    by (simp add: vhdx_regions_def region_puts_def header_fresh table_fresh [unfolded layout_consts]
        metadata_fresh [unfolded layout_consts] puts_fit_def puts_clear_def
        puts_field_def region_lengths layout_consts del: ascii_Cons)
qed

section \<open>The blocks and the BAT\<close>

text \<open>What a BAT entry says of the block \<open>chunk\<close> in the file \<open>f\<close>.\<close>

definition placed :: "bytes \<Rightarrow> bytes \<Rightarrow> nat \<Rightarrow> bool" where
  "placed f chunk e \<longleftrightarrow> e = 0 \<and> chunk = zeros MIB \<or>
     (\<exists>off. e = off + 6 \<and> off mod MIB = 0 \<and> FIRST_BLOCK_OFF \<le> off \<and> off + MIB \<le> length f \<and> window off MIB f = chunk)"

lemma placed_append: "placed f chunk e \<Longrightarrow> placed (f @ x) chunk e"
  unfolding placed_def by (auto simp: window_append1)

lemma payload_blocks_placed:
  assumes "payload_blocks chunks i bat (length out) out = (bat', out')" "\<forall>c \<in> set chunks. length c = MIB"
    and "i + length chunks \<le> length bat" "\<forall>j. i \<le> j \<longrightarrow> j < length bat \<longrightarrow> bat ! j = 0"
    and "length out mod MIB = 0" "FIRST_BLOCK_OFF \<le> length out"
  shows "\<exists>ext. out' = out @ ext \<and> length ext \<le> length chunks * MIB \<and> length bat' = length bat \<and>
    (\<forall>j < i. bat' ! j = bat ! j) \<and> (\<forall>j < length chunks. placed out' (chunks ! j) (bat' ! (i + j)))"
  using assms
proof (induction chunks arbitrary: i bat out)
  case (Cons c chunks)
  have lc: "length c = MIB" using Cons.prems(2) by simp
  show ?case
  proof (cases "list_all (\<lambda>b. b = 0) c")
    case True
    then have z: "c = zeros MIB" using lc by (intro nth_equalityI) (simp_all add: list_all_length)
    have run: "payload_blocks chunks (Suc i) bat (length out) out = (bat', out')"
      using True Cons.prems(1) by simp
    obtain ext where ext: "out' = out @ ext" "length ext \<le> length chunks * MIB" "length bat' = length bat"
      "\<forall>j < Suc i. bat' ! j = bat ! j" "\<forall>j < length chunks. placed out' (chunks ! j) (bat' ! (Suc i + j))"
      using Cons.IH [OF run] Cons.prems(2-6) by auto
    have "bat' ! i = 0" using ext(4) Cons.prems(3,4) by simp
    then have "placed out' ((c # chunks) ! j) (bat' ! (i + j))" if "j < length (c # chunks)" for j
      using that ext(5) z by (cases j) (auto simp: placed_def)
    then show ?thesis using ext by (intro exI [of _ ext]) auto
  next
    case False
    let ?bat = "bat[i := length out + 6]"
    have "length out - length out mod 2 ^ 20 = length out" using Cons.prems(5) by (simp add: MIB_def)
    then have run: "payload_blocks chunks (Suc i) ?bat (length (out @ c)) (out @ c) = (bat', out')"
      using False Cons.prems(1) lc by simp
    have mod: "length (out @ c) mod MIB = 0" using Cons.prems(5) lc by simp
    obtain ext where ext: "out' = (out @ c) @ ext" "length ext \<le> length chunks * MIB" "length bat' = length ?bat"
      "\<forall>j < Suc i. bat' ! j = ?bat ! j" "\<forall>j < length chunks. placed out' (chunks ! j) (bat' ! (Suc i + j))"
      using Cons.IH [OF run _ _ _ mod] Cons.prems(2-4,6) by auto
    have "placed (out @ c) c (length out + 6)"
      using Cons.prems(5,6) lc by (auto simp: placed_def window_def)
    then have here: "placed out' c (bat' ! i)"
      using ext(1,4) Cons.prems(3) placed_append [of "out @ c" c "length out + 6" ext] by simp
    have "placed out' ((c # chunks) ! j) (bat' ! (i + j))" if "j < length (c # chunks)" for j
      using that ext(5) here by (cases j) auto
    then show ?thesis using ext lc by (intro exI [of _ "c @ ext"]) auto
  qed
qed auto

lemma write_bat_put:
  "off + 8 * length bat \<le> length out \<Longrightarrow> write_bat bat off out = Inr (put off (concat (map (le_bytes 8) bat)) out)"
proof (induction bat arbitrary: off out)
  case (Cons e bat)
  have len: "length (put off (le_bytes 8 e) out) = length out" using Cons.prems by (simp add: length_put)
  have "length (concat (map (le_bytes 8) bat)) = 8 * length bat"
    using length_concat_fixed [of "map (le_bytes 8) bat" 8] by simp
  then have "put (off + 8) (concat (map (le_bytes 8) bat)) (put off (le_bytes 8 e) out) =
      put off (concat (map (le_bytes 8) (e # bat))) out"
    using put_put_adjacent [of off "le_bytes 8 e" "concat (map (le_bytes 8) bat)" out] Cons.prems by simp
  then show ?case using Cons.IH [of "off + 8" "put off (le_bytes 8 e) out"] Cons.prems len by simp
qed simp

text \<open>The file that is written: regions, BAT and blocks.\<close>

definition vhdx_file :: "bytes \<Rightarrow> nat list \<Rightarrow> bytes \<Rightarrow> bool" where
  "vhdx_file data bat f \<longleftrightarrow> length data = length bat * MIB \<and> length bat \<le> 4096 \<and> length f \<le> 4099 * MIB \<and>
     (\<exists>ext. f = puts (region_puts (length data) @ [(BAT_REGION_OFF, concat (map (le_bytes 8) bat))])
        (zeros FIRST_BLOCK_OFF) @ ext) \<and>
     (\<forall>j < length bat. placed f (window (j * MIB) MIB data) (bat ! j))"

lemma length_regions: "length (puts (region_puts n) (zeros FIRST_BLOCK_OFF)) = FIRST_BLOCK_OFF"
  by (simp add: length_puts region_puts_def puts_fit_def region_lengths layout_consts)

lemma placed_put:
  assumes "placed f chunk e" "off + length src \<le> FIRST_BLOCK_OFF" "FIRST_BLOCK_OFF \<le> length f"
  shows "placed (put off src f) chunk e"
  using assms unfolding placed_def by (auto simp: length_put window_put_disjoint)

lemma dynamic_vhdx_file:
  assumes "length data mod MIB = 0" "length data \<le> 4096 * MIB"
  shows "\<exists>bat f. dynamic_vhdx data = Inr f \<and> vhdx_file data bat f"
proof -
  let ?n = "length data div MIB" and ?pre = "puts (region_puts (length data)) (zeros FIRST_BLOCK_OFF)"
  have n: "?n * MIB = length data" "?n \<le> 4096"
    using assms by (auto simp: MIB_def)
  obtain bat out where run: "payload_blocks (chunks_exact MIB data) 0 (replicate ?n 0) (length ?pre) ?pre = (bat, out)"
    by (cases "payload_blocks (chunks_exact MIB data) 0 (replicate ?n 0) (length ?pre) ?pre")
  have inside: "MIB * i + MIB \<le> length data" if "i < ?n" for i
  proof -
    have "Suc i * MIB \<le> ?n * MIB" using that by (intro mult_le_mono1) simp
    then show ?thesis using n(1) by (simp add: mult.commute)
  qed
  obtain ext where ext: "out = ?pre @ ext" "length ext \<le> ?n * MIB" "length bat = ?n"
    "\<forall>j < ?n. placed out (chunks_exact MIB data ! j) (bat ! j)"
  proof -
    have "\<forall>c \<in> set (chunks_exact MIB data). length c = MIB" using inside by (auto simp: chunks_exact_def)
    moreover have "length ?pre mod MIB = 0" "FIRST_BLOCK_OFF \<le> length ?pre"
      by (simp_all only: length_regions) (simp_all add: layout_consts)
    ultimately have "\<exists>ext. out = ?pre @ ext \<and> length ext \<le> ?n * MIB \<and> length bat = ?n \<and>
        (\<forall>j < ?n. placed out (chunks_exact MIB data ! j) (bat ! j))"
      using payload_blocks_placed [OF run] by simp
    then show thesis using that by blast
  qed
  let ?bytes = "concat (map (le_bytes 8) bat)"
  have lb: "length ?bytes = 8 * ?n" using length_concat_fixed [of "map (le_bytes 8) bat" 8] ext(3) by simp
  have fit: "BAT_REGION_OFF + 8 * ?n \<le> FIRST_BLOCK_OFF" using n(2) by (simp add: layout_consts)
  have lo: "FIRST_BLOCK_OFF \<le> length out" by (simp add: ext(1) length_regions)
  let ?f = "put BAT_REGION_OFF ?bytes out"
  have "dynamic_vhdx data = Inr ?f"
    using assms(1) run write_bat_put [of BAT_REGION_OFF bat out] fit lo ext(3)
    by (simp add: dynamic_vhdx_def vhdx_regions_puts length_regions)
  moreover have "?f = put BAT_REGION_OFF ?bytes ?pre @ ext"
    using fit lb by (simp add: ext(1) put_def length_regions)
  moreover have "placed ?f (window (j * MIB) MIB data) (bat ! j)" if "j < ?n" for j
  proof -
    have "placed out (window (j * MIB) MIB data) (bat ! j)"
      using ext(4) that by (simp add: chunks_exact_def mult.commute [of MIB])
    then show ?thesis using fit lb lo by (intro placed_put) simp_all
  qed
  moreover have "length ?f \<le> 4099 * MIB"
  proof -
    have "length out \<le> 4099 * MIB"
      using ext(2) n(2) length_regions [of "length data"] by (simp add: ext(1)) (simp add: layout_consts)
    then show ?thesis using fit lb lo by (simp add: length_put)
  qed
  ultimately show ?thesis
    using n ext(3) by (intro exI [of _ bat] exI [of _ ?f]) (auto simp: vhdx_file_def puts_snoc)
qed

section \<open>Reading it back\<close>

definition opened_vhdx :: "bytes \<Rightarrow> nat list \<Rightarrow> bytes \<Rightarrow> vhdx" where
  "opened_vhdx data bat f = \<lparr>vx_file = f, vx_virtual_size = length data, vx_block_size = MIB, vx_chunk_ratio = 4096,
     vx_bat = map le_val (chunks_exact 8 (window BAT_REGION_OFF MIB f))\<rparr>"

lemma file_regions:
  assumes "vhdx_file data bat f"
  shows "FIRST_BLOCK_OFF \<le> length f" "window 0 8 f = ascii ''vhdxfile''" "window 65536 4096 f = header_bytes 2"
    "window 131072 4096 f = header_bytes 1" "window 196608 65536 f = table_bytes"
    "window METADATA_REGION_OFF MIB f = metadata_bytes (length data)"
    "window BAT_REGION_OFF (8 * length bat) f = concat (map (le_bytes 8) bat)"
proof -
  let ?ps = "region_puts (length data) @ [(BAT_REGION_OFF, concat (map (le_bytes 8) bat))]"
  obtain ext where f: "f = puts ?ps (zeros FIRST_BLOCK_OFF) @ ext" and n: "length bat \<le> 4096"
    using assms by (auto simp: vhdx_file_def)
  have lb: "length (concat (map (le_bytes 8) bat)) = 8 * length bat"
    using length_concat_fixed [of "map (le_bytes 8) bat" 8] by simp
  have fit: "puts_fit (length (zeros FIRST_BLOCK_OFF)) ?ps"
    using n by (simp add: puts_fit_def region_puts_def region_lengths layout_consts lb)
  have len: "length (puts ?ps (zeros FIRST_BLOCK_OFF)) = FIRST_BLOCK_OFF" using length_puts [OF fit] by simp
  then show "FIRST_BLOCK_OFF \<le> length f" by (simp add: f)
  have win: "window a k f = puts_field a k ?ps (window a k (zeros FIRST_BLOCK_OFF))"
    if "0 < k" "a + k \<le> FIRST_BLOCK_OFF" "puts_clear a k ?ps" for a k
    using window_puts [OF that(1) fit that(3)] that(2) len by (simp add: f window_append1)
  note ev = win puts_clear_def puts_field_def region_puts_def region_lengths layout_consts lb window_all' window_zeros
  show "window 0 8 f = ascii ''vhdxfile''" "window 65536 4096 f = header_bytes 2"
    "window 131072 4096 f = header_bytes 1" "window 196608 65536 f = table_bytes"
    "window METADATA_REGION_OFF MIB f = metadata_bytes (length data)"
    using n by (simp_all add: ev del: ascii_Cons)
  show "window BAT_REGION_OFF (8 * length bat) f = concat (map (le_bytes 8) bat)"
    using n by (cases "bat = []") (simp_all add: ev)
qed

lemma parse_vhdx_file:
  assumes "vhdx_file data bat f"
  shows "vhdx_parse f = Inr (opened_vhdx data bat f)"
proof -
  note r = file_regions [OF assms] and h = parse_header_bytes [of 2] parse_header_bytes [of 1]
  have len: "3145728 \<le> length f" using r(1) by (simp add: layout_consts)
  have d: "length data < 2 ^ 64" using assms by (simp add: vhdx_file_def MIB_def)
  have reads: "read_exact_at f 0 8 = Inr (ascii ''vhdxfile'')" "read_exact_at f 65536 4096 = Inr (header_bytes 2)"
    "read_exact_at f 131072 4096 = Inr (header_bytes 1)" "read_exact_at f 196608 65536 = Inr table_bytes"
    "read_exact_at f METADATA_REGION_OFF MIB = Inr (metadata_bytes (length data))"
    "read_exact_at f BAT_REGION_OFF MIB = Inr (window BAT_REGION_OFF MIB f)"
    using len r(2-6) by (simp_all add: read_exact_at_in layout_consts del: ascii_Cons)
  have "parse_best_header (header_bytes 2) (header_bytes 1) = Inr 2"
    using h(2,4) by (simp add: parse_best_header_def)
  moreover have "read_region_table f = Inr table_bytes"
    by (simp add: read_region_table_def reads(4) parse_table_bytes)
  moreover have "8388608 * 512 div MIB = 4096" by (simp add: MIB_def)
  ultimately show ?thesis
    using parse_metadata_bytes(2) [OF d]
    by (simp add: vhdx_parse_def reads parse_table_bytes vhdx_load_def opened_vhdx_def del: ascii_Cons)
qed

lemma opened_bat:
  assumes "vhdx_file data bat f" "j < length bat"
  shows "j < length (vx_bat (opened_vhdx data bat f))" "vx_bat (opened_vhdx data bat f) ! j = bat ! j"
proof -
  let ?raw = "window BAT_REGION_OFF MIB f"
  have n: "length bat \<le> 4096" "length f \<le> 4099 * MIB" "placed f (window (j * MIB) MIB data) (bat ! j)"
    using assms by (auto simp: vhdx_file_def)
  have len: "length ?raw = MIB" using file_regions(1) [OF assms(1)] by (simp add: layout_consts)
  then have j: "j < length ?raw div 8" using assms(2) n(1) by (simp add: MIB_def)
  then show "j < length (vx_bat (opened_vhdx data bat f))" by (simp add: opened_vhdx_def)
  have fit: "8 * j + 8 \<le> 8 * length bat" using assms(2) by simp
  then have "window (8 * j) 8 ?raw = window (8 * j) 8 (window BAT_REGION_OFF (8 * length bat) f)"
    using n(1) by (simp add: window_window MIB_def)
  also have "\<dots> = le_bytes 8 (bat ! j)"
    using window_concat_fixed [of "map (le_bytes 8) bat" 8 j] assms(2) file_regions(7) [OF assms(1)] by simp
  finally have "window (8 * j) 8 ?raw = le_bytes 8 (bat ! j)" .
  moreover have "bat ! j < 256 ^ 8" using n(2,3) by (auto simp: placed_def MIB_def)
  ultimately show "vx_bat (opened_vhdx data bat f) ! j = bat ! j"
    using j by (simp add: opened_vhdx_def chunks_exact_def)
qed

lemma vhdx_located:
  assumes "vhdx_file data bat f" "j < length bat"
  shows "(vhdx_locate (opened_vhdx data bat f) j = Inr Zero \<and> window (j * MIB) MIB data = zeros MIB) \<or>
    (\<exists>off. vhdx_locate (opened_vhdx data bat f) j = Inr (At off) \<and> off + MIB \<le> length f \<and>
      window off MIB f = window (j * MIB) MIB data)"
proof -
  have j: "j < 4096" "placed f (window (j * MIB) MIB data) (bat ! j)" using assms by (auto simp: vhdx_file_def)
  have idx: "payload_index 4096 j = j" using j(1) by (simp add: payload_index_def)
  have "vx_chunk_ratio (opened_vhdx data bat f) = 4096" by (simp add: opened_vhdx_def)
  then have loc: "vhdx_locate (opened_vhdx data bat f) j = (let entry = bat ! j; state = entry mod 8 in
      if state = 6 then Inr (At (entry - entry mod 2 ^ 20)) else if state = 7 then Inl InvalidData else Inr Zero)"
    using opened_bat [OF assms] j(1) idx by (simp add: vhdx_locate_def u64_lim_def Let_def)
  show ?thesis
  proof (cases "bat ! j = 0 \<and> window (j * MIB) MIB data = zeros MIB")
    case False
    then obtain off where off: "bat ! j = off + 6" "off mod MIB = 0" "off + MIB \<le> length f"
        "window off MIB f = window (j * MIB) MIB data"
      using j(2) by (auto simp: placed_def)
    obtain q where q: "off = 1048576 * q" using off(2) by (auto simp: MIB_def)
    have "(off + 6) mod 8 = 6" "(off + 6) mod 1048576 = 6" unfolding q by (presburger, simp)
    then show ?thesis using loc off by simp
  qed (use loc in simp)
qed

lemma vhdx_file_content:
  assumes "vhdx_file data bat f"
  shows "vhdx_valid (opened_vhdx data bat f)" "vhdx_content (opened_vhdx data bat f) = data"
proof -
  let ?v = "opened_vhdx data bat f"
  have d: "length data = length bat * MIB" "length bat \<le> 4096" "length f \<le> 4099 * MIB" using assms by (auto simp: vhdx_file_def)
  have sel: "vx_block_size ?v = MIB" "vx_file ?v = f" "vx_virtual_size ?v = length data" by (simp_all add: opened_vhdx_def)
  have blocks: "i < length bat" if "i * MIB < length data" for i using that d(1) by (simp add: MIB_def)
  have "case vhdx_locate ?v i of Inl e \<Rightarrow> False | Inr Zero \<Rightarrow> True
      | Inr (At base) \<Rightarrow> base + min MIB (length data - i * MIB) \<le> length f" if "i < div_ceil (length data) MIB" for i
  proof -
    have "i < length bat" using that d(1) by (simp add: div_ceil_def MIB_def)
    from vhdx_located [OF assms this] show ?thesis
      by (elim disjE exE conjE) (simp_all add: min.coboundedI1 le_trans [OF add_left_mono])
  qed
  moreover have lims: "0 < MIB" "length data < u64_lim" "length f < u64_lim"
    using d(2,3) by (simp_all add: d(1)) (simp_all add: MIB_def u64_lim_def)
  ultimately show "vhdx_valid ?v"
    using lims by (simp add: vhdx_valid_def units_mapped_def sel)
  have "unit_byte MIB (vhdx_locate ?v) f i = data ! i" if i: "i < length data" for i
  proof -
    let ?j = "i div MIB" and ?k = "i mod MIB"
    have e: "?j * MIB + ?k = i" by simp
    then have j: "?j < length bat" using blocks i by (metis le_add1 le_less_trans)
    have k: "?k < MIB" by (simp add: MIB_def)
    have "?j * MIB + MIB \<le> length data"
      using mult_le_mono1 [of "Suc ?j" "length bat" MIB] j d(1) by simp
    then have byte: "window (?j * MIB) MIB data ! ?k = data ! i"
      using k nth_window [of ?k MIB "?j * MIB" data] i by (simp only: e)
    from vhdx_located [OF assms j] show ?thesis
    proof
      assume z: "vhdx_locate ?v ?j = Inr Zero \<and> window (?j * MIB) MIB data = zeros MIB"
      then show ?thesis using byte k by (simp add: unit_byte_def)
    next
      assume "\<exists>off. vhdx_locate ?v ?j = Inr (At off) \<and> off + MIB \<le> length f \<and> window off MIB f = window (?j * MIB) MIB data"
      then obtain off where off: "vhdx_locate ?v ?j = Inr (At off)" "off + MIB \<le> length f"
          "window off MIB f = window (?j * MIB) MIB data" by blast
      have "window off MIB f ! ?k = f ! (off + ?k)" using k off(2) by (intro nth_window) simp_all
      then show ?thesis using off byte by (simp add: unit_byte_def)
    qed
  qed
  then show "vhdx_content ?v = data"
    by (intro nth_equalityI) (simp_all add: vhdx_content_def unit_bytes_def sel)
qed

lemma dynamic_vhdx_reads_back:
  assumes "length data mod MIB = 0" "length data \<le> 4096 * MIB"
  shows "\<exists>f v. dynamic_vhdx data = Inr f \<and> vhdx_parse f = Inr v \<and> vhdx_valid v \<and> vhdx_content v = data"
  using dynamic_vhdx_file [OF assms] parse_vhdx_file vhdx_file_content by blast

end
