(* ===== verification/Image_Safety.thy ===== *)
theory Image_Safety
  imports Backing
begin

text \<open>
  What arbitrary bytes in image files can do to the readers: opening any file by \<open>open_backing\<close>
  (the target of the fuzzer \<open>open_backing\<close>) and reading the store it gives, at any place, neither
  panics nor runs for ever. The exceptions are the two unchecked \<open>u64\<close> additions on the way of a VHDX
  read, which \<open>vhdx_overflows\<close> states; they do panic.
\<close>

definition calm :: "'a io \<Rightarrow> bool" where
  "calm r \<longleftrightarrow> r \<noteq> Inl Panicked \<and> r \<noteq> Inl Diverged"

named_theorems calm_intros \<open>the results that are neither a panic nor a loop\<close>

lemma calm_Inr [simp]: "calm (Inr x)"
  and calm_Inl [simp]: "calm (Inl e) \<longleftrightarrow> e \<noteq> Panicked \<and> e \<noteq> Diverged"
  by (simp_all add: calm_def)

lemma calm_case [calm_intros]:
  "calm r \<Longrightarrow> (\<And>x. r = Inr x \<Longrightarrow> calm (g x)) \<Longrightarrow> calm (case r of Inl e \<Rightarrow> Inl e | Inr x \<Rightarrow> g x)"
  by (cases r) auto

lemma calm_error: "calm r \<Longrightarrow> r = Inl e \<Longrightarrow> e \<noteq> Panicked \<and> e \<noteq> Diverged"
  by (simp add: calm_def)

section \<open>Opening\<close>

lemma calm_read_exact_at [calm_intros]: "calm (read_exact_at f off len)"
  by (simp add: read_exact_at_def)

lemma calm_footer [calm_intros]: "calm (footer_parse bs)"
  by (simp add: footer_parse_def Let_def)

lemma calm_read_footer [calm_intros]: "calm (read_footer f)"
  by (auto simp: read_footer_def intro: calm_intros)

lemma calm_load_bitmaps [calm_intros]: "calm (load_bitmaps f n bat)"
proof (induction bat)
  case (Cons entry bat)
  then show ?case by (auto split: sum.splits dest: calm_error calm_error [OF calm_read_exact_at])
qed simp

lemma calm_dynamic_parse [calm_intros]: "calm (dynamic_parse f)"
  by (auto simp: dynamic_parse_def Let_def intro!: calm_intros)

lemma calm_dynamic_open [calm_intros]: "calm (dynamic_open fs path)"
  by (auto simp: dynamic_open_def intro!: calm_intros split: option.splits)

lemma calm_fixed_open [calm_intros]: "calm (fixed_open fs path)"
  by (auto simp: fixed_open_def intro!: calm_intros split: option.splits)

lemma calm_open_layers [calm_intros]: "calm (open_layers fs vs paths)"
proof (induction paths)
  case (Cons path paths)
  have "calm (case dynamic_open fs path of Inl e \<Rightarrow> Inl e
      | Inr layer \<Rightarrow>
          if dv_virtual_size layer \<noteq> vs then Inl InvalidData
          else case open_layers fs vs paths of Inl e \<Rightarrow> Inl e
            | Inr layers \<Rightarrow> Inr (layer # layers))"
    using Cons by (auto intro!: calm_intros)
  then show ?case by simp
qed simp

lemma calm_chain_open [calm_intros]: "calm (chain_open fs base paths)"
  by (auto simp: chain_open_def intro!: calm_intros)

lemma calm_vhd_open [calm_intros]: "calm (vhd_open env path)"
  by (auto simp: vhd_open_def intro!: calm_intros split: option.splits)

lemma calm_vhd_layered [calm_intros]: "calm (vhd_layered env path)"
  by (auto simp: vhd_layered_def Let_def intro!: calm_intros)

lemma calm_parse_best_header [calm_intros]: "calm (parse_best_header h1 h2)"
  by (auto simp: parse_best_header_def split: sum.splits)

lemma calm_read_region_table [calm_intros]: "calm (read_region_table f)"
  using calm_read_exact_at [of f 262144 65536]
  by (auto simp: read_region_table_def split: sum.splits)

lemma calm_parse_region_table [calm_intros]: "calm (parse_region_table rt)"
  by (simp add: parse_region_table_def Let_def)

lemma calm_metadata_entries [calm_intros]: "calm (metadata_entries region is items)"
proof (induction "is" arbitrary: items)
  case (Cons i "is")
  have "calm (metadata_entry region i items)" by (simp add: metadata_entry_def Let_def)
  then show ?case using Cons.IH by (auto split: sum.splits)
qed simp

lemma calm_parse_metadata [calm_intros]: "calm (parse_metadata region)"
  by (auto simp: parse_metadata_def Let_def intro!: calm_intros split: option.splits)

lemma calm_vhdx_load [calm_intros]: "calm (vhdx_load f rg)"
  by (auto simp: vhdx_load_def Let_def intro!: calm_intros split: option.splits)

lemma calm_vhdx_parse [calm_intros]: "calm (vhdx_parse f)"
  by (auto simp: vhdx_parse_def intro!: calm_intros)

lemma calm_vhdx_open [calm_intros]: "calm (vhdx_open fs path)"
  by (auto simp: vhdx_open_def intro!: calm_intros split: option.splits)

lemma calm_open_backing: "calm (open_backing env path)"
  by (auto simp: open_backing_def raw_open_def intro!: calm_intros split: option.splits)

section \<open>Reading\<close>

definition safe_store :: "backing \<Rightarrow> bool" where
  "safe_store b \<longleftrightarrow> (\<forall>off len. calm (bs_read b off len))"

lemma calm_unit_loop:
  assumes "0 < u" "\<And>p n. calm (body p n)"
  shows "calm (unit_loop u body pos len)"
  using unit_loop_error [OF assms(1), of body pos len] calm_error [OF assms(2)]
  by (cases "unit_loop u body pos len") auto

text \<open>The loop only asks for pieces of the range, each within one unit.\<close>

lemma unit_loop_error_within:
  assumes "0 < u" "unit_loop u body pos len = Inl e"
  shows "\<exists>p n. body p n = Inl e \<and> 0 < n \<and> p + n \<le> pos + len"
  using assms(2)
proof (induction len arbitrary: pos rule: less_induct)
  case (less len)
  define n where "n = min (u - pos mod u) len"
  have ne: "len \<noteq> 0"
  proof
    assume "len = 0"
    with less.prems show False by (simp add: unit_loop.simps)
  qed
  have "pos mod u < u" using assms(1) by simp
  with ne have n: "0 < n" "len - n < len" "n \<le> len" by (auto simp: n_def)
  show ?case
  proof (cases "body pos n")
    case (Inl e')
    with less.prems ne n have "e' = e" by (simp add: unit_loop.simps [of _ _ pos] n_def [symmetric] Let_def)
    with Inl n show ?thesis by (intro exI [of _ pos] exI [of _ n]) simp
  next
    case (Inr chunk)
    with less.prems ne n have "unit_loop u body (pos + n) (len - n) = Inl e"
      by (simp add: unit_loop.simps [of _ _ pos] n_def [symmetric] Let_def split: sum.splits)
    with less.IH [OF n(2)] n(3) show ?thesis by fastforce
  qed
qed

lemma calm_raw_read: "calm (raw_read_at s off len)"
  by (simp add: raw_read_at_def calm_read_exact_at)

lemma calm_fixed_read: "calm (fixed_read_at s off len)"
  by (simp add: fixed_read_at_def calm_read_exact_at)

lemma calm_sector_offset:
  assumes "dynamic_wf d"
  shows "calm (sector_offset ign d s)" "calm (block_sector_offset d s)"
proof -
  have "sector_offset ign d s \<noteq> Inl Diverged"
    by (auto simp: sector_offset_def bat_entry_def block_bitmap_def Let_def split: sum.splits option.splits if_splits)
  then show "calm (sector_offset ign d s)" using sector_offset_no_panic [OF assms] by (simp add: calm_def)
  show "calm (block_sector_offset d s)"
    by (auto simp: block_sector_offset_def bat_entry_def Let_def)
qed

text \<open>Where a sector of an opened image lies is far below \<open>2 ^ 64\<close>, so adding a place inside it is safe.\<close>

definition dynamic_fit :: "dynamic_vhd \<Rightarrow> bool" where
  "dynamic_fit d \<longleftrightarrow> dynamic_wf d \<and> dv_block_size d < 2 ^ 32"

lemma dynamic_parse_fit:
  assumes "dynamic_parse f = Inr d"
  shows "dynamic_fit d"
proof -
  obtain hdr where "dv_block_size d = be_val (window 32 4 hdr)"
    using assms by (auto simp: dynamic_parse_def Let_def split: sum.splits if_splits)
  then show ?thesis using dynamic_parse_wf [OF assms] be_val_window_bound [of 32 4 hdr] by (simp add: dynamic_fit_def)
qed

lemma bitmap_size_bound:
  assumes "bs < 2 ^ 32"
  shows "bitmap_size_of bs \<le> 2 ^ 21"
proof -
  have "bs div SECTOR \<le> 2 ^ 23" using assms by (simp add: SECTOR_def)
  then have "div_ceil (bs div SECTOR) 8 \<le> 2 ^ 20" by (simp add: div_ceil_def)
  then have "div_ceil (div_ceil (bs div SECTOR) 8) SECTOR \<le> 2 ^ 11" by (simp add: div_ceil_def SECTOR_def)
  then show ?thesis by (simp add: bitmap_size_of_def Let_def SECTOR_def)
qed

lemma sector_offset_bound:
  assumes "dynamic_fit d" "sector_offset ign d s = Inr (Some off)"
  shows "off < 2 ^ 42"
proof -
  let ?i = "s div sectors_per_block d" and ?k = "s mod sectors_per_block d"
  have off: "off = phys_offset d (dv_bat d ! ?i) ?k" "?i < length (dv_bat d)"
    using assms(2)
    by (auto simp: sector_offset_def bat_entry_def block_bitmap_def Let_def split: sum.splits option.splits if_splits)
  have wf: "dynamic_wf d" "dv_block_size d < 2 ^ 32" using assms(1) by (simp_all add: dynamic_fit_def)
  have entry: "dv_bat d ! ?i < 2 ^ 32" and bm: "dv_bitmap_size d \<le> 2 ^ 21"
    using wf off(2) bitmap_size_bound [OF wf(2)] by (simp_all add: dynamic_wf_def)
  have "?k < sectors_per_block d" using sectors_per_block_pos [OF wf(1)] by simp
  moreover have "sectors_per_block d \<le> 2 ^ 23" using wf(2) by (simp add: sectors_per_block_def SECTOR_def)
  ultimately have "?k < 2 ^ 23" by linarith
  with entry bm show ?thesis by (simp add: off(1) phys_offset_def SECTOR_def)
qed

lemma calm_dynamic_read:
  assumes "dynamic_fit d"
  shows "calm (dynamic_read_at ign d off len)"
proof -
  have "calm (unit_chunk SECTOR (dv_locate ign d) (read_exact_at (dv_file d)) p n)" for p n
  proof (cases "sector_offset ign d (p div SECTOR)")
    case (Inl e)
    then show ?thesis
      using calm_error [OF calm_sector_offset(1) Inl] assms by (simp add: unit_chunk_def dv_locate_def dynamic_fit_def)
  next
    case (Inr r)
    show ?thesis
    proof (cases r)
      case (Some o1)
      have "p mod SECTOR < 512" by (simp add: SECTOR_def)
      then have "o1 + p mod SECTOR < u64_lim"
        using sector_offset_bound [OF assms] Inr Some by (fastforce simp: u64_lim_def)
      then show ?thesis using Inr Some by (simp add: unit_chunk_def dv_locate_def calm_read_exact_at)
    qed (simp add: Inr unit_chunk_def dv_locate_def)
  qed
  then have "calm (unit_loop SECTOR (unit_chunk SECTOR (dv_locate ign d) (read_exact_at (dv_file d))) off len)"
    by (intro calm_unit_loop) simp_all
  then show ?thesis by (simp add: dynamic_read_at_def read_units_def split: option.split)
qed

lemma calm_probe_layers:
  assumes "\<forall>l \<in> set ls. calm (look l)"
  shows "calm (probe_layers look ls)"
  using assms
proof (induction ls)
  case (Cons l ls)
  then show ?case by (cases "look l") (auto split: option.split)
qed simp

lemma calm_chain_read:
  assumes "\<forall>l \<in> set (cv_overlays c). dynamic_fit l" "safe_store (cv_base c)"
  shows "calm (chain_read_at ign c off len)"
proof -
  have look: "calm (probe_layers (\<lambda>l. sector_offset ign l s) (cv_overlays c))"
    "calm (probe_layers (\<lambda>l. block_sector_offset l s) (cv_overlays c))" for s
    using assms(1) by (intro calm_probe_layers; simp add: calm_sector_offset dynamic_fit_def)+
  have "calm (chain_chunk ign c p n)" for p n
    using look assms(2)
    by (auto simp: chain_chunk_def Let_def dv_read_phys_def safe_store_def intro!: calm_intros split: option.split)
  then have "calm (unit_loop SECTOR (chain_chunk ign c) off len)" by (intro calm_unit_loop) simp_all
  then show ?thesis by (simp add: chain_read_at_def)
qed

text \<open>
  The two unchecked additions on the way to byte \<open>p\<close> of a VHDX: the BAT slot of its block, and its
  place behind the block's BAT entry.
\<close>

definition vhdx_overflows :: "vhdx \<Rightarrow> nat \<Rightarrow> bool" where
  "vhdx_overflows v p \<longleftrightarrow>
     u64_lim \<le> payload_index (vx_chunk_ratio v) (p div vx_block_size v) \<or>
     (\<exists>base. vhdx_locate v (p div vx_block_size v) = Inr (At base) \<and> u64_lim \<le> base + p mod vx_block_size v)"

lemma vhdx_locate_calm: "\<not> vhdx_overflows v p \<Longrightarrow> calm (vhdx_locate v (p div vx_block_size v))"
  by (auto simp: vhdx_overflows_def vhdx_locate_def Let_def)

lemma calm_vhdx_read:
  assumes "\<forall>p < vx_virtual_size v. \<not> vhdx_overflows v p"
  shows "calm (vhdx_read_at v off len)"
proof (cases "off + len \<le> vx_virtual_size v \<and> 0 < vx_block_size v")
  case True
  let ?chunk = "unit_chunk (vx_block_size v) (vhdx_locate v) (read_exact_at (vx_file v))"
  have "e \<noteq> Panicked \<and> e \<noteq> Diverged" if "?chunk p n = Inl e" "0 < n" "p + n \<le> off + len" for p n e
  proof -
    have p: "\<not> vhdx_overflows v p" using assms that True by simp
    show ?thesis
    proof (cases "vhdx_locate v (p div vx_block_size v)")
      case (Inl e')
      then show ?thesis using that(1) calm_error [OF vhdx_locate_calm [OF p] Inl] by (simp add: unit_chunk_def)
    next
      case (Inr u)
      show ?thesis
      proof (cases u)
        case (At base)
        have "base + p mod vx_block_size v < u64_lim" using p Inr At by (simp add: vhdx_overflows_def not_le)
        then have "read_exact_at (vx_file v) (base + p mod vx_block_size v) n = Inl e"
          using that(1) Inr At by (simp add: unit_chunk_def)
        then show ?thesis by (rule calm_error [OF calm_read_exact_at])
      qed (use that(1) Inr in \<open>simp add: unit_chunk_def\<close>)
    qed
  qed
  then have "calm (unit_loop (vx_block_size v) ?chunk off len)"
    using True unit_loop_error_within [of "vx_block_size v" ?chunk off len]
    by (cases "unit_loop (vx_block_size v) ?chunk off len") fastforce+
  then show ?thesis by (simp add: vhdx_read_at_def read_units_def split: option.split)
qed (auto simp: vhdx_read_at_def read_units_def checked_add_u64_def)

text \<open>Either of them panics as soon as that byte is read.\<close>

lemma vhdx_overflow_panics:
  assumes "vhdx_wf v" "p < vx_virtual_size v" "vhdx_overflows v p"
  shows "vhdx_read_at v p 1 = Inl Panicked"
proof -
  let ?bs = "vx_block_size v"
  have bs: "0 < ?bs" using assms(1) is_power_of_two_pos by (simp add: vhdx_wf_def)
  have lim: "vx_virtual_size v < u64_lim" using assms(1) by (simp add: vhdx_wf_def u64_lim_def)
  have chunk: "unit_chunk ?bs (vhdx_locate v) (read_exact_at (vx_file v)) p 1 = Inl Panicked"
    using assms(3) unfolding vhdx_overflows_def
  proof
    assume "u64_lim \<le> payload_index (vx_chunk_ratio v) (p div ?bs)"
    then have "vhdx_locate v (p div ?bs) = Inl Panicked" by (simp add: vhdx_locate_def)
    then show ?thesis by (simp add: unit_chunk_def)
  qed (auto simp: unit_chunk_def)
  have "min (?bs - p mod ?bs) 1 = 1" using mod_less_divisor [OF bs, of p] by simp
  then have "unit_loop ?bs (unit_chunk ?bs (vhdx_locate v) (read_exact_at (vx_file v))) p 1 = Inl Panicked"
    using chunk by (simp only: unit_loop.simps [of ?bs _ p 1] Let_def) simp
  then show ?thesis using assms(2) lim bs by (simp add: vhdx_read_at_def read_units_def checked_add_u64_def)
qed

section \<open>Any file\<close>

lemma bs_read_box [simp]: "bs_read (box_dyn size_of read_at s) = read_at s"
  by (simp add: box_dyn_def)

lemma vhd_open_safe:
  assumes "vhd_open env path = Inr b"
  shows "safe_store b"
  using assms dynamic_parse_fit calm_dynamic_read calm_fixed_read
  by (auto simp: vhd_open_def safe_store_def dynamic_open_def split: option.splits sum.splits if_splits)

lemma open_layers_fit: "open_layers fs vs paths = Inr ls \<Longrightarrow> \<forall>l \<in> set ls. dynamic_fit l"
proof (induction paths arbitrary: ls)
  case (Cons path paths)
  then show ?case
    using dynamic_parse_fit
    by (auto simp: dynamic_open_def split: sum.splits option.splits if_splits)
qed simp

lemma vhd_layered_safe:
  assumes "vhd_layered env path = Inr b"
  shows "safe_store b"
proof -
  obtain base where base: "vhd_open env path = Inr base" using assms by (auto simp: vhd_layered_def split: sum.splits)
  note safe = vhd_open_safe [OF base]
  show ?thesis
  proof (cases "b = base")
    case False
    then obtain c where c: "chain_open (se_file env) base (increments_of env path) = Inr c"
        "b = box_dyn cv_virtual_size (chain_read_at (se_ignore_bitmap env)) c"
      using assms base by (auto simp: vhd_layered_def Let_def split: sum.splits if_splits)
    have "\<forall>l \<in> set (cv_overlays c). dynamic_fit l" "cv_base c = base"
      using c(1) open_layers_fit by (auto simp: chain_open_def split: sum.splits)
    then show ?thesis using calm_chain_read safe c(2) by (simp add: safe_store_def)
  qed (use safe in simp)
qed

text \<open>A store that opens is safe, or it is a VHDX with a byte that cannot be reached.\<close>

lemma open_backing_safe:
  assumes "open_backing env path = Inr b"
  shows "safe_store b \<or>
    (\<exists>f v p. se_file env path = Some f \<and> vhdx_parse f = Inr v \<and> p < vx_virtual_size v \<and> vhdx_overflows v p)"
proof -
  obtain f where f: "se_file env path = Some f"
    using assms by (auto simp: open_backing_def split: option.splits)
  have opened: "(\<exists>v. vhdx_parse f = Inr v \<and> b = box_dyn vx_virtual_size vhdx_read_at v) \<or> vhd_layered env path = Inr b \<or>
      (\<exists>s. b = box_dyn rf_size raw_read_at s)"
    using assms f unfolding open_backing_def vhdx_open_def by (simp split: sum.splits if_splits) blast+
  have "safe_store b" if "vhdx_parse f = Inr v" "b = box_dyn vx_virtual_size vhdx_read_at v"
      "\<forall>p < vx_virtual_size v. \<not> vhdx_overflows v p" for v
    using that calm_vhdx_read by (simp add: safe_store_def)
  moreover have "safe_store (box_dyn rf_size raw_read_at s)" for s by (simp add: safe_store_def calm_raw_read)
  ultimately show ?thesis using opened vhd_layered_safe f by blast
qed

lemma open_backing_overflow:
  assumes "open_backing env path = Inr b" "se_file env path = Some f" "vhdx_parse f = Inr v"
    and "p < vx_virtual_size v" "vhdx_overflows v p"
  shows "bs_read b p 1 = Inl Panicked"
proof -
  have "8 \<le> length f \<and> window 0 8 f = ascii ''vhdxfile''"
    using assms(3) by (auto simp: vhdx_parse_def read_exact_at_def split: if_splits sum.splits)
  then have "b = box_dyn vx_virtual_size vhdx_read_at v"
    using assms(1-3) by (simp add: open_backing_def vhdx_open_def)
  then show ?thesis using vhdx_overflow_panics [OF vhdx_parse_wf [OF assms(3)] assms(4,5)] by simp
qed

end
