(* ===== verification/Luns.thy ===== *)
theory Luns
  imports Scsi
begin

text \<open>
  Discovery of the units of a target: the list that REPORT LUNS returns against the addresses that
  commands are accepted at (\<open>report_luns\<close>, \<open>lun_number\<close> and \<open>execute\<close> of \<open>iscsi/scsi/mod.rs\<close>).
\<close>

definition present_luns :: "scsi_target \<Rightarrow> nat list" where
  "present_luns t = [i \<leftarrow> [0..<length (st_luns t)]. st_luns t ! i \<noteq> None]"

definition lun_entry :: "nat \<Rightarrow> bytes" where
  "lun_entry n = put 1 [of_nat n] (zeros 8)"

lemma length_lun_entry [simp]: "length (lun_entry n) = 8"
  by (simp add: lun_entry_def length_put)

lemma report_luns_data: "oc_data (report_luns t) =
    put 0 (be_bytes 4 (length (present_luns t) * 8)) (zeros 8) @ concat (map lun_entry (present_luns t))"
  by (simp add: report_luns_def present_luns_def lun_entry_def [abs_def] Let_def)

text \<open>The entries of the answer, as the initiator takes them apart: the list length, then 8 bytes each.\<close>

definition listed_luns :: "bytes \<Rightarrow> u64 list" where
  "listed_luns bs = map (\<lambda>i. of_nat (be_val (window (8 + 8 * i) 8 bs))) [0..<be_val (window 0 4 bs) div 8]"

text \<open>An entry is the number in the second byte, and a command at that address reaches that unit.\<close>

lemma lun_entry_eq: "lun_entry n = [0, of_nat n, 0, 0, 0, 0, 0, 0]"
  by (simp add: lun_entry_def put_def zeros_def numeral_eq_Suc)

lemma be_val_lun_entry: "n < 256 \<Longrightarrow> be_val (lun_entry n) = n * 2 ^ 48"
  by (simp add: lun_entry_eq be_val_def unat_of_nat)

lemma lun_number_div: "lun_number lun = (if unat lun div 2 ^ 56 \<noteq> 0 then None else Some (unat lun div 2 ^ 48 mod 256))"
proof -
  have "drop_bit 48 lun AND 0xff = take_bit 8 (drop_bit 48 lun)"
    by (simp add: take_bit_eq_mask mask_eq_exp_minus_1)
  moreover have "unat (take_bit 8 (drop_bit 48 lun)) = take_bit 8 (drop_bit 48 (unat lun))"
    by (simp only: unsigned_take_bit_eq unsigned_drop_bit_eq) (simp add: take_bit_drop_bit)
  ultimately have "unat (drop_bit 48 lun AND 0xff) = unat lun div 2 ^ 48 mod 256"
    by (simp add: drop_bit_eq_div take_bit_eq_mod)
  moreover have "unat (drop_bit 56 lun) = drop_bit 56 (unat lun)"
    using unsigned_less [of lun, where ?'a = nat]
    by (simp only: unsigned_drop_bit_eq) (simp add: take_bit_nat_eq_self)
  then have "drop_bit 56 lun = 0 \<longleftrightarrow> unat lun div 2 ^ 56 = 0" by (metis unat_eq_zero drop_bit_eq_div)
  ultimately show ?thesis by (simp only: lun_number_def)
qed

lemma lun_number_entry:
  assumes "n < 256"
  shows "lun_number (of_nat (n * 2 ^ 48)) = Some n"
proof -
  have "unat (of_nat (n * 2 ^ 48) :: u64) = n * 2 ^ 48" using assms by (simp only: unat_of_nat) simp
  then show ?thesis using assms by (simp only: lun_number_div) simp
qed

lemma lun_number_less: "lun_number lun = Some n \<Longrightarrow> n < 256"
  by (auto simp: lun_number_div split: if_splits)

lemma listed_luns_present:
  assumes "length (st_luns t) \<le> 256"
  shows "listed_luns (oc_data (report_luns t)) = map (\<lambda>n. of_nat (n * 2 ^ 48)) (present_luns t)"
proof -
  let ?ns = "present_luns t" and ?head = "put 0 (be_bytes 4 (length (present_luns t) * 8)) (zeros 8)"
  have lt: "n < 256" if "n \<in> set ?ns" for n using that assms by (auto simp: present_luns_def)
  have n: "length ?ns \<le> 256" using length_filter_le [of _ "[0..<length (st_luns t)]"] assms
    unfolding present_luns_def by (metis diff_zero length_upt le_trans)
  have head: "length ?head = 8" "be_val (window 0 4 (?head @ xs)) = length ?ns * 8" for xs
    using n by (simp_all add: length_put window_append1 window_put_same')
  have "be_val (window (8 + 8 * i) 8 (?head @ concat (map lun_entry ?ns))) = ?ns ! i * 2 ^ 48" if "i < length ?ns" for i
  proof -
    have "window (8 + 8 * i) 8 (?head @ concat (map lun_entry ?ns)) = lun_entry (?ns ! i)"
      using window_concat_fixed [of "map lun_entry ?ns" 8 i] that head(1) by (simp add: window_append2)
    then show ?thesis using lt that by (simp add: be_val_lun_entry)
  qed
  then show ?thesis
    unfolding report_luns_data listed_luns_def head(2) by (intro nth_equalityI) simp_all
qed

lemma lun_at_listed:
  assumes "length (st_luns t) \<le> 256"
  shows "(\<exists>lu. lun_at t lun = Some (n, lu)) \<longleftrightarrow> lun_number lun = Some n \<and> n \<in> set (present_luns t)"
  by (auto simp: lun_at_Some present_luns_def)

lemma listed_lun_reached:
  assumes "length (st_luns t) \<le> 256" "lun \<in> set (listed_luns (oc_data (report_luns t)))"
  shows "lun_at t lun \<noteq> None"
proof -
  obtain n where n: "n \<in> set (present_luns t)" "lun = of_nat (n * 2 ^ 48)"
    using assms(2) unfolding listed_luns_present [OF assms(1)] by auto
  then have "n < 256" using assms(1) by (auto simp: present_luns_def)
  then have "lun_number lun = Some n" using lun_number_entry n(2) by blast
  then show ?thesis using n(1) lun_at_listed [OF assms(1), of lun n] by auto
qed

lemma listed_luns_distinct:
  assumes "length (st_luns t) \<le> 256"
  shows "distinct (listed_luns (oc_data (report_luns t)))"
proof -
  have "inj_on (\<lambda>n. of_nat (n * 2 ^ 48) :: u64) (set (present_luns t))"
  proof (rule inj_onI)
    fix m n assume "m \<in> set (present_luns t)" "n \<in> set (present_luns t)"
    then have "m < 256" "n < 256" using assms by (auto simp: present_luns_def)
    moreover assume "(of_nat (m * 2 ^ 48) :: u64) = of_nat (n * 2 ^ 48)"
    ultimately show "m = n" using lun_number_entry by (metis option.inject)
  qed
  moreover have "distinct (present_luns t)" by (simp add: present_luns_def)
  ultimately show ?thesis by (simp only: listed_luns_present [OF assms] distinct_map)
qed

lemma reached_lun_listed:
  assumes "length (st_luns t) \<le> 256" "lun_at t lun = Some (n, lu)"
  shows "\<exists>lun' \<in> set (listed_luns (oc_data (report_luns t))). lun_at t lun' = Some (n, lu)"
proof -
  have n: "n \<in> set (present_luns t)" "n < 256"
    using assms lun_number_less by (auto simp: lun_at_Some present_luns_def)
  have "lun_at t (of_nat (n * 2 ^ 48)) = Some (n, lu)"
    using assms(2) lun_number_entry [OF n(2)] by (simp only: lun_at_Some)
  then show ?thesis using n(1) unfolding listed_luns_present [OF assms(1)] by auto
qed

end
