(* ===== verification/Session_Stages.thy ===== *)
theory Session_Stages
  imports System
begin

text \<open>
  The order of a session (\<open>handle\<close> of \<open>iscsi/session/mod.rs\<close>, \<open>login.rs\<close>): its requests one by one
  on a registry that other connections change in between, and what must have happened before a
  request can touch a disk.
\<close>

text \<open>The connection after a history of requests, each with the registry it met.\<close>

inductive session :: "(registry \<times> request) list \<Rightarrow> connection \<Rightarrow> bool" where
  start: "session [] connection_new"
| serve: "session h c \<Longrightarrow> handle r c q bhs = Inr (r', c', outs) \<Longrightarrow> session (h @ [(r, q)]) c'"

definition names_target :: "registry \<Rightarrow> login_request \<Rightarrow> nat \<Rightarrow> bool" where
  "names_target r q i \<longleftrightarrow> (\<exists>iqn. find (\<lambda>kv. fst kv = ascii ''TargetName'') (lq_text q) = Some (ascii ''TargetName'', iqn) \<and>
     registry_get r iqn = Some i)"

text \<open>The stages in the order a session goes through them.\<close>

instantiation stage :: linorder
begin

primrec stage_rank :: "stage \<Rightarrow> nat" where
  "stage_rank LoginStage = 0" | "stage_rank FullFeature = 1" | "stage_rank Closing = 2"

definition less_eq_stage :: "stage \<Rightarrow> stage \<Rightarrow> bool" where
  "a \<le> b \<longleftrightarrow> stage_rank a \<le> stage_rank b"

definition less_stage :: "stage \<Rightarrow> stage \<Rightarrow> bool" where
  "a < b \<longleftrightarrow> stage_rank a < stage_rank b"

instance
proof
  show "a = b" if "a \<le> b" "b \<le> a" for a b :: stage
    using that by (cases a; cases b) (simp_all add: less_eq_stage_def)
qed (auto simp: less_eq_stage_def less_stage_def)

end

lemma stage_le [simp]: "LoginStage \<le> s" "s \<le> Closing" by (cases s; simp add: less_eq_stage_def)+

lemma rejected_Inr: "rejected r c reason bhs = Inr (r', c', outs) \<longleftrightarrow>
    r' = r \<and> c' = bump_stat_sn c \<and> outs = [snd (reject_pdu c reason bhs)]"
  by (auto simp: rejected_def reject_pdu_def)

lemma bump_conn [simp]: "cn_stage (bump_stat_sn c) = cn_stage c" "cn_target (bump_stat_sn c) = cn_target c"
  by (simp_all add: bump_stat_sn_def)

section \<open>One request\<close>

lemma place_no_data: "\<forall>d. out \<noteq> DataInOut d \<Longrightarrow> place out b = b"
  by (cases out) auto

lemma fold_place_no_data: "\<forall>d. DataInOut d \<notin> set outs \<Longrightarrow> fold place outs b = b"
proof (induction outs arbitrary: b)
  case (Cons out outs)
  then have "place out b = b" by (intro place_no_data) auto
  then show ?case using Cons by simp
qed simp

lemma data_in_loop_conn:
  assumes "data_in_loop cmd bs seg c off n = Inr (c', outs)"
  shows "cn_stage c' = cn_stage c \<and> cn_target c' = cn_target c"
  using data_in_loop_state [OF assms] by auto

lemma finish_write_conn: "finish_write r c p = Inr (r', c', outs) \<Longrightarrow> cn_stage c' = cn_stage c \<and> cn_target c' = cn_target c"
  by (auto simp: finish_write_def split: sum.splits)

lemma begin_write_conn: "begin_write r c cmd bhs = Inr (r', c', outs) \<Longrightarrow> cn_stage c' = cn_stage c \<and> cn_target c' = cn_target c"
  by (auto simp: begin_write_def Let_def rejected_Inr dest: finish_write_conn split: if_splits)

lemma command_conn:
  assumes "handle_command r c cmd bhs = Inr (r', c', outs)"
  shows "cn_stage c' = cn_stage c \<and> cn_target c' = cn_target c"
proof -
  let ?c = "c\<lparr>cn_exp_cmd_sn := cn_exp_cmd_sn c + 1\<rparr>"
  have "cn_stage c' = cn_stage ?c \<and> cn_target c' = cn_target ?c"
    using assms begin_write_conn [of r ?c cmd bhs r' c' outs] data_in_loop_conn [of cmd _ _ ?c 0 0 c' outs]
    by (fastforce simp: handle_command_def Let_def rejected_Inr data_in_chunks_def split: if_splits sum.splits)
  then show ?thesis by simp
qed

lemma data_out_conn: "handle_data_out r c d bhs = Inr (r', c', outs) \<Longrightarrow> cn_stage c' = cn_stage c \<and> cn_target c' = cn_target c"
  by (auto simp: handle_data_out_def Let_def rejected_Inr dest: finish_write_conn split: if_splits option.splits)

lemma full_feature_conn: "handle_full_feature r c bhs q = Inr (r', c', outs) \<Longrightarrow>
    cn_target c' = cn_target c \<and> (cn_stage c' = cn_stage c \<or> cn_stage c' = Closing)"
  by (cases q) (auto simp: rejected_Inr handle_nop_def handle_text_def handle_task_mgmt_def handle_logout_def Let_def
      dest: command_conn data_out_conn)

lemma resolve_target_names:
  assumes "resolve_target r c q = Some t"
  shows "t = cn_target c \<or> (\<exists>i. t = Some i \<and> names_target r q i)"
    "t = None \<Longrightarrow> \<not> (lq_transit q \<and> lq_nsg q = 3)"
proof -
  have "k = ascii ''TargetName''" if "find (\<lambda>kv. fst kv = ascii ''TargetName'') (lq_text q) = Some (k, iqn)" for k iqn
    using that unfolding find_Some_iff by (metis fst_conv)
  then show "t = cn_target c \<or> (\<exists>i. t = Some i \<and> names_target r q i)"
    using assms
    by (cases "cn_target c"; cases "find (\<lambda>kv. fst kv = ascii ''TargetName'') (lq_text q)")
      (auto simp: resolve_target_def names_target_def split: option.splits if_splits simp del: ascii_Cons, metis)
  show "t = None \<Longrightarrow> \<not> (lq_transit q \<and> lq_nsg q = 3)"
    using assms by (auto simp: resolve_target_def split: option.splits if_splits simp del: ascii_Cons)
qed

lemma login_conn:
  assumes "handle_login r c q = Inr (r', c', outs)" "cn_stage c = LoginStage"
  shows "r' = r \<and> (\<exists>p. outs = [LoginOut p]) \<and>
    (cn_target c' = cn_target c \<or> (\<exists>i. cn_target c' = Some i \<and> names_target r q i)) \<and>
    (cn_stage c' = FullFeature \<longrightarrow> lq_transit q \<and> lq_nsg q = 3 \<and> cn_target c' \<noteq> None)"
proof -
  let ?c = "c\<lparr>cn_stat_sn := (if cn_stat_sn c = 0 then lq_exp_stat_sn q else cn_stat_sn c), cn_exp_cmd_sn := lq_cmd_sn q\<rparr>"
  show ?thesis
  proof (cases "resolve_target r ?c q")
    case None
    then show ?thesis using assms by (auto simp: handle_login_def login_fail_def Let_def)
  next
    case (Some t)
    then have "r' = r" "\<exists>p. outs = [LoginOut p]" "cn_target c' = t"
      "cn_stage c' = (if lq_transit q \<and> lq_nsg q = 3 then FullFeature else LoginStage)"
      using assms by (auto simp: handle_login_def Let_def)
    then show ?thesis using resolve_target_names [OF Some] by auto
  qed
qed

lemma handle_stages:
  assumes "handle r c q bhs = Inr (r', c', outs)"
  shows "cn_stage c \<le> cn_stage c'"
    "cn_stage c \<noteq> FullFeature \<Longrightarrow> r' = r \<and> (\<forall>d. DataInOut d \<notin> set outs)"
    "cn_target c' = cn_target c \<or> (\<exists>lq i. q = Login lq \<and> cn_target c' = Some i \<and> names_target r lq i)"
    "cn_stage c' = FullFeature \<Longrightarrow> cn_stage c = FullFeature \<or>
       (\<exists>lq. q = Login lq \<and> lq_transit lq \<and> lq_nsg lq = 3 \<and> cn_target c' \<noteq> None)"
proof -
  have "cn_stage c \<le> cn_stage c' \<and>
    (cn_stage c \<noteq> FullFeature \<longrightarrow> r' = r \<and> (\<forall>d. DataInOut d \<notin> set outs)) \<and>
    (cn_target c' = cn_target c \<or> (\<exists>lq i. q = Login lq \<and> cn_target c' = Some i \<and> names_target r lq i)) \<and>
    (cn_stage c' = FullFeature \<longrightarrow> cn_stage c = FullFeature \<or>
       (\<exists>lq. q = Login lq \<and> lq_transit lq \<and> lq_nsg lq = 3 \<and> cn_target c' \<noteq> None))"
  proof (cases "cn_stage c")
    case LoginStage
    show ?thesis
    proof (cases "\<exists>lq. q = Login lq")
      case True
      then obtain lq where q: "q = Login lq" by blast
      then have "handle_login r c lq = Inr (r', c', outs)" using assms LoginStage by (simp add: handle_def)
      from login_conn [OF this LoginStage] show ?thesis using q LoginStage by auto
    next
      case False
      then have "rejected r (c\<lparr>cn_stage := Closing\<rparr>) PROTOCOL_ERROR bhs = Inr (r', c', outs)"
        using assms LoginStage by (cases q) (simp_all add: handle_def)
      then show ?thesis using LoginStage by (auto simp: rejected_Inr reject_pdu_def)
    qed
  next
    case FullFeature
    then have "handle_full_feature r c bhs q = Inr (r', c', outs)" using assms by (simp add: handle_def)
    from full_feature_conn [OF this] show ?thesis using FullFeature by auto
  next
    case Closing
    then show ?thesis using assms by (auto simp: handle_def rejected_Inr reject_pdu_def)
  qed
  then show "cn_stage c \<le> cn_stage c'"
    "cn_stage c \<noteq> FullFeature \<Longrightarrow> r' = r \<and> (\<forall>d. DataInOut d \<notin> set outs)"
    "cn_target c' = cn_target c \<or> (\<exists>lq i. q = Login lq \<and> cn_target c' = Some i \<and> names_target r lq i)"
    "cn_stage c' = FullFeature \<Longrightarrow> cn_stage c = FullFeature \<or>
       (\<exists>lq. q = Login lq \<and> lq_transit lq \<and> lq_nsg lq = 3 \<and> cn_target c' \<noteq> None)"
    by blast+
qed

section \<open>The history\<close>

lemma session_target: "session h c \<Longrightarrow> cn_target c = Some i \<Longrightarrow> \<exists>r lq. (r, Login lq) \<in> set h \<and> names_target r lq i"
proof (induction arbitrary: i rule: session.induct)
  case start
  then show ?case by (simp add: connection_new_def)
next
  case (serve h c r q bhs r' c' outs)
  from handle_stages(3) [OF serve.hyps(2)] show ?case
  proof
    assume "cn_target c' = cn_target c"
    then show ?thesis using serve.IH [of i] serve.prems by auto
  next
    assume "\<exists>lq i. q = Login lq \<and> cn_target c' = Some i \<and> names_target r lq i"
    then show ?thesis using serve.prems by auto
  qed
qed

lemma session_full_feature: "session h c \<Longrightarrow> cn_stage c = FullFeature \<Longrightarrow>
    cn_target c \<noteq> None \<and> (\<exists>r lq. (r, Login lq) \<in> set h \<and> lq_transit lq \<and> lq_nsg lq = 3)"
proof (induction rule: session.induct)
  case start
  then show ?case by (simp add: connection_new_def)
next
  case (serve h c r q bhs r' c' outs)
  from handle_stages(4) [OF serve.hyps(2) serve.prems] show ?case
  proof
    assume full: "cn_stage c = FullFeature"
    then have "cn_target c' = cn_target c"
      using serve.hyps(2) full_feature_conn by (auto simp: handle_def)
    then show ?thesis using serve.IH [OF full] by auto
  qed auto
qed

text \<open>A request that changes a target or returns data was preceded by the login it needs, and stays on that target.\<close>

lemma session_access:
  assumes "session h c" "handle r c q bhs = Inr (r', c', outs)" "r' \<noteq> r \<or> (\<exists>d. DataInOut d \<in> set outs)"
  shows "\<exists>i. cn_target c = Some i \<and> (\<exists>r0 lq. (r0, Login lq) \<in> set h \<and> names_target r0 lq i) \<and>
    (\<exists>r0 lq. (r0, Login lq) \<in> set h \<and> lq_transit lq \<and> lq_nsg lq = 3) \<and>
    (\<forall>j. j \<noteq> i \<longrightarrow> reg_heap r' ! j = reg_heap r ! j)"
proof -
  have full: "cn_stage c = FullFeature" using handle_stages(2) [OF assms(2)] assms(3) by blast
  then obtain i where i: "cn_target c = Some i" using session_full_feature [OF assms(1)] by blast
  have "r' = r \<or> (\<exists>cmd bs oc. run_target r c cmd bs = Inr (r', oc))"
    using ran_handle [of r c q bhs] assms(2) by (simp add: ran_def)
  moreover have "reg_heap r2 ! j = reg_heap r ! j" if "run_target r c cmd bs = Inr (r2, oc)" "j \<noteq> i" for r2 cmd bs oc j
    using that i by (cases "execute (reg_heap r ! i) cmd bs") (auto simp: run_target_def split: sum.splits)
  ultimately have "\<forall>j. j \<noteq> i \<longrightarrow> reg_heap r' ! j = reg_heap r ! j" by auto
  then show ?thesis using session_target [OF assms(1) i] session_full_feature [OF assms(1) full] i by blast
qed

end
