(* ===== verification/Testkit.thy ===== *)
theory Testkit
  imports Session_Stages
begin

text \<open>
  The in-process initiator of the integration tests (\<open>iscsi/testkit.rs\<close>): its PDU builders and \<open>step\<close>, which
  decodes one PDU and hands it to the connection. Each PDU decodes to the request it stands for, and
  the cycle of the integration test (log in, write, read back, log out) is proved for
  every target, range and payload.
\<close>

section \<open>Building PDUs\<close>

definition kit_put32 :: "nat \<Rightarrow> u32 \<Rightarrow> bytes \<Rightarrow> bytes" where
  "kit_put32 off v h = put off (be_bytes 4 (unat v)) h"

primrec kit_keys :: "text_pairs \<Rightarrow> bytes \<Rightarrow> bytes" where
  "kit_keys [] out = out"
| "kit_keys (kv # keys) out = kit_keys keys (((out @ fst kv) @ [61]) @ snd kv @ [0])"

lemma pad4_Suc: "n mod 4 \<noteq> 0 \<Longrightarrow> pad4 n = Suc (pad4 (Suc n))"
proof -
  assume "n mod 4 \<noteq> 0"
  moreover have "n mod 4 < 4" by simp
  ultimately consider "n mod 4 = 1" | "n mod 4 = 2" | "n mod 4 = 3" by linarith
  then show ?thesis by cases (simp_all add: pad4_def mod_Suc)
qed

function kit_pad :: "bytes \<Rightarrow> bytes" where
  "kit_pad pdu = (if length pdu mod 4 = 0 then pdu else kit_pad (pdu @ [0]))"
  by auto
termination by (relation "measure (\<lambda>pdu. pad4 (length pdu))") (simp_all add: pad4_Suc)

declare kit_pad.simps [simp del]

definition kit_frame :: "bytes \<Rightarrow> bytes \<Rightarrow> bytes" where
  "kit_frame h data =
     (let len = length data mod 2 ^ 32;
          h = h[5 := of_nat (len div 2 ^ 16), 6 := of_nat (len div 2 ^ 8), 7 := of_nat len] in
      kit_pad (h @ data))"

definition login_pdu :: "bool \<Rightarrow> u8 \<Rightarrow> u8 \<Rightarrow> text_pairs \<Rightarrow> bytes" where
  "login_pdu transit csg nsg keys =
     (let h = (zeros BHS_LEN)[0 := 0x03];
          h = (if transit then h[1 := h ! 1 OR 0x80] else h);
          h = h[1 := h ! 1 OR push_bit 2 (csg AND 3)];
          h = h[1 := h ! 1 OR nsg AND 3];
          h = h[13 := 1];
          h = kit_put32 16 1 h in
      kit_frame h (kit_keys keys []))"

definition read10_pdu :: "u32 \<Rightarrow> u32 \<Rightarrow> u16 \<Rightarrow> bytes" where
  "read10_pdu itt lba blocks =
     (let h = (zeros BHS_LEN)[0 := 0x01, 1 := 0xC0];
          h = kit_put32 20 (of_nat (unat blocks * 512)) (kit_put32 16 itt h);
          h = h[32 := 0x28];
          h = put 39 (be_bytes 2 (unat blocks)) (put 34 (be_bytes 4 (unat lba)) h) in
      kit_frame h [])"

definition write10_immediate_pdu :: "u32 \<Rightarrow> u32 \<Rightarrow> u16 \<Rightarrow> bytes \<Rightarrow> bytes" where
  "write10_immediate_pdu itt lba blocks data =
     (let h = (zeros BHS_LEN)[0 := 0x01, 1 := 0xA0];
          h = kit_put32 20 (of_nat (length data)) (kit_put32 16 itt h);
          h = h[32 := 0x2a];
          h = put 39 (be_bytes 2 (unat blocks)) (put 34 (be_bytes 4 (unat lba)) h) in
      kit_frame h data)"

definition logout_pdu :: "u32 \<Rightarrow> bytes" where
  "logout_pdu itt =
     (let h = (zeros BHS_LEN)[0 := 0x06, 1 := 0x80] in kit_frame (kit_put32 16 itt h) [])"

text \<open>\<open>expect\<close> panics on a PDU that does not decode.\<close>

definition kit_step :: "registry \<Rightarrow> connection \<Rightarrow> bytes \<Rightarrow> handled" where
  "kit_step r c pdu =
     (case decode pdu of
        Inl e \<Rightarrow> Inl Panicked
      | Inr (req, used) \<Rightarrow> if length pdu < BHS_LEN then Inl Panicked else handle r c req (take BHS_LEN pdu))"

section \<open>What the PDUs stand for\<close>

lemma kit_keys_pairs: "kit_keys keys out = out @ encode_pairs keys"
  by (induction keys arbitrary: out) (simp_all add: encode_pairs_def case_prod_beta)

lemma kit_pad_eq: "kit_pad pdu = pdu @ zeros (pad4 (length pdu))"
proof (induction pdu rule: kit_pad.induct)
  case (1 pdu)
  show ?case
  proof (cases "length pdu mod 4 = 0")
    case True
    then show ?thesis by (subst kit_pad.simps) (simp add: pad4_def zeros_def)
  next
    case False
    have "kit_pad pdu = kit_pad (pdu @ [0])" using False by (subst kit_pad.simps) simp
    then show ?thesis using 1 [OF False] pad4_Suc [OF False] by (simp add: zeros_def)
  qed
qed

lemma list_update_put: "i < length h \<Longrightarrow> h[i := b] = put i [b] h"
  by (simp add: put_def upd_conv_take_nth_drop)

lemma kit_frame_eq:
  assumes "length h = BHS_LEN" "length data \<le> MAX_DATA_SEGMENT"
  shows "kit_frame h data = frame h data"
proof -
  have "h[5 := of_nat (length data div 2 ^ 16), 6 := of_nat (length data div 2 ^ 8), 7 := of_nat (length data)]
      = put 5 (be_bytes 3 (length data)) h"
    using assms(1)
    by (intro nth_equalityI) (auto simp: length_put nth_put nth_list_update BHS_LEN_def numeral_3_eq_3 nth_append less_Suc_eq div_mult2_eq [symmetric])
  moreover have "length data mod 2 ^ 32 = length data" using assms(2) by (simp add: MAX_DATA_SEGMENT_def)
  moreover have "(48 + n) mod 4 = n mod 4" for n :: nat by presburger
  ultimately show ?thesis
    using assms(1) by (simp add: kit_frame_def Let_def kit_pad_eq frame_def length_put BHS_LEN_def pad4_def)
qed

lemma be_val_zeros: "be_val (zeros n) = 0"
  by (induction n) (simp_all add: zeros_def be_val_def)

lemma be_val_u32: "of_nat (be_val (be_bytes 4 (unat v))) = (v :: u32)"
  using unsigned_less [of v, where ?'a = nat] by simp

lemma window_put_within:
  "off \<le> a \<Longrightarrow> a + length src \<le> off + n \<Longrightarrow> off + n \<le> length d \<Longrightarrow>
    window off n (put a src d) = put (a - off) src (window off n d)"
  by (rule nth_equalityI) (auto simp: length_window length_put nth_put add.commute)

lemmas kit_eval = kit_put32_def list_update_put length_put puts.simps BHS_LEN_def

definition login_flags_byte :: "bool \<Rightarrow> u8 \<Rightarrow> u8 \<Rightarrow> u8" where
  "login_flags_byte transit csg nsg = flag transit 0x80 OR flag False 0x40 OR push_bit 2 (csg AND 3) OR nsg AND 3"

lemma login_header: "(let h = (zeros BHS_LEN)[0 := 0x03];
      h = (if transit then h[1 := h ! 1 OR 0x80] else h);
      h = h[1 := h ! 1 OR push_bit 2 (csg AND 3)]; h = h[1 := h ! 1 OR nsg AND 3]; h = h[13 := 1] in
      kit_put32 16 1 h) =
    puts [(0, [0x03]), (1, [login_flags_byte transit csg nsg]), (13, [1]), (16, be_bytes 4 1)] (zeros 48)"
  by (simp add: kit_put32_def puts.simps Let_def login_flags_byte_def flag_def zeros_def BHS_LEN_def nth_list_update or.assoc flip: list_update_put)

definition command_header :: "u8 \<Rightarrow> u32 \<Rightarrow> nat \<Rightarrow> u8 \<Rightarrow> u32 \<Rightarrow> u16 \<Rightarrow> bytes" where
  "command_header flags itt edtl op lba blocks =
     puts [(0, [0x01]), (1, [flags]), (16, be_bytes 4 (unat itt)), (20, be_bytes 4 edtl), (32, [op]),
       (34, be_bytes 4 (unat lba)), (39, be_bytes 2 (unat blocks))] (zeros 48)"

definition cdb10 :: "u8 \<Rightarrow> u32 \<Rightarrow> u16 \<Rightarrow> bytes" where
  "cdb10 op lba blocks = puts [(0, [op]), (2, be_bytes 4 (unat lba)), (7, be_bytes 2 (unat blocks))] (zeros 16)"

lemma command_header_cdb: "window 32 16 (command_header flags itt edtl op lba blocks) = cdb10 op lba blocks"
  by (simp add: command_header_def cdb10_def puts.simps window_put_within window_put_disjoint length_put window_zeros)

text \<open>The requests.\<close>

definition kit_login :: "bool \<Rightarrow> u8 \<Rightarrow> u8 \<Rightarrow> text_pairs \<Rightarrow> login_request" where
  "kit_login transit csg nsg keys = \<lparr>lq_transit = transit, lq_continue = False, lq_csg = csg AND 3, lq_nsg = nsg AND 3,
     lq_version_max = 0, lq_version_min = 0, lq_isid = [0, 0, 0, 0, 0, 1], lq_tsih = 0, lq_itt = 1, lq_cid = 0,
     lq_cmd_sn = 0, lq_exp_stat_sn = 0, lq_text = keys\<rparr>"

definition kit_command :: "bool \<Rightarrow> u32 \<Rightarrow> nat \<Rightarrow> u8 \<Rightarrow> u32 \<Rightarrow> u16 \<Rightarrow> bytes \<Rightarrow> scsi_command" where
  "kit_command write itt edtl op lba blocks data = \<lparr>sc_final = True, sc_read = \<not> write, sc_write = write, sc_attr = 0,
     sc_lun = 0, sc_itt = itt, sc_edtl = of_nat edtl, sc_cmd_sn = 0, sc_exp_stat_sn = 0, sc_cdb = cdb10 op lba blocks,
     sc_data = data\<rparr>"

definition kit_logout :: "u32 \<Rightarrow> logout_request" where
  "kit_logout itt = \<lparr>lo_reason = 0, lo_itt = itt, lo_cid = 0, lo_cmd_sn = 0, lo_exp_stat_sn = 0\<rparr>"

lemma and_3_less: "(x :: u8) AND 3 < 4"
  using word_and_le1 [of x 3] by (simp add: word_le_nat_alt word_less_nat_alt)

lemma decode_login_pdu:
  assumes "list_all text_pair_ok keys" "length (encode_pairs keys) \<le> MAX_DATA_SEGMENT"
  shows "decode (login_pdu transit csg nsg keys) =
    Inr (Login (kit_login transit csg nsg keys), length (login_pdu transit csg nsg keys))"
proof -
  let ?data = "encode_pairs keys"
  define h where "h = puts [(0, [0x03]), (1, [login_flags_byte transit csg nsg]), (13, [1]), (16, be_bytes 4 1)] (zeros 48)"
  have len: "length h = 48" by (simp add: h_def bhs_eval)
  have pdu: "login_pdu transit csg nsg keys = frame h ?data"
    using assms(2) login_header [of transit csg nsg] len
    by (simp add: login_pdu_def Let_def kit_keys_pairs kit_frame_eq h_def BHS_LEN_def)
  have "window 8 6 h = put 5 [1] (zeros 6)"
    by (simp add: h_def puts.simps window_put_within window_put_disjoint length_put window_zeros)
  also have "\<dots> = [0, 0, 0, 0, 0, 1]" by (simp add: put_def zeros_def numeral_eq_Suc)
  finally have isid: "window 8 6 (put 5 (be_bytes 3 (length ?data)) h) = [0, 0, 0, 0, 0, 1]"
    using len by (simp add: window_put_disjoint)
  have "h ! 4 = 0" by (simp add: h_def bhs_eval)
  then have "decode (frame h ?data) = Inr (decode_request (put 5 (be_bytes 3 (length ?data)) h) ?data, length (frame h ?data))"
    using decode_frame [of h ?data "[]"] len assms(2) by (simp add: BHS_LEN_def)
  moreover have "decode_request (put 5 (be_bytes 3 (length ?data)) h) ?data = Login (kit_login transit csg nsg keys)"
    using isid assms(1) login_flags [of "csg AND 3" "nsg AND 3" transit False] and_3_less
    by (simp add: decode_request_def h_def bhs_eval kit_login_def login_flags_byte_def parse_encode_pairs
        window_zeros be_val_zeros)
  ultimately show ?thesis by (simp only: pdu)
qed

lemma command_pdu:
  assumes "length data \<le> MAX_DATA_SEGMENT" "edtl < 2 ^ 32"
    and flags: "has_bit flags 0x80" "has_bit flags 0x40 = (\<not> write)" "has_bit flags 0x20 = write" "flags AND 7 = 0"
  shows "decode (frame (command_header flags itt edtl op lba blocks) data) =
    Inr (ScsiCommand (kit_command write itt edtl op lba blocks data),
      length (frame (command_header flags itt edtl op lba blocks) data))"
proof -
  let ?h = "command_header flags itt edtl op lba blocks"
  have len: "length ?h = 48" by (simp add: command_header_def bhs_eval)
  have cdb: "window 32 16 (put 5 (be_bytes 3 (length data)) ?h) = cdb10 op lba blocks"
    using len command_header_cdb by (simp add: window_put_disjoint)
  have "?h ! 4 = 0" by (simp add: command_header_def bhs_eval)
  then have "decode (frame ?h data) = Inr (decode_request (put 5 (be_bytes 3 (length data)) ?h) data, length (frame ?h data))"
    using decode_frame [of ?h data "[]"] len assms(1) by (simp add: BHS_LEN_def)
  moreover have "decode_request (put 5 (be_bytes 3 (length data)) ?h) data =
      ScsiCommand (kit_command write itt edtl op lba blocks data)"
    using cdb flags assms(2)
    by (simp add: decode_request_def command_header_def bhs_eval kit_command_def window_zeros be_val_zeros be64_def be_val_u32)
  ultimately show ?thesis by simp
qed

lemma decode_read10_pdu: "decode (read10_pdu itt lba blocks) =
    Inr (ScsiCommand (kit_command False itt (unat blocks * 512) 0x28 lba blocks []), length (read10_pdu itt lba blocks))"
proof -
  have lim: "unat blocks * 512 < 2 ^ 32" using unsigned_less [of blocks, where ?'a = nat] by simp
  then have edtl: "unat (of_nat (unat blocks * 512) :: u32) = unat blocks * 512" by (simp only: unat_of_nat) simp
  have "read10_pdu itt lba blocks = frame (command_header 0xC0 itt (unat blocks * 512) 0x28 lba blocks) []"
    using edtl by (simp only: read10_pdu_def Let_def) (simp add: kit_frame_eq kit_eval command_header_def)
  moreover have "has_bit 0xC0 0x80" "has_bit 0xC0 0x40" "\<not> has_bit 0xC0 0x20" "(0xC0 :: u8) AND 7 = 0"
    by (simp_all add: has_bit_def)
  ultimately show ?thesis using command_pdu [of "[]" "unat blocks * 512" "0xC0" False] lim by simp
qed

lemma decode_write10_pdu:
  assumes "length data \<le> MAX_DATA_SEGMENT"
  shows "decode (write10_immediate_pdu itt lba blocks data) =
    Inr (ScsiCommand (kit_command True itt (length data) 0x2a lba blocks data), length (write10_immediate_pdu itt lba blocks data))"
proof -
  have lim: "length data < 2 ^ 32" using assms by (simp add: MAX_DATA_SEGMENT_def)
  have "write10_immediate_pdu itt lba blocks data = frame (command_header 0xA0 itt (length data) 0x2a lba blocks) data"
    using lim assms by (simp add: write10_immediate_pdu_def Let_def kit_frame_eq kit_eval command_header_def unat_of_nat)
  moreover have "has_bit 0xA0 0x80" "\<not> has_bit 0xA0 0x40" "has_bit 0xA0 0x20" "(0xA0 :: u8) AND 7 = 0"
    by (simp_all add: has_bit_def)
  ultimately show ?thesis using command_pdu [OF assms lim, of "0xA0" True] by simp
qed

lemma decode_logout_pdu: "decode (logout_pdu itt) = Inr (Logout (kit_logout itt), length (logout_pdu itt))"
proof -
  have "logout_pdu itt = frame (puts [(0, [0x06]), (1, [0x80]), (16, be_bytes 4 (unat itt))] (zeros 48)) []"
    by (simp add: logout_pdu_def Let_def kit_frame_eq kit_eval)
  then show ?thesis
    using decode_frame [of "puts [(0, [0x06]), (1, [0x80]), (16, be_bytes 4 (unat itt))] (zeros 48)" "[]" "[]"]
    by (simp add: decode_request_def bhs_eval kit_logout_def window_zeros be_val_zeros be_val_u32)
qed

section \<open>The cycle of the integration test\<close>

lemma kit_step_decoded:
  assumes "decode pdu = Inr (req, n)"
  shows "kit_step r c pdu = handle r c req (take BHS_LEN pdu)"
  using assms decode_consumed [OF assms] by (simp add: kit_step_def)

lemma immediate_write_turn:
  assumes "cn_stage c = FullFeature" "cn_target c \<noteq> None" "sc_write cmd" "length (sc_data cmd) = unat (sc_edtl cmd)"
  shows "run_write r c cmd bhs (sc_data cmd) = handle r c (ScsiCommand cmd) bhs"
proof -
  have "length (sc_data cmd) < 2 ^ 32" using assms(4) unsigned_less [of "sc_edtl cmd", where ?'a = nat] by simp
  then have "length (sc_data cmd) mod 2 ^ 32 = length (sc_data cmd)" by simp
  then show ?thesis
    using assms
    by (auto simp: run_write_def handle_def handle_command_def begin_write_def finish_write_def scsi_resp_def Let_def split: sum.splits)
qed

lemma cdb10_fields:
  "cdb10 op lba blocks ! 0 = op" "lba32 (cdb10 op lba blocks) = unat lba" "len16 (cdb10 op lba blocks) = unat blocks"
proof -
  have "unat lba < 256 ^ 4" "unat blocks < 256 ^ 2"
    using unsigned_less [of lba, where ?'a = nat] unsigned_less [of blocks, where ?'a = nat] by simp_all
  then show "cdb10 op lba blocks ! 0 = op" "lba32 (cdb10 op lba blocks) = unat lba" "len16 (cdb10 op lba blocks) = unat blocks"
    by (simp_all add: cdb10_def lba32_def len16_def bhs_eval)
qed

text \<open>The login of the kit: full feature on the named target, with the default parameters and nothing in flight.\<close>

lemma kit_login_turn:
  assumes "registry_inv r" "registry_get r iqn = Some i" "q = kit_login True 0 3 [(ascii ''TargetName'', iqn)]"
  shows "\<exists>c o1. handle r connection_new (Login q) bhs = Inr (r, c, [LoginOut o1]) \<and> conn_inv r c \<and>
    cn_stage c = FullFeature \<and> cn_target c = Some i \<and> cn_params c = params_default \<and> cn_in_flight c itt = None"
proof -
  have q: "find (\<lambda>kv. fst kv = ascii ''TargetName'') (lq_text q) = Some (ascii ''TargetName'', iqn)" "lq_transit q" "lq_nsg q = 3"
    by (simp_all add: assms(3) kit_login_def)
  have new: "cn_stage connection_new = LoginStage" "cn_target connection_new = None" by (simp_all add: connection_new_def)
  obtain c o1 where c: "handle r connection_new (Login q) bhs = Inr (r, c, [LoginOut o1])" "cn_stage c = FullFeature" "cn_target c = Some i"
    using login_finds [OF assms(2) new q] by blast
  have "negotiate (ascii ''TargetName'', iqn) p = p" for p by (simp add: negotiate_def)
  then have "cn_params c = params_default" "cn_in_flight c itt = None"
    using c(1) new
    by (auto simp: handle_def handle_login_def Let_def login_fail_def bump_stat_sn_def connection_new_def kit_login_def assms(3)
        split: option.splits simp del: ascii_Cons)
  moreover have "conn_inv r c"
    using good_handle [OF assms(1) conn_inv_new, of "Login q" bhs] c(1) by (simp add: good_step_def)
  ultimately show ?thesis using c by blast
qed

lemma kit_cycle:
  assumes r: "registry_inv r" "registry_get r iqn = Some i" "lun_at (reg_heap r ! i) 0 = Some (n, lu)"
    and iqn: "text_pair_ok (ascii ''TargetName'', iqn)" "length iqn \<le> 200000"
    and ext: "0 < unat blocks" "unat lba + unat blocks \<le> lu_capacity lu"
      "length payload = unat blocks * lu_block_size lu" "length payload \<le> MAX_DATA_SEGMENT"
  shows "\<exists>c1 o1 r2 c2 p c3 outs c4 o4.
    kit_step r connection_new (login_pdu True 0 3 [(ascii ''TargetName'', iqn)]) = Inr (r, c1, [LoginOut o1]) \<and>
    cn_stage c1 = FullFeature \<and>
    kit_step r c1 (write10_immediate_pdu itt lba blocks payload) = Inr (r2, c2, [ScsiRespOut p]) \<and> sr_status p = GOOD \<and>
    kit_step r2 c2 (read10_pdu itt' lba blocks) = Inr (r2, c3, outs) \<and> fold place outs (zeros (length payload)) = payload \<and>
    kit_step r2 c3 (logout_pdu itt'') = Inr (r2, c4, [LogoutOut o4]) \<and> cn_stage c4 = Closing"
proof -
  let ?q = "kit_login True 0 3 [(ascii ''TargetName'', iqn)]" and ?pdu = "login_pdu True 0 3 [(ascii ''TargetName'', iqn)]"
  let ?w = "kit_command True itt (length payload) 0x2a lba blocks payload" and ?wpdu = "write10_immediate_pdu itt lba blocks payload"
  let ?rd = "kit_command False itt' (unat blocks * 512) 0x28 lba blocks []" and ?rpdu = "read10_pdu itt' lba blocks"
  have "list_all text_pair_ok [(ascii ''TargetName'', iqn)]" "length (encode_pairs [(ascii ''TargetName'', iqn)]) \<le> MAX_DATA_SEGMENT"
    using iqn by (simp_all add: encode_pairs_def MAX_DATA_SEGMENT_def)
  note login = kit_step_decoded [OF decode_login_pdu [OF this]]
  obtain c1 o1 where c1: "handle r connection_new (Login ?q) (take BHS_LEN ?pdu) = Inr (r, c1, [LoginOut o1])"
      "cn_stage c1 = FullFeature" "cn_target c1 = Some i"
    and inv: "conn_inv r c1" and params: "cn_params c1 = params_default" and free: "cn_in_flight c1 itt = None"
    using kit_login_turn [OF r(1,2) refl] by blast
  have burst: "0 < sp_max_burst (cn_params c1)" by (simp add: params params_default_def)
  have len: "length payload = unat (sc_edtl ?w)" "sc_data ?w = take (length payload) payload"
    using ext(4) by (simp_all add: kit_command_def MAX_DATA_SEGMENT_def unat_of_nat)
  have cmds: "sc_write ?w" "is_write_op (sc_cdb ?w ! 0)" "rw_extent (sc_cdb ?w) = (unat lba, unat blocks)"
    "sc_read ?rd" "\<not> sc_write ?rd" "is_read_op (sc_cdb ?rd ! 0)" "rw_extent (sc_cdb ?rd) = (unat lba, unat blocks)" "sc_lun ?rd = sc_lun ?w"
    by (simp_all add: kit_command_def cdb10_fields is_write_op_def is_read_op_def rw_extent_def)
  have lun: "lun_at (reg_heap r ! i) (sc_lun ?w) = Some (n, lu)" using r(3) by (simp add: kit_command_def)
  have free: "cn_in_flight c1 (sc_itt ?w) = None" using free by (simp add: kit_command_def)
  obtain r2 c2 p c3 outs where w: "run_write r c1 ?w (take BHS_LEN ?wpdu) payload = Inr (r2, c2, [ScsiRespOut p])" "sr_status p = GOOD"
      "handle r2 c2 (ScsiCommand ?rd) (take BHS_LEN ?rpdu) = Inr (r2, c3, outs)" "fold place outs (zeros (length payload)) = payload"
    using write_then_read_session [OF r(1) inv c1(2,3) lun cmds(1-3) len le_refl ext(1-3) burst free cmds(4-8),
        of "take BHS_LEN ?wpdu" "take BHS_LEN ?rpdu"] by blast
  have wh: "handle r c1 (ScsiCommand ?w) (take BHS_LEN ?wpdu) = Inr (r2, c2, [ScsiRespOut p])"
    using immediate_write_turn [OF c1(2) _ cmds(1), of r "take BHS_LEN ?wpdu"] c1(3) len w(1) by simp
  have "cn_stage c3 = FullFeature"
    using command_conn [of r c1 ?w] command_conn [of r2 c2 ?rd] wh w(3) c1(2) by (auto simp: handle_def split: stage.splits)
  then obtain c4 o4 where "handle r2 c3 (Logout (kit_logout itt'')) (take BHS_LEN (logout_pdu itt'')) = Inr (r2, c4, [LogoutOut o4])"
      "cn_stage c4 = Closing"
    by (simp add: handle_def handle_logout_def bump_stat_sn_def)
  then show ?thesis
    using login c1(1,2) wh w(2-4) kit_step_decoded [OF decode_write10_pdu [OF ext(4)], of r c1 itt lba blocks]
      kit_step_decoded [OF decode_read10_pdu, of r2 c2 itt' lba blocks] kit_step_decoded [OF decode_logout_pdu, of r2 c3 itt'']
    by auto
qed

end
