(* ===== verification/Vhd_Image.thy ===== *)
theory Vhd_Image
  imports Backing
begin

text \<open>
  The builders of VHD images (\<open>storage/vhd/fixtures.rs\<close>) that the tests of the readers rest on: fixed
  and dynamic images, and the increments of a CCBoot chain with their sparse bitmaps; the layout of
  the files they write, and what the readers find in them.
\<close>

section \<open>The builders\<close>

definition footer_checksum :: "bytes \<Rightarrow> u32" where
  "footer_checksum footer = NOT (sum_skipping 64 68 0 footer 0)"

definition image_footer :: "u32 \<Rightarrow> nat \<Rightarrow> nat \<Rightarrow> bytes" where
  "image_footer disk_type current_size data_offset =
     (let f = puts
        [(0, ascii ''conectix''), (8, be_bytes 4 2), (12, be_bytes 4 65536), (16, be_bytes 8 data_offset),
         (40, be_bytes 8 current_size), (48, be_bytes 8 current_size), (60, be_bytes 4 (unat disk_type))] (zeros 512) in
      put 64 (be_bytes 4 (unat (footer_checksum f))) f)"

definition fixed_vhd :: "bytes \<Rightarrow> bytes io" where
  "fixed_vhd data =
     (if length data mod 512 \<noteq> 0 then Inl Panicked
      else Inr (data @ image_footer 2 (length data) (2 ^ 64 - 1)))"

definition image_header :: "nat \<Rightarrow> nat \<Rightarrow> bytes" where
  "image_header n_blocks block_size = puts
     [(0, ascii ''cxsparse''), (8, be_bytes 8 (2 ^ 64 - 1)), (16, be_bytes 8 TABLE_OFFSET),
      (24, be_bytes 4 65536), (28, be_bytes 4 n_blocks), (32, be_bytes 4 block_size)] (zeros 1024)"

text \<open>The allocation loop: the blocks to keep get the next place; \<open>next_block_sector\<close> is a \<open>u32\<close>.\<close>

primrec place_blocks :: "(nat \<Rightarrow> bool) \<Rightarrow> nat \<Rightarrow> nat list \<Rightarrow> nat list \<Rightarrow> nat \<Rightarrow> nat list io" where
  "place_blocks keep step [] bat next_sector = Inr bat"
| "place_blocks keep step (i # is) bat next_sector =
     (if \<not> keep i then place_blocks keep step is bat next_sector
      else if length bat \<le> i \<or> 2 ^ 32 \<le> next_sector + step then Inl Panicked
      else place_blocks keep step is (bat[i := next_sector]) (next_sector + step))"

text \<open>The loop that writes a bitmap and the data of every block with a place.\<close>

primrec block_payload :: "(nat \<Rightarrow> bytes) \<Rightarrow> (nat \<Rightarrow> bytes) \<Rightarrow> nat list \<Rightarrow> nat list \<Rightarrow> bytes \<Rightarrow> bytes" where
  "block_payload bitmap chunk bat [] out = out"
| "block_payload bitmap chunk bat (i # is) out =
     block_payload bitmap chunk bat is (if bat ! i = BAT_HOLE then out else out @ bitmap i @ chunk i)"

text \<open>What the two dynamic builders share: checks, footer, header, BAT padded to a sector, blocks, footer.\<close>

definition block_of :: "bytes \<Rightarrow> nat \<Rightarrow> nat \<Rightarrow> bytes" where
  "block_of data block_size i = window (i * block_size) block_size data"

definition vhd_image :: "(nat \<Rightarrow> bool) \<Rightarrow> (nat \<Rightarrow> bytes) \<Rightarrow> bytes \<Rightarrow> nat \<Rightarrow> bytes io" where
  "vhd_image keep bitmap data block_size =
     (if \<not> (block_size mod 512 = 0 \<and> is_power_of_two block_size) \<or> length data mod block_size \<noteq> 0 then Inl Panicked
      else
        let n_blocks = length data div block_size mod 2 ^ 32;
            bat_padded = div_ceil (n_blocks * 4) 512 * 512;
            blocks_start = TABLE_OFFSET + bat_padded;
            footer = image_footer 3 (length data) 512 in
        case place_blocks keep ((bitmap_size_of block_size + block_size) div 512) [0..<length data div block_size]
               (replicate n_blocks BAT_HOLE) (blocks_start div 512 mod 2 ^ 32) of
          Inl e \<Rightarrow> Inl e
        | Inr bat \<Rightarrow>
            let head = footer @ image_header n_blocks block_size @ concat (map (be_bytes 4) bat);
                out = take blocks_start head @ zeros (blocks_start - length head) in
            Inr (block_payload bitmap (block_of data block_size) bat [0..<length data div block_size] out @ footer))"

definition full_bitmap :: "nat \<Rightarrow> bytes" where
  "full_bitmap block_size =
     (let raw = div_ceil (block_size div 512) 8 in
      replicate raw 255 @ zeros (bitmap_size_of block_size - raw))"

definition dynamic_vhd :: "bytes \<Rightarrow> nat \<Rightarrow> bytes io" where
  "dynamic_vhd data block_size =
     vhd_image (\<lambda>i. \<not> list_all (\<lambda>b. b = 0) (block_of data block_size i)) (\<lambda>i. full_bitmap block_size) data block_size"

definition block_has_present :: "nat \<Rightarrow> nat list \<Rightarrow> nat \<Rightarrow> bool" where
  "block_has_present block_size present i \<longleftrightarrow> list_ex (\<lambda>s. s div (block_size div 512) = i) present"

primrec mark_present :: "nat \<Rightarrow> nat \<Rightarrow> nat list \<Rightarrow> bytes \<Rightarrow> bytes" where
  "mark_present spb i [] bitmap = bitmap"
| "mark_present spb i (s # present) bitmap =
     mark_present spb i present
       (if s div spb \<noteq> i then bitmap
        else let within = s mod spb in
             bitmap[within div 8 := bitmap ! (within div 8) OR push_bit (7 - within mod 8) 1])"

definition diff_vhd :: "bytes \<Rightarrow> nat \<Rightarrow> nat list \<Rightarrow> bytes io" where
  "diff_vhd data block_size present =
     vhd_image (block_has_present block_size present)
       (\<lambda>i. mark_present (block_size div 512) i present (zeros (bitmap_size_of block_size))) data block_size"

section \<open>Footer and header\<close>

lemma length_image_footer [simp]: "length (image_footer t n off) = 512"
  by (simp add: image_footer_def Let_def length_put length_puts puts_fit_def)

lemma length_image_header [simp]: "length (image_header n b) = 1024"
  by (simp add: image_header_def length_puts puts_fit_def)

definition footer_buffer :: "u32 \<Rightarrow> nat \<Rightarrow> nat \<Rightarrow> bytes" where
  "footer_buffer t n off = puts
     [(0, ascii ''conectix''), (8, be_bytes 4 2), (12, be_bytes 4 65536), (16, be_bytes 8 off),
      (40, be_bytes 8 n), (48, be_bytes 8 n), (60, be_bytes 4 (unat t))] (zeros 512)"

lemma image_footer_buffer: "image_footer t n off =
    put 64 (be_bytes 4 (unat (checksum (footer_buffer t n off) 64 68))) (footer_buffer t n off)"
  by (simp add: image_footer_def footer_buffer_def footer_checksum_def checksum_def Let_def)

lemma length_footer_buffer: "length (footer_buffer t n off) = 512"
  by (simp add: footer_buffer_def length_puts puts_fit_def)

lemma window_footer_buffer:
  "window 0 8 (footer_buffer t n off) = ascii ''conectix''"
  "window 16 8 (footer_buffer t n off) = be_bytes 8 off"
  "window 48 8 (footer_buffer t n off) = be_bytes 8 n"
  "window 60 4 (footer_buffer t n off) = be_bytes 4 (unat t)"
  unfolding footer_buffer_def by (subst window_puts; simp add: puts_eval)+

lemma image_footer_parse:
  assumes "n < u64_lim" "off < u64_lim"
  shows "footer_parse (image_footer t n off) = Inr \<lparr>vf_data_offset = off, vf_current_size = n, vf_disk_type = t\<rparr>"
proof -
  have "n < 256 ^ 8" "off < 256 ^ 8" using assms by (simp_all add: u64_lim_def)
  then show ?thesis
    using footer_parse_sealed [OF length_footer_buffer window_footer_buffer(1), of t n off]
    by (simp add: image_footer_buffer window_footer_buffer be_u32_be_bytes)
qed

lemma image_footer_cookie: "window 0 8 (image_footer t n off) = ascii ''conectix''"
  using window_footer_buffer(1) by (simp add: image_footer_buffer window_put_before length_footer_buffer del: ascii_Cons)

lemma window_image_header:
  "window 0 8 (image_header n b) = ascii ''cxsparse''"
  "window 16 8 (image_header n b) = be_bytes 8 TABLE_OFFSET"
  "window 28 4 (image_header n b) = be_bytes 4 n"
  "window 32 4 (image_header n b) = be_bytes 4 b"
  unfolding image_header_def by (subst window_puts; simp add: puts_eval)+

section \<open>Where the blocks go\<close>

definition kept :: "(nat \<Rightarrow> bool) \<Rightarrow> nat \<Rightarrow> nat \<Rightarrow> nat" where
  "kept keep i j = length (filter keep [i..<j])"

lemma kept_le: "kept keep i j \<le> j - i"
  unfolding kept_def using length_filter_le [of keep "[i..<j]"] by simp

lemma kept_Suc: "i < j \<Longrightarrow> kept keep i j = (if keep i then 1 else 0) + kept keep (Suc i) j"
  by (simp add: kept_def upt_conv_Cons)

lemma kept_less: "i \<le> j \<Longrightarrow> j < n \<Longrightarrow> keep j \<Longrightarrow> kept keep i j < kept keep i n"
proof -
  assume a: "i \<le> j" "j < n" "keep j"
  then have "[i..<n] = [i..<j] @ j # [Suc j..<n]"
    using upt_add_eq_append [of i j "n - j"] by (simp add: upt_conv_Cons)
  then show ?thesis using a(3) by (simp add: kept_def)
qed

lemma filter_nth_kept:
  assumes "j < n" "keep j"
  shows "filter keep [0..<n] ! kept keep 0 j = j"
proof -
  have "[0..<n] = [0..<j] @ j # [Suc j..<n]"
    using assms(1) upt_add_eq_append [of 0 j "n - j"] by (simp add: upt_conv_Cons)
  then show ?thesis using assms(2) by (simp add: kept_def)
qed

lemma place_blocks_places:
  assumes "i \<le> n" "length bat = n" "next_sector + step * kept keep i n < 2 ^ 32"
  shows "\<exists>bat'. place_blocks keep step [i..<n] bat next_sector = Inr bat' \<and> length bat' = n \<and>
    (\<forall>j < n. bat' ! j = (if i \<le> j \<and> keep j then next_sector + step * kept keep i j else bat ! j))"
  using assms
proof (induction "n - i" arbitrary: i bat next_sector)
  case 0
  then show ?case by auto
next
  case (Suc m)
  have lt: "i < n" and m: "m = n - Suc i" using Suc.hyps(2) by auto
  have cons: "[i..<n] = i # [Suc i..<n]" using lt by (simp add: upt_conv_Cons)
  show ?case
  proof (cases "keep i")
    case True
    have room: "next_sector + step + step * kept keep (Suc i) n < 2 ^ 32"
      using Suc.prems(3) kept_Suc [OF lt, of keep] True by (simp add: algebra_simps)
    obtain bat' where IH: "place_blocks keep step [Suc i..<n] (bat[i := next_sector]) (next_sector + step) = Inr bat'"
        "length bat' = n"
        "\<forall>j < n. bat' ! j = (if Suc i \<le> j \<and> keep j then next_sector + step + step * kept keep (Suc i) j
           else bat[i := next_sector] ! j)"
      using Suc.hyps(1) [OF m, of "bat[i := next_sector]" "next_sector + step"] Suc.prems(2) lt room by auto
    have "bat' ! j = (if i \<le> j \<and> keep j then next_sector + step * kept keep i j else bat ! j)" if "j < n" for j
    proof (cases "j = i")
      case True
      then show ?thesis using IH(3) that Suc.prems(2) \<open>keep i\<close> by (simp add: kept_def)
    next
      case False
      then show ?thesis using IH(3) that kept_Suc [of i j keep] \<open>keep i\<close> by (auto simp: algebra_simps)
    qed
    moreover have "next_sector + step < 2 ^ 32" using room by linarith
    ultimately show ?thesis using IH(1,2) True Suc.prems(2) lt by (intro exI [of _ bat']) (simp add: cons)
  next
    case False
    have "next_sector + step * kept keep (Suc i) n < 2 ^ 32"
      using Suc.prems(3) kept_Suc [OF lt, of keep] False by simp
    then obtain bat' where IH: "place_blocks keep step [Suc i..<n] bat next_sector = Inr bat'" "length bat' = n"
        "\<forall>j < n. bat' ! j = (if Suc i \<le> j \<and> keep j then next_sector + step * kept keep (Suc i) j else bat ! j)"
      using Suc.hyps(1) [OF m, of bat next_sector] Suc.prems(2) lt by auto
    have "bat' ! j = (if i \<le> j \<and> keep j then next_sector + step * kept keep i j else bat ! j)" if "j < n" for j
      using IH(3) that kept_Suc [of i j keep] False by (cases "j = i") auto
    then show ?thesis using IH(1,2) False by (intro exI [of _ bat']) (simp add: cons)
  qed
qed

lemma block_payload_concat:
  "block_payload bitmap chunk bat is out =
    out @ concat (map (\<lambda>i. bitmap i @ chunk i) (filter (\<lambda>i. bat ! i \<noteq> BAT_HOLE) is))"
  by (induction "is" arbitrary: out) simp_all

section \<open>The file\<close>

definition image_layout :: "bytes \<Rightarrow> nat list \<Rightarrow> (nat \<Rightarrow> bool) \<Rightarrow> (nat \<Rightarrow> bytes) \<Rightarrow> nat \<Rightarrow> bytes \<Rightarrow> bool" where
  "image_layout f bat keep bitmap bs data \<longleftrightarrow>
     length bat = length data div bs \<and> length bat < 2 ^ 32 \<and> length f < u64_lim \<and> 1536 + 4 * length bat \<le> length f \<and>
     window 0 512 f = image_footer 3 (length data) 512 \<and> window (length f - 512) 512 f = image_footer 3 (length data) 512 \<and>
     window 512 1024 f = image_header (length bat) bs \<and> window TABLE_OFFSET (4 * length bat) f = concat (map (be_bytes 4) bat) \<and>
     (\<forall>j < length bat. if keep j then bat ! j < BAT_HOLE \<and> bat ! j * SECTOR + bitmap_size_of bs + bs \<le> length f \<and>
          window (bat ! j * SECTOR) (bitmap_size_of bs) f = bitmap j \<and>
          window (bat ! j * SECTOR + bitmap_size_of bs) bs f = block_of data bs j
        else bat ! j = BAT_HOLE)"

lemma bitmap_size_sectors: "bitmap_size_of bs mod 512 = 0"
  by (simp add: bitmap_size_of_def Let_def SECTOR_def)

lemma bitmap_size_le:
  assumes "bs mod 512 = 0" "0 < bs"
  shows "bitmap_size_of bs \<le> bs"
proof -
  obtain k where k: "bs = 512 * k" using assms(1) by auto
  then have "0 < k" using assms(2) by simp
  then have "div_ceil k 8 \<le> k" "0 < div_ceil k 8" by (simp_all add: div_ceil_def)
  then have "div_ceil (div_ceil k 8) 512 \<le> k" by (simp add: div_ceil_def)
  then show ?thesis by (simp add: bitmap_size_of_def Let_def SECTOR_def k)
qed

lemma image_room:
  assumes bs: "bs mod 512 = 0" "0 < bs" and data: "length data mod bs = 0" "length data \<le> 2 ^ 39"
    and n: "n = length data div bs" and nx: "nx = (TABLE_OFFSET + div_ceil (n * 4) 512 * 512) div 512"
  shows "n \<le> 2 ^ 30" "nx * 512 = TABLE_OFFSET + div_ceil (n * 4) 512 * 512" "n * 4 \<le> div_ceil (n * 4) 512 * 512"
    "(bitmap_size_of bs + bs) div 512 * 512 = bitmap_size_of bs + bs" "k \<le> n \<Longrightarrow> nx + (bitmap_size_of bs + bs) div 512 * k < BAT_HOLE"
proof -
  have d: "n * bs = length data" using data(1) n by auto
  have "512 \<le> bs" using bs by (auto simp: dvd_imp_le mod_eq_0_iff_dvd)
  then have "n * 512 \<le> length data" using mult_le_mono2 [of 512 bs n] d by simp
  then show n30: "n \<le> 2 ^ 30" using data(2) by simp
  show nx512: "nx * 512 = TABLE_OFFSET + div_ceil (n * 4) 512 * 512" by (simp add: nx TABLE_OFFSET_def)
  show "n * 4 \<le> div_ceil (n * 4) 512 * 512" by (rule div_ceil_upper) simp
  show unit: "(bitmap_size_of bs + bs) div 512 * 512 = bitmap_size_of bs + bs"
    using bs(1) bitmap_size_sectors [of bs] by (metis mod_0_imp_dvd dvd_add dvd_div_mult_self)
  show "nx + (bitmap_size_of bs + bs) div 512 * k < BAT_HOLE" if "k \<le> n"
  proof -
    have "div_ceil (n * 4) 512 \<le> 2 ^ 23" using n30 by (simp add: div_ceil_def)
    then have "nx \<le> 2 ^ 24" using nx512 by (simp add: TABLE_OFFSET_def)
    moreover have "(bitmap_size_of bs + bs) div 512 * k \<le> 2 ^ 31"
    proof -
      have "(bitmap_size_of bs + bs) * k \<le> (bs + bs) * n"
        using that bitmap_size_le [OF bs] by (intro mult_le_mono) simp_all
      also have "\<dots> = 2 * length data" using d by (simp add: algebra_simps)
      also have "\<dots> \<le> 2 ^ 40" using data(2) by simp
      finally have "(bitmap_size_of bs + bs) div 512 * 512 * k \<le> 2 ^ 40" unfolding unit .
      moreover have "u * 512 * k \<le> 2 ^ 40 \<Longrightarrow> u * k \<le> 2 ^ 31" for u :: nat by (simp add: mult.commute)
      ultimately show ?thesis by blast
    qed
    ultimately show ?thesis by (simp add: BAT_HOLE_def)
  qed
qed

text \<open>The kept blocks, one after the other: each is where the number of kept blocks before it says.\<close>

lemma kept_payload:
  assumes blk: "\<forall>j < n. length (blk j) = w"
  shows "length (concat (map blk (filter keep [0..<n]))) = w * kept keep 0 n"
    "j < n \<Longrightarrow> keep j \<Longrightarrow> w * kept keep 0 j + w \<le> w * kept keep 0 n"
    "j < n \<Longrightarrow> keep j \<Longrightarrow> window (w * kept keep 0 j) w (concat (map blk (filter keep [0..<n]))) = blk j"
proof -
  let ?ks = "filter keep [0..<n]"
  have ks: "\<forall>x \<in> set (map blk ?ks). length x = w" using blk by auto
  show "length (concat (map blk ?ks)) = w * kept keep 0 n"
    using length_concat_fixed [OF ks] by (simp add: kept_def)
  assume j: "j < n" "keep j"
  then have k: "kept keep 0 j < kept keep 0 n" using kept_less [of 0 j n keep] by simp
  show "w * kept keep 0 j + w \<le> w * kept keep 0 n"
    using mult_le_mono2 [of "Suc (kept keep 0 j)" "kept keep 0 n" w] k by simp
  show "window (w * kept keep 0 j) w (concat (map blk ?ks)) = blk j"
    using window_concat_fixed [OF ks, of "kept keep 0 j"] k filter_nth_kept [of j n keep] j by (simp add: kept_def)
qed

text \<open>The file that is written, once the table fits.\<close>

lemma vhd_image_run:
  assumes bs: "bs mod 512 = 0" "is_power_of_two bs" "length data mod bs = 0" "n = length data div bs" "n mod 2 ^ 32 = n"
    and nx: "TABLE_OFFSET + div_ceil (n * 4) 512 * 512 = nx * 512" "nx mod 2 ^ 32 = nx" "TABLE_OFFSET + 4 * n \<le> nx * 512"
    and bat: "place_blocks keep ((bitmap_size_of bs + bs) div 512) [0..<n] (replicate n BAT_HOLE) nx = Inr bat" "length bat = n"
  shows "vhd_image keep bitmap data bs = Inr
    ((image_footer 3 (length data) 512 @ image_header n bs @ concat (map (be_bytes 4) bat) @ zeros (nx * 512 - (TABLE_OFFSET + 4 * n))) @
     concat (map (\<lambda>i. bitmap i @ block_of data bs i) (filter (\<lambda>i. bat ! i \<noteq> BAT_HOLE) [0..<n])) @ image_footer 3 (length data) 512)"
proof -
  define ft where "ft = image_footer 3 (length data) 512"
  define table where "table = concat (map (be_bytes 4) bat)"
  have lens: "length table = 4 * n" "length ft = 512" by (simp_all add: table_def ft_def length_concat_be bat(2))
  have div: "nx * 512 div 512 mod 2 ^ 32 = nx" using nx(2) by simp
  have "vhd_image keep bitmap data bs = (let head = ft @ image_header n bs @ table in
        Inr (block_payload bitmap (block_of data bs) bat [0..<n] (take (nx * 512) head @ zeros (nx * 512 - length head)) @ ft))"
    using bs(1-3) bat(1)
    unfolding vhd_image_def Let_def bs(4) [symmetric] bs(5) nx(1) div ft_def [symmetric] table_def
    by simp
  then show ?thesis
    using lens nx(3) by (simp add: Let_def block_payload_concat ft_def [symmetric] table_def [symmetric]) (simp add: TABLE_OFFSET_def)
qed

text \<open>A block kept in the image is found whole, bitmap first, at the sector its BAT entry names.\<close>

lemma block_found:
  assumes f: "f = front @ concat (map (\<lambda>i. bitmap i @ block_of data bs i) (filter keep [0..<n])) @ ft" "length front = nx * 512"
    and blk: "\<forall>j < n. length (bitmap j @ block_of data bs j) = step * 512" "step * 512 = bitmap_size_of bs + bs"
    and bm: "length (bitmap j) = bitmap_size_of bs"
    and j: "j < n" "keep j" "b = nx + step * kept keep 0 j"
  shows "b * SECTOR + bitmap_size_of bs + bs \<le> length f \<and> window (b * SECTOR) (bitmap_size_of bs) f = bitmap j \<and>
    window (b * SECTOR + bitmap_size_of bs) bs f = block_of data bs j"
proof -
  note payload = kept_payload [OF blk(1), where keep = keep]
  have "b * 512 = length front + step * 512 * kept keep 0 j" using j(3) f(2) by (simp add: algebra_simps)
  then have "b * 512 + (bitmap_size_of bs + bs) \<le> length f"
    "window (b * 512) (bitmap_size_of bs + bs) f = bitmap j @ block_of data bs j"
    using payload(1) payload(2,3) [OF j(1,2)] blk(2) by (simp_all add: f(1) window_append1 window_append2)
  then show ?thesis
    using window_split [of "b * 512" "bitmap_size_of bs" bs f] bm by (simp add: append_eq_append_conv SECTOR_def add.assoc)
qed

lemma vhd_image_layout:
  assumes bs: "bs mod 512 = 0" "is_power_of_two bs" and data: "length data mod bs = 0" "length data \<le> 2 ^ 39"
    and bm: "\<And>i. length (bitmap i) = bitmap_size_of bs"
  shows "\<exists>f bat. vhd_image keep bitmap data bs = Inr f \<and> image_layout f bat keep bitmap bs data"
proof -
  define n where "n = length data div bs"
  define nx where "nx = (TABLE_OFFSET + div_ceil (n * 4) 512 * 512) div 512"
  define step where "step = (bitmap_size_of bs + bs) div 512"
  define ft where "ft = image_footer 3 (length data) 512"
  define ks where "ks = filter keep [0..<n]"
  let ?blk = "\<lambda>i. bitmap i @ block_of data bs i"
  have pos: "0 < bs" using is_power_of_two_pos [OF bs(2)] .
  note room = image_room [OF bs(1) pos data n_def nx_def, folded step_def]
  have d: "n * bs = length data" using data(1) by (auto simp: n_def)
  have "nx + step * kept keep 0 n < 2 ^ 32" using room(5) [of "kept keep 0 n"] kept_le [of keep 0 n] by (simp add: BAT_HOLE_def)
  then obtain bat where bat: "place_blocks keep step [0..<n] (replicate n BAT_HOLE) nx = Inr bat" "length bat = n"
      "\<forall>j < n. bat ! j = (if keep j then nx + step * kept keep 0 j else BAT_HOLE)"
    using place_blocks_places [of 0 n "replicate n BAT_HOLE" nx step keep] by auto
  have hole: "bat ! j \<noteq> BAT_HOLE \<longleftrightarrow> keep j" if "j < n" for j
    using bat(3) that room(5) [of "kept keep 0 j"] kept_le [of keep 0 j] by simp
  then have ks: "filter (\<lambda>i. bat ! i \<noteq> BAT_HOLE) [0..<n] = ks"
    unfolding ks_def by (intro filter_cong refl) (simp only: set_upt atLeastLessThan_iff)
  define bat_bytes where "bat_bytes = concat (map (be_bytes 4) bat)"
  have lb: "length bat_bytes = 4 * n" by (simp add: bat_bytes_def length_concat_be bat(2))
  define hd where "hd = ft @ image_header n bs @ bat_bytes @ zeros (nx * 512 - (TABLE_OFFSET + 4 * n))"
  have fit: "TABLE_OFFSET + 4 * n \<le> nx * 512" using room(2,3) by simp
  then have lh: "length hd = nx * 512" using lb by (simp add: hd_def ft_def TABLE_OFFSET_def)
  define f where "f = hd @ concat (map ?blk ks) @ ft"
  have nm: "n mod 2 ^ 32 = n" "nx mod 2 ^ 32 = nx" using room(1) room(5) [of 0] by (simp_all add: BAT_HOLE_def)
  have start: "TABLE_OFFSET + div_ceil (n * 4) 512 * 512 = nx * 512" using room(2) nx_def by simp
  have run: "vhd_image keep bitmap data bs = Inr f"
    using vhd_image_run [OF bs data(1) n_def nm(1) start nm(2) fit bat(1) [unfolded step_def] bat(2), of bitmap] ks
    by (simp add: f_def hd_def ft_def bat_bytes_def)
  have lblk: "\<forall>j < n. length (?blk j) = step * 512"
  proof (intro allI impI)
    fix j assume "j < n"
    then have "j * bs + bs \<le> length data" using d mult_le_mono1 [of "Suc j" n bs] by simp
    then show "length (?blk j) = step * 512" using bm room(4) by (simp add: block_of_def length_window)
  qed
  note payload = kept_payload [OF lblk, where keep = keep, folded ks_def]
  have blocks: "if keep j then bat ! j < BAT_HOLE \<and> bat ! j * SECTOR + bitmap_size_of bs + bs \<le> length f \<and>
          window (bat ! j * SECTOR) (bitmap_size_of bs) f = bitmap j \<and>
          window (bat ! j * SECTOR + bitmap_size_of bs) bs f = block_of data bs j
        else bat ! j = BAT_HOLE" if "j < n" for j
  proof (cases "keep j")
    case True
    have "bat ! j < BAT_HOLE" using True bat(3) that room(5) [of "kept keep 0 j"] kept_le [of keep 0 j] by simp
    moreover have "bat ! j = nx + step * kept keep 0 j" using True bat(3) that by simp
    ultimately show ?thesis using True block_found [OF f_def [unfolded ks_def] lh lblk room(4) bm that True, of "bat ! j"] by simp
  qed (use bat(3) that in simp)
  have "step * kept keep 0 n \<le> step * n" using kept_le [of keep 0 n] by (intro mult_le_mono2) simp
  moreover have "nx + step * n < 2 ^ 32" using room(5) [of n] by (simp add: BAT_HOLE_def)
  ultimately have "nx + step * kept keep 0 n < 2 ^ 32" by linarith
  moreover have "length f = 512 * (nx + step * kept keep 0 n) + 512"
    using payload(1) lh by (simp add: f_def ft_def algebra_simps)
  ultimately have lf: "length f < u64_lim" "1536 + 4 * n \<le> length f"
    using fit by (simp_all add: u64_lim_def TABLE_OFFSET_def)
  have "window 0 512 f = ft" "window (length f - 512) 512 f = ft" "window 512 1024 f = image_header n bs"
    by (simp_all add: f_def hd_def ft_def window_append1 window_append2 window_all')
  moreover have "window TABLE_OFFSET (4 * n) f = bat_bytes"
    using lb by (simp add: f_def hd_def ft_def TABLE_OFFSET_def window_append1 window_append2 window_all')
  ultimately have "image_layout f bat keep bitmap bs data"
    using blocks lf room(1) bat(2) by (simp add: image_layout_def n_def [symmetric] ft_def bat_bytes_def)
  then show ?thesis using run by blast
qed

section \<open>What the reader sees\<close>

definition stores :: "dynamic_vhd \<Rightarrow> (nat \<Rightarrow> bool) \<Rightarrow> (nat \<Rightarrow> bytes) \<Rightarrow> nat \<Rightarrow> bytes \<Rightarrow> bool" where
  "stores d keep bitmap bs data \<longleftrightarrow>
     bs mod 512 = 0 \<and> 0 < bs \<and> length data mod bs = 0 \<and> length data < u64_lim \<and>
     dv_virtual_size d = length data \<and> dv_block_size d = bs \<and> dv_bitmap_size d = bitmap_size_of bs \<and>
     length (dv_bat d) = length data div bs \<and> length (dv_bitmaps d) = length data div bs \<and> length (dv_file d) < u64_lim \<and>
     (\<forall>j < length data div bs. if keep j then dv_bat d ! j \<noteq> BAT_HOLE \<and> dv_bitmaps d ! j = Some (bitmap j) \<and>
          dv_bat d ! j * SECTOR + bitmap_size_of bs + bs \<le> length (dv_file d) \<and>
          window (dv_bat d ! j * SECTOR + bitmap_size_of bs) bs (dv_file d) = block_of data bs j
        else dv_bat d ! j = BAT_HOLE)"

lemma load_bitmaps_each:
  assumes "\<forall>j < length bat. bat ! j \<noteq> BAT_HOLE \<longrightarrow> bat ! j * SECTOR + n \<le> length f"
  shows "load_bitmaps f n bat = Inr (map (\<lambda>e. if e = BAT_HOLE then None else Some (window (e * SECTOR) n f)) bat)"
proof -
  have "\<forall>e \<in> set bat. e \<noteq> BAT_HOLE \<longrightarrow> e * SECTOR + n \<le> length f" using assms by (auto simp: in_set_conv_nth)
  then show ?thesis by (induction bat) (auto simp: read_exact_at_in)
qed

lemma image_layout_parse:
  assumes l: "image_layout f bat keep bitmap bs data"
    and bs: "bs mod 512 = 0" "is_power_of_two bs" "bs < 2 ^ 32" and data: "length data mod bs = 0" "length data \<le> 2 ^ 39"
  shows "\<exists>d. dynamic_parse f = Inr d \<and> stores d keep bitmap bs data \<and> dv_file d = f"
proof -
  have f: "1536 \<le> length f" "\<not> 2 ^ 32 < length bat" "TABLE_OFFSET + length bat * 4 \<le> length f"
    "window 512 1024 f = image_header (length bat) bs" "window TABLE_OFFSET (length bat * 4) f = concat (map (be_bytes 4) bat)"
    using l unfolding image_layout_def mult.commute [of 4] by (auto simp: TABLE_OFFSET_def)
  have entry: "bat ! j < 2 ^ 32" "bat ! j \<noteq> BAT_HOLE \<longrightarrow> bat ! j * SECTOR + bitmap_size_of bs \<le> length f" if "j < length bat" for j
    using l that unfolding image_layout_def by (fastforce simp: BAT_HOLE_def split: if_splits)+
  have pos: "0 < bs" using is_power_of_two_pos [OF bs(2)] .
  have "read_footer f = Inr \<lparr>vf_data_offset = 512, vf_current_size = length data, vf_disk_type = 3\<rparr>"
    using l data(2) f(1) by (simp add: image_layout_def read_footer_def read_exact_at_in image_footer_parse u64_lim_def)
  moreover have "be_val (be_bytes 4 bs) = bs" "be_val (be_bytes 8 TABLE_OFFSET) = TABLE_OFFSET"
    "be_val (be_bytes 4 (length bat)) = length bat"
    using bs(3) l by (simp_all add: TABLE_OFFSET_def image_layout_def)
  moreover have "map be_val (chunks_exact 4 (concat (map (be_bytes 4) bat))) = bat"
    using entry(1) by (intro chunks_concat_be) (auto simp: in_set_conv_nth)
  moreover note load_bitmaps_each [of bat "bitmap_size_of bs" f]
  ultimately have p: "dynamic_parse f = Inr \<lparr>dv_file = f, dv_virtual_size = length data, dv_block_size = bs,
      dv_bitmap_size = bitmap_size_of bs, dv_bat = bat,
      dv_bitmaps = map (\<lambda>e. if e = BAT_HOLE then None else Some (window (e * SECTOR) (bitmap_size_of bs) f)) bat\<rparr>"
    using f bs(1,2) pos entry(2) window_image_header
    by (simp add: dynamic_parse_def read_exact_at_in Let_def DISK_TYPE_DYNAMIC_def SECTOR_def)
  have blocks: "\<forall>j < length bat. if keep j then bat ! j < BAT_HOLE \<and> bat ! j * SECTOR + bitmap_size_of bs + bs \<le> length f \<and>
          window (bat ! j * SECTOR) (bitmap_size_of bs) f = bitmap j \<and>
          window (bat ! j * SECTOR + bitmap_size_of bs) bs f = block_of data bs j
        else bat ! j = BAT_HOLE" "length bat = length data div bs" "length f < u64_lim"
    using l by (simp_all add: image_layout_def)
  have "length data < u64_lim" using data(2) by (simp add: u64_lim_def)
  then have "stores \<lparr>dv_file = f, dv_virtual_size = length data, dv_block_size = bs,
      dv_bitmap_size = bitmap_size_of bs, dv_bat = bat,
      dv_bitmaps = map (\<lambda>e. if e = BAT_HOLE then None else Some (window (e * SECTOR) (bitmap_size_of bs) f)) bat\<rparr>
      keep bitmap bs data"
    using blocks bs(1) data(1) pos unfolding stores_def by (auto split: if_splits)
  then show ?thesis using p by auto
qed

definition bitmap_bit :: "bytes \<Rightarrow> nat \<Rightarrow> bool" where
  "bitmap_bit bm k \<longleftrightarrow> bm ! (k div 8) AND push_bit (7 - k mod 8) 1 \<noteq> 0"

lemma stores_sector:
  assumes st: "stores d keep bitmap bs data" and bm: "\<And>j. length (bitmap j) = bitmap_size_of bs"
    and s: "s * SECTOR < length data"
  shows "sector_offset False d s = Inr (if keep (s * SECTOR div bs) \<and> bitmap_bit (bitmap (s * SECTOR div bs)) (s mod (bs div SECTOR))
      then Some (sector_data d s) else None)" (is ?bit)
    "block_sector_offset d s = Inr (if keep (s * SECTOR div bs) then Some (sector_data d s) else None)" (is ?block)
    "keep (s * SECTOR div bs) \<Longrightarrow> sector_data d s + SECTOR \<le> length (dv_file d)" (is "?keep \<Longrightarrow> ?fits")
    "keep (s * SECTOR div bs) \<Longrightarrow> window (sector_data d s) SECTOR (dv_file d) = window (s * SECTOR) SECTOR data" (is "_ \<Longrightarrow> ?data")
proof -
  let ?i = "s * SECTOR div bs" and ?k = "s mod (bs div SECTOR)"
  obtain q where q: "bs = SECTOR * q" using st by (auto simp: stores_def SECTOR_def mod_eq_0_iff_dvd)
  have q0: "0 < q" using st q by (auto simp: stores_def)
  have spb: "sectors_per_block d = q" "bs div SECTOR = q" using st q by (simp_all add: stores_def sectors_per_block_def)
  have i: "?i = s div q" by (simp add: q mult.commute [of s] SECTOR_def)
  have "length data = length data div bs * bs" using st by (auto simp: stores_def)
  then have n: "?i < length data div bs" using s st by (metis div_less_iff_less_mult mult.commute stores_def)
  have k: "?k < q" using q0 spb by simp
  have cover: "?k div 8 < bitmap_size_of bs" using bitmap_covers [of ?k bs] k spb by simp
  have at: "?i * bs + ?k * SECTOR = s * SECTOR"
  proof -
    have "(s div q * q + s mod q) * SECTOR = s * SECTOR" by simp
    then have "s div q * (SECTOR * q) + s mod q * SECTOR = s * SECTOR" by (simp only: algebra_simps)
    then show ?thesis unfolding i spb(2) by (simp only: q)
  qed
  have sel: "dv_bat d ! (s div q) = dv_bat d ! ?i" "s div q < length (dv_bat d)" "s div q < length (dv_bitmaps d)"
    using st n i by (simp_all add: stores_def)
  have hit: "keep ?i \<Longrightarrow> dv_bat d ! ?i \<noteq> BAT_HOLE \<and> dv_bitmaps d ! ?i = Some (bitmap ?i) \<and>
          dv_bat d ! ?i * SECTOR + bitmap_size_of bs + bs \<le> length (dv_file d) \<and>
          window (dv_bat d ! ?i * SECTOR + bitmap_size_of bs) bs (dv_file d) = block_of data bs ?i"
    "\<not> keep ?i \<Longrightarrow> dv_bat d ! ?i = BAT_HOLE"
    using st n unfolding stores_def by presburger+
  have sd: "sector_data d s = dv_bat d ! ?i * SECTOR + bitmap_size_of bs + ?k * SECTOR"
    using st spb i by (simp add: sector_data_def phys_offset_def stores_def)
  have entry: "bat_entry d s = Inr (dv_bat d ! ?i)" using sel by (simp add: bat_entry_def spb(1))
  have bits: "keep ?i \<Longrightarrow> block_bitmap d s = Inr (bitmap ?i)"
    using hit(1) sel(3) i by (simp add: block_bitmap_def spb(1))
  have sd': "sector_data d s = phys_offset d (dv_bat d ! ?i) ?k" using i spb by (simp add: sector_data_def)
  show ?block
    using hit by (cases "keep ?i") (simp_all add: block_sector_offset_def entry sd' spb)
  show ?bit
  proof (cases "keep ?i")
    case True
    have "\<not> length (bitmap ?i) \<le> ?k div 8" using cover bm by (simp add: not_le)
    then show ?thesis
      using True hit(1) bits by (simp add: sector_offset_def entry sd' spb Let_def bitmap_bit_def)
  next
    case False
    then show ?thesis using hit(2) by (simp add: sector_offset_def entry)
  qed
  have inside: "?k * SECTOR + SECTOR \<le> bs"
    using mult_le_mono1 [of "Suc ?k" q SECTOR] k unfolding q by (simp add: mult.commute)
  show ?fits if "keep ?i" using hit(1) [OF that] inside sd by simp
  show ?data if "keep ?i"
  proof -
    have "window (?k * SECTOR) SECTOR (window (dv_bat d ! ?i * SECTOR + bitmap_size_of bs) bs (dv_file d)) =
        window (?k * SECTOR) SECTOR (window (?i * bs) bs data)"
      using hit(1) [OF that] by (simp add: block_of_def)
    then show ?thesis using inside by (simp add: window_window sd at add.assoc)
  qed
qed

section \<open>The bitmaps\<close>

lemma bitmap_bit_iff: "bitmap_bit bm k \<longleftrightarrow> bit (bm ! (k div 8)) (7 - k mod 8)"
proof -
  have "bm ! (k div 8) AND push_bit (7 - k mod 8) 1 = 0 \<longleftrightarrow> \<not> bit (bm ! (k div 8)) (7 - k mod 8)"
    by (simp add: push_bit_of_1 and_exp_eq_0_iff_not_bit)
  then show ?thesis by (simp add: bitmap_bit_def)
qed

lemma raw_le: "div_ceil (bs div 512) 8 \<le> bitmap_size_of bs"
  unfolding bitmap_size_of_def Let_def SECTOR_def by (rule div_ceil_upper) simp

lemma length_full_bitmap [simp]: "length (full_bitmap bs) = bitmap_size_of bs"
  using raw_le [of bs] by (simp add: full_bitmap_def Let_def)

lemma full_bitmap_bit:
  assumes "k < bs div 512"
  shows "bitmap_bit (full_bitmap bs) k"
proof -
  have "bs div 512 \<le> div_ceil (bs div 512) 8 * 8" by (rule div_ceil_upper) simp
  then have "k div 8 < div_ceil (bs div 512) 8" using assms by linarith
  then have "full_bitmap bs ! (k div 8) = 255" by (simp add: full_bitmap_def Let_def nth_append)
  then show ?thesis using bit_255 [of "7 - k mod 8"] by (simp add: bitmap_bit_iff)
qed

lemma length_mark_present [simp]: "length (mark_present spb i present bm) = length bm"
  by (induction present arbitrary: bm) (simp_all add: Let_def)

lemma mark_bit:
  assumes "w div 8 < length bm"
  shows "bitmap_bit (bm[w div 8 := bm ! (w div 8) OR push_bit (7 - w mod 8) 1]) k \<longleftrightarrow> k = w \<or> bitmap_bit bm k"
proof (cases "k div 8 = w div 8")
  case True
  have "k = w \<longleftrightarrow> k mod 8 = w mod 8" using True by (metis div_mult_mod_eq)
  also have "\<dots> \<longleftrightarrow> 7 - k mod 8 = 7 - w mod 8"
    using mod_less_divisor [of 8 k] mod_less_divisor [of 8 w] by linarith
  finally show ?thesis
    using True assms by (auto simp: bitmap_bit_iff bit_or_iff push_bit_of_1 bit_exp_iff)
qed (auto simp: bitmap_bit_iff)

lemma mark_present_bit:
  assumes "0 < spb" "spb \<le> length bm * 8" "k < spb"
  shows "bitmap_bit (mark_present spb i present bm) k \<longleftrightarrow> i * spb + k \<in> set present \<or> bitmap_bit bm k"
  using assms(2)
proof (induction present arbitrary: bm)
  case (Cons s present)
  let ?w = "s mod spb"
  have w: "?w div 8 < length bm" using Cons.prems mod_less_divisor [OF assms(1), of s] by linarith
  have "i * spb + k = s \<longleftrightarrow> s div spb = i \<and> k = ?w"
    using assms(3) div_mult_mod_eq [of s spb] by auto
  then show ?case
    using Cons.prems Cons.IH [of bm] Cons.IH [of "bm[?w div 8 := bm ! (?w div 8) OR push_bit (7 - ?w mod 8) 1]"]
      mark_bit [OF w] by (auto simp: Let_def)
qed simp

lemma bitmap_bit_zeros: "k div 8 < n \<Longrightarrow> \<not> bitmap_bit (zeros n) k"
  by (simp add: bitmap_bit_iff)

section \<open>Single images\<close>

definition image_size_ok :: "bytes \<Rightarrow> nat \<Rightarrow> bool" where
  "image_size_ok data bs \<longleftrightarrow> bs mod 512 = 0 \<and> is_power_of_two bs \<and> bs < 2 ^ 32 \<and> length data mod bs = 0 \<and> length data \<le> 2 ^ 39"

abbreviation nonzero_block :: "bytes \<Rightarrow> nat \<Rightarrow> nat \<Rightarrow> bool" where
  "nonzero_block data bs i \<equiv> \<not> list_all (\<lambda>b. b = 0) (block_of data bs i)"

abbreviation diff_bitmap :: "nat \<Rightarrow> nat list \<Rightarrow> nat \<Rightarrow> bytes" where
  "diff_bitmap bs present i \<equiv> mark_present (bs div 512) i present (zeros (bitmap_size_of bs))"

lemma image_opens:
  assumes "image_size_ok data bs" "\<And>i. length (bitmap i) = bitmap_size_of bs"
  shows "\<exists>f d. vhd_image keep bitmap data bs = Inr f \<and> dynamic_parse f = Inr d \<and> stores d keep bitmap bs data \<and>
    window 0 8 f = ascii ''conectix''"
proof -
  obtain f bat where f: "vhd_image keep bitmap data bs = Inr f" "image_layout f bat keep bitmap bs data"
    using vhd_image_layout [of bs data bitmap keep] assms by (auto simp: image_size_ok_def)
  have "window 0 8 (window 0 512 f) = ascii ''conectix''"
    using f(2) image_footer_cookie by (simp add: image_layout_def)
  then show ?thesis
    using f image_layout_parse [OF f(2)] assms(1) by (auto simp: image_size_ok_def window_window simp del: ascii_Cons)
qed

lemma dynamic_vhd_opens:
  assumes "image_size_ok data bs"
  shows "\<exists>f d. dynamic_vhd data bs = Inr f \<and> dynamic_parse f = Inr d \<and>
    stores d (nonzero_block data bs) (\<lambda>i. full_bitmap bs) bs data \<and> window 0 8 f = ascii ''conectix''"
  using image_opens [OF assms, of "\<lambda>i. full_bitmap bs"] by (simp add: dynamic_vhd_def)

lemma diff_vhd_opens:
  assumes "image_size_ok data bs"
  shows "\<exists>f d. diff_vhd data bs present = Inr f \<and> dynamic_parse f = Inr d \<and>
    stores d (block_has_present bs present) (diff_bitmap bs present) bs data \<and> window 0 8 f = ascii ''conectix''"
  using image_opens [OF assms, of "diff_bitmap bs present"] by (simp add: diff_vhd_def)

text \<open>A dynamic image reads back: a sector is stored with its bit set, or its block is zero.\<close>

lemma sector_start: "i < length data \<Longrightarrow> i div SECTOR * SECTOR < length data"
  using div_times_less_eq_dividend [of i SECTOR] by linarith

lemma sector_block:
  assumes "bs mod 512 = 0"
  shows "i div SECTOR * SECTOR div bs = i div bs"
proof -
  obtain q where q: "bs = SECTOR * q" using assms by (auto simp: SECTOR_def)
  have "i div SECTOR * SECTOR div bs = i div SECTOR div q" by (simp add: q mult.commute [of _ SECTOR] SECTOR_def)
  then show ?thesis by (simp add: q div_mult2_eq)
qed

lemma dynamic_vhd_content:
  assumes st: "stores d (nonzero_block data bs) (\<lambda>i. full_bitmap bs) bs data"
  shows "dynamic_valid False d" "dynamic_content False d = data"
proof -
  have bm: "length (full_bitmap bs) = bitmap_size_of bs" for i :: nat by simp
  have vs: "dv_virtual_size d = length data" using st by (simp add: stores_def)
  have bit: "bitmap_bit (full_bitmap bs) (s mod (bs div SECTOR))" for s
  proof -
    have "0 < bs div 512" using st by (auto simp: stores_def mod_eq_0_iff_dvd dvd_imp_le div_greater_zero_iff)
    then show ?thesis by (intro full_bitmap_bit) (simp add: SECTOR_def)
  qed
  have loc: "dv_locate False d s = Inr (if nonzero_block data bs (s * SECTOR div bs) then At (sector_data d s) else Zero)"
    if "s * SECTOR < length data" for s
    using stores_sector(1) [OF st bm that] bit by (simp add: dv_locate_def)
  have "case dv_locate False d s of Inl e \<Rightarrow> False | Inr Zero \<Rightarrow> True
      | Inr (At base) \<Rightarrow> base + min SECTOR (length data - s * SECTOR) \<le> length (dv_file d)"
    if "s < div_ceil (length data) SECTOR" for s
  proof -
    have s: "s * SECTOR < length data" using that by (simp add: div_ceil_le_iff)
    show ?thesis
      using stores_sector(3) [OF st bm s]
      by (auto simp: loc [OF s] intro: order_trans [OF add_left_mono [OF min.cobounded1]])
  qed
  then show "dynamic_valid False d" using st by (simp add: dynamic_valid_def units_mapped_def stores_def)
  have "unit_byte SECTOR (dv_locate False d) (dv_file d) i = data ! i" if i: "i < length data" for i
  proof -
    let ?s = "i div SECTOR" and ?k = "i mod SECTOR"
    have s: "?s * SECTOR < length data" using sector_start [OF i] .
    have e: "?s * SECTOR + ?k = i" "?k < SECTOR" by simp_all
    show ?thesis
    proof (cases "nonzero_block data bs (?s * SECTOR div bs)")
      case True
      have "window (sector_data d ?s) SECTOR (dv_file d) ! ?k = window (?s * SECTOR) SECTOR data ! ?k"
        using stores_sector(4) [OF st bm s] True by simp
      moreover have "window (sector_data d ?s) SECTOR (dv_file d) ! ?k = dv_file d ! (sector_data d ?s + ?k)"
        using stores_sector(3) [OF st bm s True] e(2) by (intro nth_window) linarith+
      moreover have "window (?s * SECTOR) SECTOR data ! ?k = data ! i"
        using nth_window [of ?k SECTOR "?s * SECTOR" data] e i by simp
      ultimately show ?thesis using loc [OF s] True by (simp add: unit_byte_def)
    next
      case False
      then have z: "list_all (\<lambda>b. b = 0) (block_of data bs (i div bs))" using sector_block st by (simp add: stores_def)
      have at: "i div bs * bs + i mod bs = i" "i mod bs < bs" using st by (simp_all add: stores_def)
      have "block_of data bs (i div bs) ! (i mod bs) = data ! i"
        using nth_window [of "i mod bs" bs "i div bs * bs" data] at i by (simp add: block_of_def)
      moreover have "i mod bs < length (block_of data bs (i div bs))"
        using at i by (simp only: block_of_def length_window min_less_iff_conj simp_thms)
      ultimately have "data ! i = 0" using z unfolding list_all_length by metis
      then show ?thesis using loc [OF s] False by (simp add: unit_byte_def)
    qed
  qed
  then show "dynamic_content False d = data"
    by (intro nth_equalityI) (simp_all add: dynamic_content_def unit_bytes_def vs)
qed

lemma fixed_vhd_opens:
  assumes "length data mod 512 = 0" "length data < 2 ^ 63"
  shows "\<exists>f. fixed_vhd data = Inr f \<and> read_footer f = Inr \<lparr>vf_data_offset = 2 ^ 64 - 1, vf_current_size = length data,
      vf_disk_type = DISK_TYPE_FIXED\<rparr> \<and> fixed_valid \<lparr>fv_file = f, fv_virtual_size = length data\<rparr> \<and>
    fixed_content \<lparr>fv_file = f, fv_virtual_size = length data\<rparr> = data"
proof -
  let ?ft = "image_footer 2 (length data) (2 ^ 64 - 1)"
  have "footer_parse ?ft = Inr \<lparr>vf_data_offset = 2 ^ 64 - 1, vf_current_size = length data, vf_disk_type = DISK_TYPE_FIXED\<rparr>"
    using assms(2) by (subst image_footer_parse) (simp_all add: u64_lim_def DISK_TYPE_FIXED_def)
  then show ?thesis
    using assms
    by (simp add: fixed_vhd_def read_footer_def read_exact_at_in window_append2 window_all' fixed_valid_def fixed_content_def u64_lim_def)
qed

end
