(* ===== verification/Vhd_Layers.thy ===== *)
theory Vhd_Layers
  imports Vhd_Image
begin

text \<open>
  A CCBoot chain end to end: a base image and increments written by the builders of \<open>Vhd_Image\<close>, found
  next to it and opened by \<open>open_backing\<close>, read as the layering rule of the code says of the data they were
  built from. \<open>layered_documented\<close> compares it with the rule of the documents.
\<close>

section \<open>Chains\<close>

text \<open>
  The layering rule on the data the files were built from: increments newest first, each the disk
  as it was then with the sectors its bitmap claims.
\<close>

definition claims :: "nat \<Rightarrow> bytes \<times> nat list \<Rightarrow> bool" where
  "claims s inc \<longleftrightarrow> s \<in> set (snd inc)"

definition captures :: "nat \<Rightarrow> nat \<Rightarrow> bytes \<times> nat list \<Rightarrow> bool" where
  "captures bs s inc \<longleftrightarrow> block_has_present bs (snd inc) (s * SECTOR div bs)"

definition layered_byte :: "nat \<Rightarrow> (bytes \<times> nat list) list \<Rightarrow> bytes \<Rightarrow> nat \<Rightarrow> u8" where
  "layered_byte bs incs base i =
     (let s = i div SECTOR in
      case find (claims s) incs of Some inc \<Rightarrow> fst inc ! i
      | None \<Rightarrow> (case find (captures bs s) incs of Some inc \<Rightarrow> fst inc ! i | None \<Rightarrow> base ! i))"

definition layered :: "nat \<Rightarrow> (bytes \<times> nat list) list \<Rightarrow> bytes \<Rightarrow> bytes" where
  "layered bs incs base = map (layered_byte bs incs base) [0..<length base]"

text \<open>The rule of the documents, which knows the bitmaps only.\<close>

definition documented_byte :: "(bytes \<times> nat list) list \<Rightarrow> bytes \<Rightarrow> nat \<Rightarrow> u8" where
  "documented_byte incs base i =
     (case find (claims (i div SECTOR)) incs of Some inc \<Rightarrow> fst inc ! i | None \<Rightarrow> base ! i)"

lemma layered_documented:
  "layered_byte bs incs base i = documented_byte incs base i \<longleftrightarrow>
    (find (claims (i div SECTOR)) incs = None \<longrightarrow>
      (\<forall>inc. find (captures bs (i div SECTOR)) incs = Some inc \<longrightarrow> fst inc ! i = base ! i))"
  by (auto simp: layered_byte_def documented_byte_def Let_def split: option.split)

definition increment :: "nat \<Rightarrow> nat \<Rightarrow> dynamic_vhd \<Rightarrow> bytes \<times> nat list \<Rightarrow> bool" where
  "increment bs n l inc \<longleftrightarrow> length (fst inc) = n \<and>
     stores l (block_has_present bs (snd inc)) (diff_bitmap bs (snd inc)) bs (fst inc)"

lemma increment_sector:
  assumes inc: "increment bs n l inc" and s: "s * SECTOR < n"
  shows "sector_offset False l s = Inr (if claims s inc then Some (sector_data l s) else None)"
    "block_sector_offset l s = Inr (if captures bs s inc then Some (sector_data l s) else None)"
    "captures bs s inc \<Longrightarrow> sector_data l s + SECTOR \<le> length (dv_file l)"
    "captures bs s inc \<Longrightarrow> window (sector_data l s) SECTOR (dv_file l) = window (s * SECTOR) SECTOR (fst inc)"
    "claims s inc \<Longrightarrow> captures bs s inc"
proof -
  let ?data = "fst inc" and ?present = "snd inc" and ?i = "s * SECTOR div bs" and ?k = "s mod (bs div SECTOR)"
  have st: "stores l (block_has_present bs ?present) (diff_bitmap bs ?present) bs ?data" and s': "s * SECTOR < length ?data"
    using inc s by (simp_all add: increment_def)
  have bm: "length (diff_bitmap bs ?present j) = bitmap_size_of bs" for j by simp
  note sec = stores_sector [OF st bm s']
  obtain q where q: "bs = 512 * q" "0 < q" using st by (auto simp: stores_def)
  have spb: "bs div 512 = q" "bs div SECTOR = q" using q by (simp_all add: SECTOR_def)
  have i: "?i = s div q" by (simp add: q mult.commute [of s] SECTOR_def)
  have cover: "q \<le> bitmap_size_of bs * 8"
    using div_ceil_upper [of 8 q] raw_le [of bs] spb(1) by simp
  have bit: "bitmap_bit (diff_bitmap bs ?present ?i) ?k \<longleftrightarrow> claims s inc"
  proof -
    have k: "?k < q" using q(2) spb by simp
    then have "?k div 8 < bitmap_size_of bs" using cover by linarith
    with k have "bitmap_bit (diff_bitmap bs ?present ?i) ?k \<longleftrightarrow> s div q * q + s mod q \<in> set ?present"
      using mark_present_bit [of q "zeros (bitmap_size_of bs)" ?k ?i ?present] cover q(2)
        bitmap_bit_zeros [of ?k "bitmap_size_of bs"] i spb by simp
    then show ?thesis by (simp add: claims_def)
  qed
  show cc: "claims s inc \<Longrightarrow> captures bs s inc"
    using i spb by (auto simp: claims_def captures_def block_has_present_def list_ex_iff)
  show "sector_offset False l s = Inr (if claims s inc then Some (sector_data l s) else None)"
    using sec(1) bit cc by (simp add: captures_def)
  show "block_sector_offset l s = Inr (if captures bs s inc then Some (sector_data l s) else None)"
    "captures bs s inc \<Longrightarrow> sector_data l s + SECTOR \<le> length (dv_file l)"
    "captures bs s inc \<Longrightarrow> window (sector_data l s) SECTOR (dv_file l) = window (s * SECTOR) SECTOR ?data"
    using sec(2-4) by (simp_all add: captures_def)
qed

lemma increment_byte:
  assumes "increment bs n l inc" "captures bs (i div SECTOR) inc" "i < n"
  shows "dv_file l ! (sector_data l (i div SECTOR) + i mod SECTOR) = fst inc ! i"
proof -
  let ?s = "i div SECTOR" and ?k = "i mod SECTOR"
  have s: "?s * SECTOR < n" using assms(3) sector_start [of i "replicate n ()"] by simp
  have e: "?s * SECTOR + ?k = i" "?k < SECTOR" by simp_all
  have "length (fst inc) = n" using assms(1) by (simp add: increment_def)
  then have "window (?s * SECTOR) SECTOR (fst inc) ! ?k = fst inc ! i"
    using nth_window [of ?k SECTOR "?s * SECTOR" "fst inc"] e assms(3) by simp
  moreover have "window (sector_data l ?s) SECTOR (dv_file l) ! ?k = dv_file l ! (sector_data l ?s + ?k)"
    using increment_sector(3) [OF assms(1) s assms(2)] e(2) by (intro nth_window) linarith+
  ultimately show ?thesis using increment_sector(4) [OF assms(1) s assms(2)] by simp
qed

lemma probe_increments:
  assumes "list_all2 R ls incs" "\<And>l inc. R l inc \<Longrightarrow> look l = Inr (if P inc then Some (at l) else None)"
  shows "(find P incs = None \<and> probe_layers look ls = Inr None) \<or>
    (\<exists>l inc. find P incs = Some inc \<and> P inc \<and> R l inc \<and> probe_layers look ls = Inr (Some (l, at l)))"
  using assms(1)
proof (induction rule: list_all2_induct)
  case (Cons l ls inc incs)
  then show ?case using assms(2) [OF Cons.hyps(1)] by auto
qed simp

lemma increment_valid:
  assumes inc: "increment bs n l inc"
  shows "layer_valid False n l"
proof -
  have "located l n s (sector_offset False l s) \<and> located l n s (block_sector_offset l s)" if "s < div_ceil n SECTOR" for s
  proof -
    have s: "s * SECTOR < n" using that by (simp add: div_ceil_le_iff)
    have "captures bs s inc \<Longrightarrow> sector_data l s + min SECTOR (n - s * SECTOR) \<le> length (dv_file l)"
      using increment_sector(3) [OF inc s] by simp
    then show ?thesis using increment_sector(1,2,5) [OF inc s] by (simp add: located_def)
  qed
  then show ?thesis by (simp add: layer_valid_def)
qed

lemma increment_chain_byte:
  assumes layers: "list_all2 (increment bs n) ls incs" and i: "i < n"
  shows "chain_byte False \<lparr>cv_overlays = ls, cv_base = base, cv_virtual_size = n\<rparr> i = layered_byte bs incs (disk_bytes base) i"
proof -
  let ?s = "i div SECTOR"
  have s: "?s * SECTOR < n" using sector_start [of i "replicate n ()"] i by simp
  note probe = probe_increments [OF layers, where at = "\<lambda>l. sector_data l ?s"]
  consider (bit) l inc where "find (claims ?s) incs = Some inc" "claims ?s inc" "increment bs n l inc"
      "probe_layers (\<lambda>l. sector_offset False l ?s) ls = Inr (Some (l, sector_data l ?s))"
    | (none) "find (claims ?s) incs = None" "probe_layers (\<lambda>l. sector_offset False l ?s) ls = Inr None"
    using probe [of "\<lambda>l. sector_offset False l ?s" "claims ?s", OF increment_sector(1) [where bs = bs, OF _ s], simplified] by auto
  then show ?thesis
  proof cases
    case bit
    then show ?thesis
      using increment_byte [OF bit(3) increment_sector(5) [OF bit(3) s bit(2)] i]
      by (simp add: chain_byte_def chain_source_def layered_byte_def Let_def)
  next
    case none
    consider (block) l inc where "find (captures bs ?s) incs = Some inc" "captures bs ?s inc" "increment bs n l inc"
        "probe_layers (\<lambda>l. block_sector_offset l ?s) ls = Inr (Some (l, sector_data l ?s))"
      | (below) "find (captures bs ?s) incs = None" "probe_layers (\<lambda>l. block_sector_offset l ?s) ls = Inr None"
      using probe [of "\<lambda>l. block_sector_offset l ?s" "captures bs ?s", OF increment_sector(2) [where bs = bs, OF _ s], simplified] by auto
    then show ?thesis
    proof cases
      case block
      then show ?thesis
        using none increment_byte [OF block(3,2) i] by (simp add: chain_byte_def chain_source_def layered_byte_def Let_def)
    qed (use none in \<open>simp add: chain_byte_def chain_source_def layered_byte_def Let_def\<close>)
  qed
qed

lemma chain_of_increments:
  assumes layers: "list_all2 (increment bs (bs_size base)) ls incs" and base: "serves base" "bs_size base < u64_lim"
  shows "chain_valid False \<lparr>cv_overlays = ls, cv_base = base, cv_virtual_size = bs_size base\<rparr>"
    "chain_content False \<lparr>cv_overlays = ls, cv_base = base, cv_virtual_size = bs_size base\<rparr> = layered bs incs (disk_bytes base)"
proof -
  have "layer_valid False (bs_size base) l" if "l \<in> set ls" for l
    using that layers by (auto simp: list_all2_conv_all_nth in_set_conv_nth intro: increment_valid)
  then show "chain_valid False \<lparr>cv_overlays = ls, cv_base = base, cv_virtual_size = bs_size base\<rparr>"
    using base by (simp add: chain_valid_def list_all_iff)
  show "chain_content False \<lparr>cv_overlays = ls, cv_base = base, cv_virtual_size = bs_size base\<rparr> = layered bs incs (disk_bytes base)"
    using dyn.content_length [OF base(1)] increment_chain_byte [OF layers] by (simp add: chain_content_def layered_def)
qed

text \<open>The files of a chain: a base image and its increments, opened by the path of the base.\<close>

definition base_file :: "bytes \<Rightarrow> nat \<Rightarrow> bytes \<Rightarrow> bool" where
  "base_file base bs f \<longleftrightarrow> fixed_vhd base = Inr f \<or> dynamic_vhd base bs = Inr f"

lemma base_opens:
  assumes "base_file base bs f" "image_size_ok base bs" "se_file env path = Some f" "\<not> se_ignore_bitmap env"
  shows "\<exists>b footer. vhd_open env path = Inr b \<and> read_footer f = Inr footer \<and> serves b \<and> disk_bytes b = base \<and>
    bs_size b = length base"
proof -
  have boxed: ?thesis if "vhd_open env path = Inr b" "read_footer f = Inr footer" "serves b" "disk_bytes b = base" for b footer
    using that dyn.content_length [OF that(3)] by auto
  from assms(1) show ?thesis unfolding base_file_def
  proof
    assume f: "fixed_vhd base = Inr f"
    have "length base mod 512 = 0" "length base < 2 ^ 63"
      using assms(2) by (auto simp: image_size_ok_def mod_eq_0_iff_dvd intro: dvd_trans)
    from fixed_vhd_opens [OF this] f have r: "read_footer f = Inr \<lparr>vf_data_offset = 2 ^ 64 - 1, vf_current_size = length base,
        vf_disk_type = DISK_TYPE_FIXED\<rparr>" and v: "fixed_valid \<lparr>fv_file = f, fv_virtual_size = length base\<rparr>"
      "fixed_content \<lparr>fv_file = f, fv_virtual_size = length base\<rparr> = base" by auto
    have "vhd_open env path = Inr (box_dyn fv_virtual_size fixed_read_at \<lparr>fv_file = f, fv_virtual_size = length base\<rparr>)"
      using r assms(3) by (simp add: vhd_open_def fixed_open_def)
    from boxed [OF this r fixed.box_dyn_serves [OF v(1)]] fixed.box_dyn_content [OF v(1)] v(2) show ?thesis by simp
  next
    assume f: "dynamic_vhd base bs = Inr f"
    then obtain d where d: "dynamic_parse f = Inr d" "stores d (nonzero_block base bs) (\<lambda>i. full_bitmap bs) bs base"
      using dynamic_vhd_opens [OF assms(2)] by auto
    obtain footer where r: "read_footer f = Inr footer" "vf_disk_type footer = DISK_TYPE_DYNAMIC"
      using dynamic_parse_footer [OF d(1)] by blast
    have "vhd_open env path = Inr (box_dyn dv_virtual_size (dynamic_read_at False) d)"
      using d(1) r assms(3,4) disk_types_differ by (simp add: vhd_open_def dynamic_open_def)
    note c = dynamic_vhd_content [OF d(2)]
    from boxed [OF \<open>vhd_open env path = _\<close> r(1) dynvhd.box_dyn_serves [OF c(1)]] dynvhd.box_dyn_content [OF c(1)] c(2)
    show ?thesis by simp
  qed
qed

definition increment_file :: "storage_env \<Rightarrow> nat \<Rightarrow> nat \<Rightarrow> rstr \<Rightarrow> bytes \<times> nat list \<Rightarrow> bool" where
  "increment_file env bs n path inc \<longleftrightarrow> image_size_ok (fst inc) bs \<and> length (fst inc) = n \<and>
     (\<exists>f. diff_vhd (fst inc) bs (snd inc) = Inr f \<and> se_file env path = Some f)"

lemma open_increments:
  "list_all2 (increment_file env bs n) paths incs \<Longrightarrow>
    \<exists>ls. open_layers (se_file env) n paths = Inr ls \<and> list_all2 (increment bs n) ls incs"
proof (induction rule: list_all2_induct)
  case (Cons path paths inc incs)
  obtain f where f: "image_size_ok (fst inc) bs" "length (fst inc) = n" "diff_vhd (fst inc) bs (snd inc) = Inr f"
    "se_file env path = Some f" using Cons.hyps(1) by (auto simp: increment_file_def)
  obtain l where l: "dynamic_parse f = Inr l" "increment bs n l inc"
    using diff_vhd_opens [OF f(1), of "snd inc"] f(2,3) by (auto simp: increment_def)
  have "dv_virtual_size l = n" using l(2) by (auto simp: increment_def stores_def)
  then show ?case using Cons.IH l f(4) by (auto simp: dynamic_open_def)
qed simp

lemma chain_files_serve:
  assumes base: "base_file base bs0 f" "image_size_ok base bs0" "se_file env path = Some f"
    and incs: "increments_of env path = paths" "paths \<noteq> []" "list_all2 (increment_file env bs (length base)) paths incs"
    and env: "\<not> se_ignore_bitmap env" "\<not> se_no_chain env" "window 0 8 f \<noteq> ascii ''vhdxfile''"
  shows "\<exists>b. open_backing env path = Inr b \<and> serves b \<and> disk_bytes b = layered bs (rev incs) base"
proof -
  obtain b footer where b: "vhd_open env path = Inr b" "read_footer f = Inr footer" "serves b" "disk_bytes b = base"
      "bs_size b = length base"
    using base_opens [OF base env(1)] by blast
  obtain ls where ls: "open_layers (se_file env) (length base) (rev paths) = Inr ls"
      "list_all2 (increment bs (length base)) ls (rev incs)"
    using open_increments incs(3) list_all2_rev by metis
  have "length base < u64_lim" using base(2) by (simp add: image_size_ok_def u64_lim_def)
  then have chain: "chain_valid False \<lparr>cv_overlays = ls, cv_base = b, cv_virtual_size = bs_size b\<rparr>"
    "chain_content False \<lparr>cv_overlays = ls, cv_base = b, cv_virtual_size = bs_size b\<rparr> = layered bs (rev incs) base"
    using chain_of_increments [of bs b ls "rev incs"] ls(2) b(3-5) by simp_all
  have "chain_open (se_file env) b (increments_of env path) = Inr \<lparr>cv_overlays = ls, cv_base = b, cv_virtual_size = bs_size b\<rparr>"
    using ls(1) incs(1) b(5) by (simp add: chain_open_def)
  from open_backing_chain [OF base(3) b(2) env(3) b(1) env(2) _ this] incs(1,2) env(1) chain
  show ?thesis by auto
qed

end
