(* ===== verification/Positioned.thy ===== *)
theory Positioned
  imports Storage
begin

text \<open>
  The Windows side of \<open>storage/file_ext.rs\<close>: \<open>read_exact_at\<close> as a loop over the system call
  \<open>seek_read\<close>, which may return fewer bytes than it was asked for. The call is the interface
  \<open>positioned_file\<close>; over any file that keeps its contract the loop is the \<open>read_exact_at\<close> that
  the stores are built on, so the two platforms read alike.
\<close>

section \<open>The system call\<close>

text \<open>
  \<open>seek_read offset n\<close> fills part of a buffer of \<open>n\<close> bytes: some of the bytes of the file from the offset on, at least
  one as long as there is one and room for it, and none at the end of the file.
\<close>

locale positioned_file =
  fixes seek_read :: "nat \<Rightarrow> nat \<Rightarrow> bytes io" and content :: bytes
  assumes seek_read_some: "offset < length content \<Longrightarrow> 0 < n \<Longrightarrow>
      \<exists>k. 0 < k \<and> k \<le> n \<and> offset + k \<le> length content \<and> seek_read offset n = Inr (window offset k content)"
    and seek_read_end: "length content \<le> offset \<Longrightarrow> seek_read offset n = Inr []"

section \<open>The loop\<close>

text \<open>
  \<open>got\<close> holds the bytes read so far, \<open>read\<close> of them in the code. The sum of the offset and the
  bytes read is of \<open>u64\<close>.
\<close>

function seek_loop :: "(nat \<Rightarrow> nat \<Rightarrow> bytes io) \<Rightarrow> nat \<Rightarrow> nat \<Rightarrow> bytes \<Rightarrow> bytes io" where
  "seek_loop seek_read offset len got =
     (if len \<le> length got then Inr got
      else if u64_lim \<le> offset + length got then Inl Panicked
      else case seek_read (offset + length got) (len - length got) of
        Inl e \<Rightarrow> Inl e
      | Inr bs \<Rightarrow> if bs = [] then Inl UnexpectedEof else seek_loop seek_read offset len (got @ bs))"
  by auto
termination by (relation "measure (\<lambda>(seek_read, offset, len, got). len - length got)") (auto intro!: diff_less_mono2)

declare seek_loop.simps [simp del]

definition seek_read_exact_at :: "(nat \<Rightarrow> nat \<Rightarrow> bytes io) \<Rightarrow> nat \<Rightarrow> nat \<Rightarrow> bytes io" where
  "seek_read_exact_at seek_read offset len = seek_loop seek_read offset len []"

context positioned_file
begin

lemma seek_loop_window:
  assumes "length got \<le> len" "got = window offset (length got) content" "offset + len < u64_lim"
  shows "seek_loop seek_read offset len got = read_exact_at content offset len"
  using assms(1,2)
proof (induction "len - length got" arbitrary: got rule: less_induct)
  case less
  let ?n = "length got"
  have lim: "offset + ?n < u64_lim" using less.prems(1) assms(3) by linarith
  consider "?n = len" | "?n < len" "length content \<le> offset + ?n" | "?n < len" "offset + ?n < length content"
    using less.prems(1) by linarith
  then show ?case
  proof cases
    case 1
    moreover from this less.prems(2) have "len = 0 \<or> offset + len \<le> length content"
      using length_window [of offset len content] by (cases "len = 0") (auto simp: min_def split: if_splits)
    moreover have "seek_loop seek_read offset len got = Inr got"
      using \<open>?n = len\<close> by (subst seek_loop.simps) simp
    ultimately show ?thesis using less.prems(2) by (auto simp: read_exact_at_def)
  next
    case 2
    then show ?thesis
      using lim seek_read_end by (auto simp: seek_loop.simps [of _ _ _ got] read_exact_at_def)
  next
    case 3
    then obtain k where k: "0 < k" "k \<le> len - ?n" "offset + ?n + k \<le> length content"
        "seek_read (offset + ?n) (len - ?n) = Inr (window (offset + ?n) k content)"
      using seek_read_some [of "offset + ?n" "len - ?n"] by auto
    let ?got = "got @ window (offset + ?n) k content"
    have len: "length ?got = ?n + k" using k(3) by simp
    then have "?got = window offset (length ?got) content"
      using less.prems(2) by (simp only: window_split [of offset "?n" k] append_same_eq)
    then have "seek_loop seek_read offset len ?got = read_exact_at content offset len"
      using len k(1,2) 3(1) by (intro less.hyps) linarith+
    moreover have "window (offset + ?n) k content \<noteq> []" using len k(1) by auto
    ultimately show ?thesis using 3(1) lim k(4) by (simp add: seek_loop.simps [of _ _ _ got])
  qed
qed

lemma seek_read_exact_at_eq:
  "offset + len < u64_lim \<Longrightarrow> seek_read_exact_at seek_read offset len = read_exact_at content offset len"
  by (simp add: seek_read_exact_at_def seek_loop_window)

end

text \<open>A file that hands out at most \<open>Suc cap\<close> bytes a call, as a volume or a network drive may.\<close>

definition short_read :: "nat \<Rightarrow> file_data \<Rightarrow> nat \<Rightarrow> nat \<Rightarrow> bytes io" where
  "short_read cap f offset n = Inr (window offset (min n (Suc cap)) f)"

interpretation short: positioned_file "short_read cap f" f for cap f
proof
  show "\<exists>k. 0 < k \<and> k \<le> n \<and> offset + k \<le> length f \<and> short_read cap f offset n = Inr (window offset k f)"
    if "offset < length f" "0 < n" for offset n
    using that
    by (intro exI [of _ "min (min n (Suc cap)) (length f - offset)"]) (auto simp: short_read_def window_def min_def)
  show "short_read cap f offset n = Inr []" if "length f \<le> offset" for offset n
    using that by (simp add: short_read_def window_def)
qed

end
