(* ===== verification/Power_On.thy ===== *)
theory Power_On
  imports System Tftp
begin

text \<open>
  A client from power-on to its boot script: the DHCP replies as they are on the wire, the boot file
  over TFTP and the script over HTTP, each answer leading to the next request.
\<close>

text \<open>A file the TFTP server can serve under a name: below the root, readable, and short enough.\<close>

definition servable :: "tftp_fs \<Rightarrow> tftp_server \<Rightarrow> rstr \<Rightarrow> bytes \<Rightarrow> bool" where
  "servable fs cfg name data \<longleftrightarrow> is_safe_path name \<and> cstr_ok name \<and> n_blocks data 512 < 65536 \<and>
     (\<exists>path root. fs_canonicalize fs (fs_join fs (ts_tftp_root cfg) name) = Some path \<and>
        fs_canonicalize fs (ts_tftp_root cfg) = Some root \<and> starts_with root path \<and> fs_read fs path = Some data)"

definition acks_for :: "bytes \<Rightarrow> nat \<Rightarrow> recv list" where
  "acks_for data bs = map (\<lambda>i. Received (ack_datagram (of_nat i))) [1..<Suc (n_blocks data bs)]"

lemma servable_served:
  assumes "servable fs cfg name data" "cstr_ok mode"
  shows "handle_request uni fs cfg (encode_rrq name mode []) (acks_for data 512) =
    (map (data_packet data 512) [1..<Suc (n_blocks data 512)], Inr Returned)"
proof -
  obtain path root where f: "fs_canonicalize fs (fs_join fs (ts_tftp_root cfg) name) = Some path"
      "fs_canonicalize fs (ts_tftp_root cfg) = Some root" "starts_with root path" "fs_read fs path = Some data"
    and n: "is_safe_path name" "cstr_ok name" "n_blocks data 512 < 65536"
    using assms(1) by (auto simp: servable_def)
  show ?thesis using request_served [OF f n(1,2) assms(2) n(3)] by (simp add: acks_for_def)
qed

text \<open>Which requests the DHCP server answers, and what the datagram it sends says.\<close>

definition bootable :: "dhcp_message \<Rightarrow> bool" where
  "bootable m \<longleftrightarrow> hw_addr m \<noteq> [] \<and> (is_ipxe m \<or> client_arch m \<in> Some ` {ARCH_BIOS_X86, ARCH_UEFI_X64, ARCH_UEFI_X64_ALT})"

lemma bootable_plan: "bootable m \<Longrightarrow> \<exists>pl. plan m cfg = Some pl"
  by (auto simp: bootable_def plan_def assign_ip_from_mac_def Let_def)

lemma bootable_reply:
  assumes fits: "boot_fits cfg" and req: "dhcp_parse (take 2048 d) = Inr req"
    and ok: "bootable req" "answers port67 req" "reply_role port67 req \<noteq> DhcpServer"
  shows "\<exists>bs dest reply pl. listener_step cfg port67 d src = Inr (Some (bs, dest)) \<and> dhcp_parse bs = Inr reply \<and>
    plan req cfg = Some pl \<and> msg_option reply BOOTFILE_NAME = Some (pl_bootfile pl) \<and>
    dm_siaddr reply = (case pl_next_server pl of None \<Rightarrow> UNSPECIFIED | Some ip \<Rightarrow> ip)"
proof -
  obtain pl where pl: "plan req cfg = Some pl" using bootable_plan [OF ok(1)] by blast
  obtain reply dest where h: "handle_datagram (take 2048 d) cfg port67 src = Some (reply, dest)"
    using req pl ok(2) by (simp add: handle_datagram_eq)
  from h obtain req' pl' mtype v where "dhcp_parse (take 2048 d) = Inr req'" "plan req' cfg = Some pl'"
      "reply = build_reply req' pl' cfg mtype v (reply_role port67 req')"
    by (rule handle_datagram_reply)
  then have reply: "reply = build_reply req pl cfg mtype v (reply_role port67 req)" using req pl by simp
  have "msg_option reply BOOTFILE_NAME = Some (pl_bootfile pl)" using ok(3) by (simp add: reply reply_option)
  moreover have "dm_siaddr reply = (case pl_next_server pl of None \<Rightarrow> UNSPECIFIED | Some ip \<Rightarrow> ip)"
    by (simp add: reply build_reply_def)
  ultimately show ?thesis using listener_reply [OF fits h] pl by blast
qed

definition boot_file :: "boot_config \<Rightarrow> dhcp_message \<Rightarrow> rstr" where
  "boot_file boot m = (if client_arch m = Some ARCH_BIOS_X86 then bc_bios_filename boot else bc_uefi_filename boot)"

lemma firmware_plan:
  assumes "plan m cfg = Some pl" "\<not> is_ipxe m"
  shows "pl_bootfile pl = boot_file cfg m" "pl_next_server pl = Some (bc_server_ip cfg)"
  using plan_firmware [OF assms] by (auto simp: boot_file_def ARCH_BIOS_X86_def)

lemma firmware_gets_file:
  assumes fits: "boot_fits boot" and req: "dhcp_parse (take 2048 d) = Inr fw" "\<not> is_ipxe fw"
    and ok: "bootable fw" "answers port67 fw" "reply_role port67 fw \<noteq> DhcpServer"
    and srv: "servable fs cfg (boot_file boot fw) data" "cstr_ok mode"
  shows "\<exists>bs dest offer name. listener_step boot port67 d src = Inr (Some (bs, dest)) \<and> dhcp_parse bs = Inr offer \<and>
    msg_option offer BOOTFILE_NAME = Some name \<and> dm_siaddr offer = bc_server_ip boot \<and>
    handle_request uni fs cfg (encode_rrq name mode []) (acks_for data 512) =
      (map (data_packet data 512) [1..<Suc (n_blocks data 512)], Inr Returned)"
proof -
  obtain bs dest reply pl where b: "listener_step boot port67 d src = Inr (Some (bs, dest))" "dhcp_parse bs = Inr reply"
      "plan fw boot = Some pl" "msg_option reply BOOTFILE_NAME = Some (pl_bootfile pl)"
      "dm_siaddr reply = (case pl_next_server pl of None \<Rightarrow> UNSPECIFIED | Some ip \<Rightarrow> ip)"
    using bootable_reply [OF fits req(1) ok] by blast
  note pl = firmware_plan [OF b(3) req(2)]
  show ?thesis using b(1,2,4,5) servable_served [OF srv, of uni] by (simp add: pl)
qed

lemma ipxe_gets_script:
  assumes fits: "boot_fits boot" and req: "dhcp_parse (take 2048 d) = Inr ix" "is_ipxe ix"
    and ok: "bootable ix" "answers port67 ix" "reply_role port67 ix \<noteq> DhcpServer"
    and cfg: "cf_boot cfg = Some boot" "resolve uni m (format_mac (hw_addr ix)) = Some c"
  shows "\<exists>bs dest offer query r'. listener_step boot port67 d src = Inr (Some (bs, dest)) \<and> dhcp_parse bs = Inr offer \<and>
    msg_option offer BOOTFILE_NAME = Some (bc_http_script_url boot @ [63] @ query) \<and>
    http_handle uni cfg m r \<lparr>hq_get = True, hq_path = ascii ''/boot.ipxe'', hq_query = Some query\<rparr> =
      Inr (\<lparr>hr_status = 200, hr_body = boot_script (client_iqn c) (ipv4_string (bc_server_ip boot))\<rparr>, r') \<and>
    registry_get r' (client_iqn c) = Some (length (reg_heap r))"
proof -
  obtain bs dest reply pl where b: "listener_step boot port67 d src = Inr (Some (bs, dest))" "dhcp_parse bs = Inr reply"
      "plan ix boot = Some pl" "msg_option reply BOOTFILE_NAME = Some (pl_bootfile pl)"
    using bootable_reply [OF fits req(1) ok] by blast
  obtain query where q: "pl_bootfile pl = bc_http_script_url boot @ [63] @ query"
      "boot_request (format_mac (hw_addr ix)) \<lparr>hq_get = True, hq_path = ascii ''/boot.ipxe'', hq_query = Some query\<rparr>"
    using ipxe_boot_request [OF b(3) req(2)] by blast
  show ?thesis
    using http_boot [OF q(2) cfg(2,1), of r] b(1,2,4) q(1) by (auto simp: registry_get_insert simp del: ascii_Cons)
qed

end
