(* ===== verification/Samples.thy ===== *)
theory Samples
  imports Cache Server Volume_Ops Vhdx_Image Image_Safety Luns Testkit Vhd_Layers Positioned Power_On
begin

text \<open>
  Concrete states of every component: a raw image of 8192 bytes, the volume, logical unit, target
  and registry over it, a connection that has logged in, two commands, and a configuration with
  its files. The theorems are instantiated on them.
\<close>

section \<open>Disks\<close>

definition sample_file :: bytes where
  "sample_file = replicate 8192 7"

definition sample_store :: backing where
  "sample_store = box_dyn rf_size raw_read_at \<lparr>rf_file = sample_file, rf_size = 8192\<rparr>"

lemma length_sample_file [simp]: "length sample_file = 8192"
  by (simp add: sample_file_def)

lemma sample_store_ok [simp]: "serves sample_store" "disk_bytes sample_store = sample_file" "bs_size sample_store = 8192"
proof -
  have v: "raw_valid \<lparr>rf_file = sample_file, rf_size = 8192\<rparr>" by (simp add: raw_valid_def u64_lim_def)
  show "serves sample_store" "disk_bytes sample_store = sample_file"
    using raw.box_dyn_serves [OF v] raw.box_dyn_content [OF v] by (simp_all add: sample_store_def)
  show "bs_size sample_store = 8192" by (simp add: sample_store_def box_dyn_def)
qed

lemma sample_lim [simp]: "8192 < u64_lim" "(12288 :: nat) < u64_lim"
  by (simp_all add: u64_lim_def)

definition sample_volume :: volume where
  "sample_volume = vol_new sample_store ov_new"

lemma sample_volume_ok [simp]: "vol_inv sample_volume" "vol_size sample_volume = 8192" "vol_bytes sample_volume = sample_file"
  by (simp_all add: sample_volume_def vol_inv_new vol_bytes_new) (simp add: vol_size_def vol_new_def)

text \<open>A run of two writers: the first loads its block, the second stores its own, the first patches.\<close>

lemma sample_interleaving:
  "\<exists>v' ws. writers_run sample_volume [writer_start 5 [1], writer_start 4096 (replicate 4096 9)] v' ws \<and>
    (\<forall>w \<in> set ws. wr_finished w)"
proof -
  let ?a = "writer_start 5 [1]" and ?b = "writer_start 4096 (replicate 4096 9)"
  let ?v1 = "store_block sample_volume 1 (replicate 4096 9)"
  have l: "writer_step sample_volume ?a sample_volume
      (?a\<lparr>wr_loaded := Some (window 0 (min BLOCK (vol_size sample_volume)) (vol_bytes sample_volume))\<rparr>)"
    by (rule first_load) (simp_all add: BLOCK_def)
  have c: "wr_pos ?b = 4096" "wr_chunk ?b 4096 = replicate 4096 9" "\<not> wr_finished ?b" "wr_loaded ?b = None" "wr_sent ?b = 0"
    by (simp_all add: wr_pos_def wr_chunk_def writer_start_def wr_finished_def BLOCK_def window_replicate)
  have "block_len sample_volume (wr_pos ?b div BLOCK) = Inr 4096"
    by (simp add: c block_len_def BLOCK_def)
  from writer_step.whole [OF c(3) this _ c(4)]
  have w: "writer_step sample_volume ?b ?v1 (?b\<lparr>wr_sent := 4096\<rparr>)"
    by (simp add: c BLOCK_def)
  have p: "writer_step ?v1 (?a\<lparr>wr_loaded := Some b\<rparr>) (store_block ?v1 0 (put 5 [1] b)) (?a\<lparr>wr_sent := 1\<rparr>)" for b
    using first_patch [of "[1]" 5 ?v1 b] by (simp add: store_block_def BLOCK_def)
  show ?thesis
    by (intro exI conjI, rule writers_run_0 [OF l writers_run_1 [OF w writers_run_0 [OF p writers_run.stop]]])
      (simp add: wr_finished_def writer_start_def)
qed

text \<open>An increment over the image that claims sector 3.\<close>

definition sample_bitmap :: bytes where
  "sample_bitmap = 16 # replicate 511 0"

definition sample_layer :: dynamic_vhd where
  "sample_layer = \<lparr>dv_file = sample_bitmap @ replicate 8192 9, dv_virtual_size = 8192, dv_block_size = 2 ^ 21,
     dv_bitmap_size = 512, dv_bat = [0], dv_bitmaps = [Some sample_bitmap]\<rparr>"

definition sample_chain :: chained_vhd where
  "sample_chain = \<lparr>cv_overlays = [sample_layer], cv_base = sample_store, cv_virtual_size = 8192\<rparr>"

lemma sample_layer_length: "length (dv_file sample_layer) = 8704"
  by (simp add: sample_layer_def sample_bitmap_def)

lemma sample_lookup:
  assumes "s < 16"
  shows "block_sector_offset sample_layer s = Inr (Some (512 + s * 512))"
    "sector_offset False sample_layer s =
      Inr (if sample_bitmap ! (s div 8) AND push_bit (7 - s mod 8) 1 = 0 then None else Some (512 + s * 512))"
  using assms
  by (simp_all add: block_sector_offset_def sector_offset_def bat_entry_def block_bitmap_def sectors_per_block_def
      phys_offset_def sample_layer_def sample_bitmap_def SECTOR_def BAT_HOLE_def)

lemma sample_chain_ok: "chain_valid False sample_chain"
    "bitmap_layer False sample_chain 3 = Some sample_layer" "sector_data sample_layer 3 = 2048"
    "bitmap_layer False sample_chain 0 = None" "block_layer sample_chain 0 = Some sample_layer" "sector_data sample_layer 0 = 512"
proof -
  have "layer_valid False 8192 sample_layer"
  proof (unfold layer_valid_def, intro allI impI)
    fix s assume "s < div_ceil 8192 SECTOR"
    then have "s < 16" by (simp add: div_ceil_def SECTOR_def)
    then show "located sample_layer 8192 s (sector_offset False sample_layer s) \<and>
        located sample_layer 8192 s (block_sector_offset sample_layer s)"
      by (simp add: sample_lookup located_def sample_layer_length SECTOR_def)
  qed
  then show "chain_valid False sample_chain"
    by (simp add: chain_valid_def sample_chain_def)
  show "bitmap_layer False sample_chain 3 = Some sample_layer" "bitmap_layer False sample_chain 0 = None"
    "block_layer sample_chain 0 = Some sample_layer"
    by (simp_all add: bitmap_layer_def block_layer_def sample_chain_def sample_lookup sample_bitmap_def)
  show "sector_data sample_layer 3 = 2048" "sector_data sample_layer 0 = 512"
    by (simp_all add: sector_data_def phys_offset_def sectors_per_block_def sample_layer_def SECTOR_def)
qed

section \<open>Targets and connections\<close>

definition sample_unit :: logical_unit where
  "sample_unit = fresh_unit sample_store"

lemma sample_unit_ok [simp]: "lu_inv sample_unit" "lu_bytes sample_unit = sample_file" "lu_capacity sample_unit = 16"
    "lu_block_size sample_unit = 512"
  by (simp_all add: sample_unit_def fresh_unit_inv fresh_unit_bytes)
    (simp_all add: lu_capacity_def fresh_unit_def lu_new_def vol_new_def vol_size_def)

definition sample_target :: scsi_target where
  "sample_target = \<lparr>st_luns = [Some sample_unit]\<rparr>"

lemma sample_target_ok [simp]: "target_inv sample_target" "lun_at sample_target 0 = Some (0, sample_unit)"
  by (simp_all add: target_inv_def sample_target_def lun_at_def lun_number_def)

definition sample_registry :: registry where
  "sample_registry = registry_insert (ascii ''iqn'') sample_target registry_new"

lemma sample_registry_ok [simp]: "registry_inv sample_registry" "length (reg_heap sample_registry) = 1"
    "reg_heap sample_registry ! 0 = sample_target" "registry_get sample_registry (ascii ''iqn'') = Some 0"
  by (simp_all add: sample_registry_def registry_inv_insert registry_inv_new registry_get_insert del: ascii_Cons)
    (simp_all add: registry_insert_def registry_new_def)

definition sample_conn :: connection where
  "sample_conn = connection_new\<lparr>cn_stage := FullFeature, cn_target := Some 0\<rparr>"

lemma sample_conn_ok [simp]: "conn_inv sample_registry sample_conn" "cn_stage sample_conn = FullFeature"
    "cn_target sample_conn = Some 0" "cn_in_flight sample_conn = (\<lambda>_. None)" "cn_params sample_conn = params_default"
  by (simp_all add: sample_conn_def connection_new_def conn_inv_def params_ok_default)

text \<open>\<open>WRITE(10)\<close> and \<open>READ(10)\<close> of block 3.\<close>

definition sample_write :: scsi_command where
  "sample_write = \<lparr>sc_final = True, sc_read = False, sc_write = True, sc_attr = 0, sc_lun = 0, sc_itt = 5,
     sc_edtl = 512, sc_cmd_sn = 0, sc_exp_stat_sn = 0,
     sc_cdb = [0x2a, 0, 0, 0, 0, 3, 0, 0, 1, 0, 0, 0, 0, 0, 0, 0], sc_data = []\<rparr>"

definition sample_read :: scsi_command where
  "sample_read = \<lparr>sc_final = True, sc_read = True, sc_write = False, sc_attr = 0, sc_lun = 0, sc_itt = 6,
     sc_edtl = 512, sc_cmd_sn = 0, sc_exp_stat_sn = 0,
     sc_cdb = [0x28, 0, 0, 0, 0, 3, 0, 0, 1, 0, 0, 0, 0, 0, 0, 0], sc_data = []\<rparr>"

lemma sample_write_ok [simp]: "sc_write sample_write" "is_write_op (sc_cdb sample_write ! 0)"
    "rw_extent (sc_cdb sample_write) = (3, 1)" "unat (sc_edtl sample_write) = 512" "sc_data sample_write = []"
    "sc_lun sample_write = 0" "sc_itt sample_write = 5"
  by (simp_all add: sample_write_def is_write_op_def)
    (simp add: rw_extent_def lba32_def len16_def be32_def be16_def window_def be_val_def)

lemma sample_read_ok [simp]: "sc_read sample_read" "\<not> sc_write sample_read" "is_read_op (sc_cdb sample_read ! 0)"
    "rw_extent (sc_cdb sample_read) = (3, 1)" "sc_lun sample_read = 0"
  by (simp_all add: sample_read_def is_read_op_def)
    (simp add: rw_extent_def lba32_def len16_def be32_def be16_def window_def be_val_def)

text \<open>An INQUIRY for 36 bytes, and its answer.\<close>

definition sample_inquiry :: scsi_command where
  "sample_inquiry = sample_read\<lparr>sc_edtl := 36, sc_cdb := [0x12, 0, 0, 0, 36, 0] @ zeros 10\<rparr>"

lemma inquiry_answered:
  "\<exists>c' d. handle sample_registry sample_conn (ScsiCommand sample_inquiry) [] = Inr (sample_registry, c', [DataInOut d]) \<and>
    length (di_data d) = 36"
proof -
  let ?c = "sample_conn\<lparr>cn_exp_cmd_sn := cn_exp_cmd_sn sample_conn + 1\<rparr>" and ?bs = "standard_inquiry sample_unit"
  have len: "length ?bs = 36" by (simp add: standard_inquiry_def length_puts puts_fit_def sample_unit_def fresh_unit_def lu_new_def)
  have "sample_registry\<lparr>reg_heap := (reg_heap sample_registry)[0 := sample_target]\<rparr> = sample_registry"
    using sample_registry_ok(3) by (metis list_update_id registry.surjective registry.update_convs(1) registry.update_convs(2))
  moreover have "sample_target\<lparr>st_luns := (st_luns sample_target)[0 := Some sample_unit]\<rparr> = sample_target"
    by (simp add: sample_target_def)
  ultimately have run: "run_target sample_registry ?c sample_inquiry [] = Inr (sample_registry, outcome_good ?bs)"
    by (simp add: run_target_def execute_def sample_inquiry_def dispatch_def inquiry_def sample_read_def has_bit_def)
  have "\<exists>c' d. data_in_chunks ?c sample_inquiry ?bs = Inr (c', [DataInOut d]) \<and> length (di_data d) = 36"
    by (simp add: data_in_chunks_def data_in_loop.simps [where bs = ?bs] len length_window params_default_def Let_def)
  moreover have "sc_read sample_inquiry" "\<not> sc_write sample_inquiry" "sc_data sample_inquiry = []" "?bs \<noteq> []"
    using len by (auto simp: sample_inquiry_def sample_read_def)
  ultimately show ?thesis
    using run by (auto simp: handle_def handle_command_def GOOD_def Let_def)
qed

text \<open>A connection waiting for the data of that write, and a Data-Out with its first half.\<close>

definition sample_waiting :: connection where
  "sample_waiting = sample_conn\<lparr>cn_in_flight := [5 \<mapsto>
     \<lparr>pw_cmd = sample_write, pw_buf = zeros (2 * 256), pw_received = 0, pw_r2t_sn = 0\<rparr>]\<rparr>"

definition sample_half :: scsi_data_out where
  "sample_half = \<lparr>do_final = True, do_lun = 0, do_itt = 5, do_ttt = 5, do_exp_stat_sn = 0, do_data_sn = 0,
     do_buffer_offset = 0, do_data = replicate 256 9\<rparr>"

lemma sample_waiting_ok: "conn_inv sample_registry sample_waiting" "cn_stage sample_waiting = FullFeature"
  using sample_conn_ok(1)
  by (simp_all add: sample_waiting_def conn_inv_def pending_ok_def)

section \<open>A configuration and its files\<close>

definition sample_boot :: boot_config where
  "sample_boot = \<lparr>bc_server_ip = [192, 168, 0, 1], bc_bind = [0, 0, 0, 0], bc_http_bind = [0, 0, 0, 0],
     bc_http_port = 8080, bc_iscsi_port = 3260, bc_tftp_root = ascii ''tftp'', bc_bios_filename = ascii ''undionly.kpxe'',
     bc_uefi_filename = ascii ''ipxe.efi'', bc_http_script_url = ascii ''http://192.168.0.1/boot.ipxe''\<rparr>"

definition sample_cfg :: config where
  "sample_cfg = \<lparr>
     cf_disks = [\<lparr>dk_id = ascii ''sys'', dk_type = Image, dk_backing = ascii ''disk.img'', dk_mode = None,
                   dk_ram_cache = 0, dk_policy = None\<rparr>,
                 \<lparr>dk_id = ascii ''wb'', dk_type = Writeback, dk_backing = ascii ''wb'', dk_mode = None,
                   dk_ram_cache = 0, dk_policy = None\<rparr>],
     cf_clients = [],
     cf_client_defaults = Some \<lparr>cd_system = ascii ''sys'', cd_games = [], cd_writeback = ascii ''wb''\<rparr>,
     cf_boot = Some sample_boot\<rparr>"

definition sample_env :: storage_env where
  "sample_env = \<lparr>se_file = (\<lambda>p. if p = ascii ''disk.img'' then Some sample_file else None),
     se_parts = (\<lambda>_. None), se_parent = (\<lambda>_. []), se_listing = (\<lambda>_. None), se_join = (@),
     se_no_chain = False, se_ignore_bitmap = False, se_lower = id\<rparr>"

definition sample_manager :: client_manager where
  "sample_manager = \<lparr>mg_clients = (\<lambda>_. None),
     mg_defaults = Some \<lparr>cc_mac = [], cc_name = None, cc_system = ascii ''sys'', cc_games = [], cc_writeback = ascii ''wb''\<rparr>,
     mg_stores = [ascii ''sys'' \<mapsto> sample_store]\<rparr>"

lemma sample_cfg_ok: "config_ok (\<lambda>_. True) sample_cfg"
  by (simp add: config_ok_def sample_cfg_def profile_ok_def is_disk_def Config.boot_ok_def sample_boot_def
      is_safe_filename_def starts_with_def)

lemma sample_open_file:
  assumes "se_file env path = Some sample_file"
  shows "open_backing env path = Inr sample_store"
proof -
  have "window 0 8 sample_file = replicate 8 7" "window 7680 8 sample_file = replicate 8 7"
    by (simp_all add: sample_file_def window_def)
  moreover have "replicate 8 7 ! 0 \<noteq> ascii ''vhdxfile'' ! 0" "replicate 8 7 ! 0 \<noteq> ascii ''conectix'' ! 0"
    by simp_all
  ultimately have "window 0 8 sample_file \<noteq> ascii ''vhdxfile''" "window 7680 8 sample_file \<noteq> ascii ''conectix''"
    by metis+
  then show ?thesis
    using assms by (simp add: open_backing_def raw_open_def sample_store_def del: ascii_Cons)
qed

lemma sample_open: "open_backing sample_env (ascii ''disk.img'') = Inr sample_store"
  by (rule sample_open_file) (simp add: sample_env_def)

lemma sample_manager_file:
  assumes "se_file env (ascii ''disk.img'') = Some sample_file"
  shows "manager_new env sample_cfg = Inr sample_manager"
proof -
  have "open_stores env (cf_disks sample_cfg) (\<lambda>_. None) = Inr [ascii ''sys'' \<mapsto> sample_store]"
    using sample_open_file [OF assms] by (simp add: sample_cfg_def del: ascii_Cons)
  then show ?thesis
    by (simp add: manager_new_def Let_def sample_cfg_def sample_manager_def default_config_def del: ascii_Cons)
qed

lemma sample_manager_new: "manager_new sample_env sample_cfg = Inr sample_manager"
  by (rule sample_manager_file) (simp add: sample_env_def)

lemma sample_images: "images_ok sample_manager"
  by (simp add: images_ok_def get_store_def sample_manager_def)

definition sample_request :: http_request where
  "sample_request = \<lparr>hq_get = True, hq_path = ascii ''/boot.ipxe'', hq_query = Some (ascii ''mac=02:00:00:00:00:05'')\<rparr>"

lemma sample_boot_request: "boot_request (ascii ''02:00:00:00:00:05'') sample_request"
  by (simp add: boot_request_def sample_request_def parse_mac_param_def push_char_def)

section \<open>Boot-time requests\<close>

text \<open>The DHCPREQUEST of an iPXE client, and a file system with one directory of boot files.\<close>

definition sample_dhcp :: dhcp_message where
  "sample_dhcp = \<lparr>dm_op = BOOTREQUEST, dm_htype = 1, dm_hlen = 6, dm_hops = 0, dm_xid = 77, dm_secs = 0, dm_flags = 0,
     dm_ciaddr = [0, 0, 0, 0], dm_yiaddr = [0, 0, 0, 0], dm_siaddr = [0, 0, 0, 0], dm_giaddr = [0, 0, 0, 0],
     dm_chaddr = [2, 0, 0, 0, 0, 5] @ zeros 10,
     dm_options = [\<lparr>op_code = MSG_TYPE, op_data = [REQUEST]\<rparr>, \<lparr>op_code = VENDOR_CLASS_ID, op_data = ascii ''PXEClient''\<rparr>,
       \<lparr>op_code = USER_CLASS, op_data = ascii ''iPXE''\<rparr>]\<rparr>"

lemma sample_dhcp_ok: "message_ok sample_dhcp" "is_ipxe sample_dhcp" "message_type sample_dhcp = Some REQUEST"
    "hw_addr sample_dhcp = [2, 0, 0, 0, 0, 5]" "reply_role True sample_dhcp = ProxyDhcp"
proof -
  show "message_ok sample_dhcp"
    by (simp add: message_ok_def sample_dhcp_def option_ok_def dhcp_codes)
  show "is_ipxe sample_dhcp"
    by (simp add: is_ipxe_def user_class_def msg_option_def sample_dhcp_def dhcp_codes window_def)
  show "message_type sample_dhcp = Some REQUEST"
    by (simp add: message_type_def msg_option_def sample_dhcp_def dhcp_codes)
  show "hw_addr sample_dhcp = [2, 0, 0, 0, 0, 5]"
    by (simp add: hw_addr_def sample_dhcp_def)
  have "vendor_class sample_dhcp = Some (ascii ''PXEClient'')"
    by (simp add: vendor_class_def msg_option_def sample_dhcp_def dhcp_codes)
  then show "reply_role True sample_dhcp = ProxyDhcp"
    by (simp add: reply_role_def starts_with_iff del: ascii_Cons)
qed

lemma sample_plan: "plan sample_dhcp sample_boot = Some \<lparr>
    pl_bootfile = bc_http_script_url sample_boot @ ascii ''?mac='' @ format_mac [2, 0, 0, 0, 0, 5],
    pl_next_server = None, pl_yiaddr = [192, 168, 0, 5]\<rparr>"
  by (simp add: plan_def sample_dhcp_ok assign_ip_from_mac_def sample_boot_def del: ascii_Cons)

lemma sample_boot_fits: "boot_fits sample_boot"
  by (simp add: boot_fits_def sample_boot_def)

text \<open>The same machine a moment earlier: its UEFI firmware asks for a boot file.\<close>

definition sample_firmware :: dhcp_message where
  "sample_firmware = sample_dhcp\<lparr>dm_options := [\<lparr>op_code = MSG_TYPE, op_data = [DISCOVER]\<rparr>,
     \<lparr>op_code = VENDOR_CLASS_ID, op_data = ascii ''PXEClient:Arch:00007''\<rparr>, \<lparr>op_code = CLIENT_SYSTEM_ARCH, op_data = [0, 7]\<rparr>]\<rparr>"

lemma sample_firmware_ok: "message_ok sample_firmware" "\<not> is_ipxe sample_firmware" "message_type sample_firmware = Some DISCOVER"
    "client_arch sample_firmware = Some 7" "hw_addr sample_firmware = [2, 0, 0, 0, 0, 5]" "reply_role True sample_firmware = ProxyDhcp"
proof -
  show "message_ok sample_firmware"
    by (simp add: message_ok_def sample_firmware_def sample_dhcp_def option_ok_def dhcp_codes)
  show "\<not> is_ipxe sample_firmware" "message_type sample_firmware = Some DISCOVER" "client_arch sample_firmware = Some 7"
    by (simp_all add: is_ipxe_def user_class_def message_type_def client_arch_def msg_option_def sample_firmware_def dhcp_codes
        be16_def window_def be_val_def)
  show "hw_addr sample_firmware = [2, 0, 0, 0, 0, 5]"
    using sample_dhcp_ok(4) by (simp add: hw_addr_def sample_firmware_def)
  have "vendor_class sample_firmware = Some (ascii ''PXEClient:Arch:00007'')"
    by (simp add: vendor_class_def msg_option_def sample_firmware_def dhcp_codes)
  then show "reply_role True sample_firmware = ProxyDhcp" by (simp add: reply_role_def starts_with_iff)
qed

definition sample_fs :: tftp_fs where
  "sample_fs = \<lparr>fs_join = (\<lambda>d f. f),
     fs_canonicalize = (\<lambda>p. Some (if p = ascii ''tftp'' then [p] else [ascii ''tftp'', p])),
     fs_read = (\<lambda>p. if p = [ascii ''tftp'', ascii ''ipxe.efi''] then Some sample_file else None)\<rparr>"

lemma sample_servable: "servable sample_fs (tftp_server_new (ascii ''tftp'')) (ascii ''ipxe.efi'') sample_file"
proof -
  let ?cfg = "tftp_server_new (ascii ''tftp'')" and ?name = "ascii ''ipxe.efi''"
  have "?name \<noteq> ascii ''tftp''" by simp
  then have "fs_canonicalize sample_fs (fs_join sample_fs (ts_tftp_root ?cfg) ?name) = Some [ascii ''tftp'', ?name]"
    "fs_canonicalize sample_fs (ts_tftp_root ?cfg) = Some [ascii ''tftp'']"
    "starts_with [ascii ''tftp''] [ascii ''tftp'', ?name]" "fs_read sample_fs [ascii ''tftp'', ?name] = Some sample_file"
    by (simp_all add: sample_fs_def tftp_server_new_def starts_with_single del: ascii_Cons)
  moreover have "is_safe_path ?name" "cstr_ok ?name"
    by (simp_all add: is_safe_path_def is_sep_def cstr_ok_def starts_with_single is_ascii_is_utf8 is_ascii_def)
  moreover have "n_blocks sample_file 512 < 65536" by (simp add: n_blocks_def)
  ultimately show ?thesis by (auto simp: servable_def simp del: ascii_Cons)
qed

text \<open>The two requests fit the buffer of the DHCP server.\<close>

lemma sample_wire:
  assumes "message_ok m" "\<And>d. dhcp_encode m = Inr d \<Longrightarrow> length d \<le> 2048"
  shows "\<exists>d. dhcp_parse d = Inr m \<and> dhcp_parse (take 2048 d) = Inr m"
  using parse_encode [OF assms(1), of "[]"] assms(2) by force

lemma sample_datagrams:
  "\<exists>d. dhcp_parse d = Inr sample_firmware \<and> dhcp_parse (take 2048 d) = Inr sample_firmware"
  "\<exists>d. dhcp_parse d = Inr sample_dhcp \<and> dhcp_parse (take 2048 d) = Inr sample_dhcp"
  using encode_header_fit [OF sample_firmware_ok(1)] encode_header_fit [OF sample_dhcp_ok(1)]
  by (intro sample_wire sample_firmware_ok(1) sample_dhcp_ok(1);
      auto simp: dhcp_encode_def sample_firmware_def sample_dhcp_def MIN_LEN_def)+

section \<open>A login\<close>

definition sample_login :: login_request where
  "sample_login = \<lparr>lq_transit = True, lq_continue = False, lq_csg = 1, lq_nsg = 3, lq_version_max = 0, lq_version_min = 0,
     lq_isid = [0, 0, 0, 0, 0, 1], lq_tsih = 0, lq_itt = 1, lq_cid = 0, lq_cmd_sn = 0, lq_exp_stat_sn = 0,
     lq_text = [(ascii ''TargetName'', ascii ''iqn.2026-06.dev.xboot:'')]\<rparr>"

lemma sample_resolve: "resolve id sample_manager mac = Some
    \<lparr>cc_mac = [], cc_name = None, cc_system = ascii ''sys'', cc_games = [], cc_writeback = ascii ''wb''\<rparr>"
  by (simp add: resolve_def sample_manager_def)

lemma sample_cfg_sel [simp]: "cf_boot sample_cfg = Some sample_boot" "cf_clients sample_cfg = []"
    "cf_client_defaults sample_cfg = Some \<lparr>cd_system = ascii ''sys'', cd_games = [], cd_writeback = ascii ''wb''\<rparr>"
  by (simp_all add: sample_cfg_def)

lemma sample_lower [simp]: "se_lower sample_env = id"
  by (simp add: sample_env_def)

lemma sample_login_request_ok: "request_ok (Login sample_login)"
proof -
  have "list_all text_pair_ok (lq_text sample_login)"
    by (simp add: sample_login_def text_pair_ok_def is_ascii_is_utf8 is_ascii_def)
  then show ?thesis by (simp add: sample_login_def encode_pairs_def MAX_DATA_SEGMENT_def)
qed

text \<open>The server up to the first PDU of its first iSCSI connection.\<close>

definition sample_bytes :: bytes where
  "sample_bytes = encode_request False (Login sample_login)"

lemma sample_bytes_ok: "decode sample_bytes = Inr (Login sample_login, length sample_bytes)" "sample_bytes \<noteq> []"
    "length sample_bytes \<le> 8192"
proof -
  show d: "decode sample_bytes = Inr (Login sample_login, length sample_bytes)"
    using decode_encode [OF sample_login_request_ok, of False "[]"] by (simp only: sample_bytes_def append_Nil2)
  show "sample_bytes \<noteq> []" using d by (auto simp: decode_def BHS_LEN_def)
  show "length sample_bytes \<le> 8192"
    by (simp add: sample_bytes_def sample_login_def frame_def length_put length_puts puts_fit_def Let_def BHS_LEN_def encode_pairs_def pad4_def)
qed

lemma sample_accept: "run_services boot [IscsiIn (Arrived peer)] (fst (run_services boot [Bound IscsiSvc True] services_start)) =
    (\<lparr>sv_status = (\<lambda>_. Starting)(IscsiSvc := Up), sv_replies = [], sv_transfers = [], sv_http = [], sv_iscsi = [peer]\<rparr>, None)"
  by (simp add: services_start_def services_step_def iscsi_turn_def Let_def fun_eq_iff)

definition sample_server :: server where
  "sample_server = \<lparr>sr_services = \<lparr>sv_status = (\<lambda>_. Starting)(IscsiSvc := Up), sv_replies = [], sv_transfers = [],
       sv_http = [], sv_iscsi = [([10, 0, 0, 7], 40000)]\<rparr>,
     sr_registry = registry_new, sr_tasks = [task_start\<lparr>tk_buf := sample_bytes\<rparr>], sr_exit = None\<rparr>"

lemma sample_server_run:
  "server_run id sample_cfg sample_manager sample_boot wr
     [Main (Bound IscsiSvc True), Main (IscsiIn (Arrived ([10, 0, 0, 7], 40000))), Recv 0 sample_bytes]
     server_start sample_server"
proof -
  let ?up = "fst (run_services sample_boot [Bound IscsiSvc True] services_start)"
  have up: "run_services sample_boot [Bound IscsiSvc True] (sr_services server_start) = (?up, None)" "sv_iscsi ?up = []"
    by (simp_all add: server_start_def services_start_def services_step_def Let_def)
  let ?s1 = "server_start\<lparr>sr_services := ?up\<rparr>"
  let ?s2 = "sample_server\<lparr>sr_tasks := [task_start]\<rparr>"
  have sel: "sr_exit server_start = None" "sr_tasks server_start = []" "sr_registry server_start = registry_new"
    by (simp_all add: server_start_def)
  have "sv_iscsi services_start = []" by (simp add: services_start_def)
  then have s1: "server_step id sample_cfg sample_manager sample_boot wr (Main (Bound IscsiSvc True)) server_start ?s1"
    using server_step.main [OF sel(1) up(1), of id sample_cfg sample_manager wr] up(2)
    by (simp add: spawn_def server_start_def del: run_services.simps)
  have s2: "server_step id sample_cfg sample_manager sample_boot wr (Main (IscsiIn (Arrived ([10, 0, 0, 7], 40000)))) ?s1 ?s2"
    using server_step.main [of ?s1 sample_boot "IscsiIn (Arrived ([10, 0, 0, 7], 40000))", OF _ _, of _ _ id sample_cfg sample_manager wr]
      sample_accept [of sample_boot "([10, 0, 0, 7], 40000)"] up(2) sel
    by (simp add: spawn_def server_start_def sample_server_def del: run_services.simps)
  have "between (tk_buf task_start)" by (simp add: between_def task_start_def decode_def BHS_LEN_def)
  then have s3: "server_step id sample_cfg sample_manager sample_boot wr (Recv 0 sample_bytes) ?s2 sample_server"
    using server_step.recv [of ?s2 0 task_start sample_bytes] sample_bytes_ok(2,3)
    by (simp add: sample_server_def task_start_def)
  show ?thesis using s1 s2 s3 by auto
qed

end
