(* ===== verification/Disk_Theorems.thy ===== *)
theory Disk_Theorems
  imports Samples
begin

text \<open>
  The properties of the storage side: the volume as an array of bytes, alone and under several
  writers; flattening and the increment chain; the block cache; the checks on VHD and VHDX
  structures. Each is followed by an application to the states of \<open>Samples\<close>.
\<close>

section \<open>Volumes\<close>

text \<open>
  C4 A volume refines a flat array of bytes: whatever the sequence of reads, writes and resets,
  in range or not, the answers are those of an array that started as the volume's content and
  that a reset sets back to the master image; the master itself is never changed.
\<close>

theorem volume_refines_array:
  assumes "vol_inv v"
  shows "\<exists>v' answers. trace vol_apply ops v = (v', answers) \<and> vol_inv v' \<and> vol_master v' = vol_master v \<and>
    trace (array_apply (disk_bytes (vol_master v))) ops (vol_bytes v) = (vol_bytes v', answers)"
  by (rule vol_trace_array [OF assms])

theorem volume_refines_array_witness:
  "\<exists>v' answers. trace vol_apply [WriteAt 4090 [1, 2, 3, 4, 5, 6, 7, 8], ReadAt 4094 4, ResetDisk, ReadAt 9000 1]
     sample_volume = (v', answers) \<and>
   trace (array_apply (disk_bytes (vol_master sample_volume)))
     [WriteAt 4090 [1, 2, 3, 4, 5, 6, 7, 8], ReadAt 4094 4, ResetDisk, ReadAt 9000 1] sample_file = (vol_bytes v', answers)"
  using volume_refines_array [of sample_volume "[WriteAt 4090 [1, 2, 3, 4, 5, 6, 7, 8], ReadAt 4094 4, ResetDisk, ReadAt 9000 1]"]
  by (auto simp del: trace.simps)

text \<open>
  C31 Writers of different blocks do not disturb each other: in every interleaving of their block
  loads and stores in which all of them finish, each one's range holds exactly its data and every
  byte outside the ranges is unchanged. The condition is needed: \<open>write_at\<close> reads, patches and stores
  a block without a lock over the three, so two calls that write neighbouring bytes of one block can
  both succeed and leave only the second one's byte.
\<close>

theorem writers_of_distinct_blocks:
  assumes "vol_inv v" "\<forall>(off, buf) \<in> set ts. off + length buf \<le> vol_size v" "disjoint_writers ts"
    and "writers_run v (map (case_prod writer_start) ts) v' ws" "\<forall>w \<in> set ws. wr_finished w"
  shows "(\<forall>(off, buf) \<in> set ts. window off (length buf) (vol_bytes v') = buf) \<and>
    (\<forall>i < vol_size v. (\<forall>(off, buf) \<in> set ts. i < off \<or> off + length buf \<le> i) \<longrightarrow>
       vol_bytes v' ! i = vol_bytes v ! i) \<and>
    (2 \<le> vol_size v \<longrightarrow> (\<exists>v2 ws2. writers_run v [writer_start 0 [a], writer_start 1 [b]] v2 ws2 \<and>
       (\<forall>w \<in> set ws2. wr_finished w) \<and> vol_bytes v2 = (vol_bytes v)[1 := b]))"
proof -
  have targets: "map wr_target (map (case_prod writer_start) ts) = ts"
    by (induction ts) (auto simp: wr_target_def writer_start_def)
  have "\<forall>w \<in> set (map (case_prod writer_start) ts). wr_ok v w"
    using assms(2) wr_ok_start by fastforce
  note run = writers_run_ok [OF assms(4,1) this, unfolded targets, OF assms(3)]
  have "window off (length buf) (vol_bytes v') = buf" if "(off, buf) \<in> set ts" for off buf
  proof -
    have "map wr_target ws = ts" and ok: "\<forall>w \<in> set ws. wr_ok v' w" using run by blast+
    with that have "(off, buf) \<in> wr_target ` set ws" by (metis set_map)
    then obtain w where "w \<in> set ws" "wr_target w = (off, buf)" by (metis imageE)
    then show ?thesis using ok assms(5) finished_window [of v' w] by (simp add: wr_target_def)
  qed
  then show ?thesis using run lost_update [OF assms(1), of a b] by blast
qed

theorem writers_of_distinct_blocks_witness:
  "(\<exists>v' ws. writers_run sample_volume [writer_start 5 [1], writer_start 4096 (replicate 4096 9)] v' ws \<and>
      (\<forall>w \<in> set ws. wr_finished w) \<and> window 5 1 (vol_bytes v') = [1] \<and> window 4096 4096 (vol_bytes v') = replicate 4096 9) \<and>
    (\<exists>v2 ws2. writers_run sample_volume [writer_start 0 [1], writer_start 1 [2]] v2 ws2 \<and>
      (\<forall>w \<in> set ws2. wr_finished w) \<and> vol_bytes v2 = sample_file[1 := 2])"
proof -
  let ?ts = "[(5, [1]), (4096, replicate 4096 9)] :: (nat \<times> bytes) list"
  obtain v' ws where run: "writers_run sample_volume (map (case_prod writer_start) ?ts) v' ws" "\<forall>w \<in> set ws. wr_finished w"
    using sample_interleaving by auto
  have "disjoint_writers ?ts"
    by (auto simp: disjoint_writers_def wr_blocks_def writer_start_def BLOCK_def less_Suc_eq nth_Cons')
  then show ?thesis
    using writers_of_distinct_blocks [OF _ _ _ run, of 1 2] run by auto
qed

section \<open>Images\<close>

text \<open>
  C7 \<open>flatten\<close> keeps the disk: flattening a source that opens leaves every other file alone,
  and the image it writes, opened again, is a store with exactly the bytes of the source.
\<close>

theorem flatten_reproduces_disk:
  assumes "open_backing env src = Inr source" "serves source" "bs_size source \<le> 2040 * 2 ^ 30"
    and "se_file env dest = None" "increments_of env dest = []" "\<not> se_ignore_bitmap env"
  shows "\<exists>env' b. run_flatten secs env [src, dest] = Inr (Success, env') \<and>
    open_backing env' dest = Inr b \<and> serves b \<and> disk_bytes b = disk_bytes source \<and>
    (\<forall>path. path \<noteq> dest \<longrightarrow> se_file env' path = se_file env path)"
  by (rule flatten_serves [OF assms])

theorem flatten_reproduces_disk_witness:
  "\<exists>env' b. run_flatten 0 sample_env [ascii ''disk.img'', ascii ''flat.vhd''] = Inr (Success, env') \<and>
    open_backing env' (ascii ''flat.vhd'') = Inr b \<and> disk_bytes b = sample_file"
proof -
  have "ascii ''flat.vhd'' \<noteq> ascii ''disk.img''" by simp
  then have e: "se_file sample_env (ascii ''flat.vhd'') = None" "increments_of sample_env (ascii ''flat.vhd'') = []"
    "\<not> se_ignore_bitmap sample_env"
    by (simp_all add: sample_env_def increments_of_def find_increments_def del: ascii_Cons)
  show ?thesis
    using flatten_reproduces_disk [OF sample_open _ _ e, of 0] by (auto simp del: ascii_Cons)
qed

text \<open>
  C14 An increment chain does not follow its documented rule, and where it differs is exact. The documents
  (the head of \<open>chain.rs\<close> and section 6 of the design) serve a sector from the newest layer whose bitmap
  claims it and from the base otherwise. The code serves a sector that no bitmap claims from the newest layer
  that holds its block, and from the base only when no layer does; so, with the bitmaps not switched off by the
  environment, it answers as documented exactly when a bitmap claims the sector, or no layer holds its block, or
  the block happens to hold the bytes of the base.
\<close>

theorem chain_departs_from_documented_rule:
  assumes "chain_valid ign c" "0 < n" "p + n \<le> cv_virtual_size c" "p mod SECTOR + n \<le> SECTOR"
  shows "chain_read_at ign c p n = layer_read c (layer_for ign c (p div SECTOR)) p n \<and>
    (\<not> ign \<longrightarrow> (chain_read_at ign c p n = documented_read c p n \<longleftrightarrow>
      bitmap_layer ign c (p div SECTOR) \<noteq> None \<or> block_layer c (p div SECTOR) = None \<or>
      layer_read c (block_layer c (p div SECTOR)) p n = bs_read (cv_base c) p n))"
  using chain_read_layer [OF assms] chain_read_documented [of c n p] assms by (cases ign) simp_all

theorem chain_departs_from_documented_rule_witness:
  "chain_read_at False sample_chain 1600 8 = Inr (replicate 8 9) \<and>
   chain_read_at False sample_chain 1600 8 = documented_read sample_chain 1600 8 \<and>
   chain_read_at False sample_chain 0 8 = Inr (replicate 8 9) \<and>
   chain_read_at False sample_chain 0 8 \<noteq> documented_read sample_chain 0 8"
proof -
  have s: "(1600 :: nat) div SECTOR = 3" "(1600 :: nat) mod SECTOR = 64" "(0 :: nat) div SECTOR = 0" by (simp_all add: SECTOR_def)
  have read: "read_exact_at (dv_file sample_layer) 2112 8 = Inr (replicate 8 9)"
    "read_exact_at (dv_file sample_layer) 512 8 = Inr (replicate 8 9)"
    by (simp_all add: read_exact_at_def window_def sample_layer_def sample_bitmap_def)
  have base: "bs_read (cv_base sample_chain) 0 8 = Inr (window 0 8 sample_file)"
    using dyn.read_in_range [of sample_store 0 8] by (simp add: sample_chain_def)
  have size: "cv_virtual_size sample_chain = 8192" by (simp add: sample_chain_def)
  note rule = chain_departs_from_documented_rule [OF sample_chain_ok(1)]
  have fits: "0 < (8 :: nat)" "1600 + 8 \<le> cv_virtual_size sample_chain" "1600 mod SECTOR + 8 \<le> SECTOR"
    by (simp_all add: size SECTOR_def)
  have a: "chain_read_at False sample_chain 1600 8 = Inr (replicate 8 9)"
    "chain_read_at False sample_chain 1600 8 = documented_read sample_chain 1600 8"
    using rule [OF fits, THEN conjunct1] rule [OF fits, THEN conjunct2, THEN mp, OF not_False_eq_True [THEN iffD2, OF TrueI]]
      sample_chain_ok s read
    by (simp_all only: layer_for_def layer_read_def option.case s) (simp_all add: sample_chain_ok)
  have at0: "layer_read sample_chain (block_layer sample_chain (0 div SECTOR)) 0 8 = Inr (replicate 8 9)"
    using sample_chain_ok read by (simp add: layer_read_def)
  have "window 0 8 sample_file \<noteq> replicate 8 9" by (simp add: sample_file_def window_replicate replicate_eq_replicate)
  then have b: "chain_read_at False sample_chain 0 8 = Inr (replicate 8 9)"
    "chain_read_at False sample_chain 0 8 \<noteq> documented_read sample_chain 0 8"
    using rule [of 8 0] sample_chain_ok at0 base by (auto simp: size layer_for_def SECTOR_def)
  show ?thesis using a b by simp
qed

text \<open>
  C15 The same departure from the documented rule, on whole files: a base image, fixed or dynamic, and the
  differential images that \<open>find_increments\<close> finds next to it, each built from the disk as it was then and
  the sectors changed, open as a store whose every byte comes from the newest increment that claims its sector,
  else the newest that holds its block, else the base; and a byte is the one the documents promise (that of the
  newest increment that claims its sector, else of the base) except where no increment claims the sector and the
  newest that holds its block has another byte there than the base. The images are of sizes the builders take
  (\<open>image_size_ok\<close>), the increments of the size of the base, the two environment variables are not set, and
  the base file does not start like a VHDX.
\<close>

theorem increments_depart_from_documented_rule:
  assumes "base_file base bs0 f" "image_size_ok base bs0" "se_file env path = Some f"
    and "increments_of env path = paths" "paths \<noteq> []" "list_all2 (increment_file env bs (length base)) paths incs"
    and "\<not> se_ignore_bitmap env" "\<not> se_no_chain env" "window 0 8 f \<noteq> ascii ''vhdxfile''"
  shows "\<exists>b. open_backing env path = Inr b \<and> serves b \<and> disk_bytes b = layered bs (rev incs) base \<and>
    (\<forall>i < length base. disk_bytes b ! i = documented_byte (rev incs) base i \<longleftrightarrow>
      (find (claims (i div SECTOR)) (rev incs) = None \<longrightarrow>
        (\<forall>inc. find (captures bs (i div SECTOR)) (rev incs) = Some inc \<longrightarrow> fst inc ! i = base ! i)))"
  using chain_files_serve [OF assms] layered_documented [of bs "rev incs" base] by (auto simp: layered_def)

theorem increments_depart_from_documented_rule_witness:
  "\<exists>env b. open_backing env (ascii ''d.vhd'') = Inr b \<and> disk_bytes b ! 0 = 2 \<and>
    documented_byte [(replicate 2048 2, [1])] (replicate 2048 1) 0 = 1 \<and> disk_bytes b ! 600 = 2 \<and> disk_bytes b ! 1500 = 1"
proof -
  let ?base = "replicate 2048 1 :: bytes" and ?inc = "(replicate 2048 2 :: bytes, [1 :: nat])" and ?P = "ascii ''d.vhd''"
  let ?N = "ascii ''d'' @ [46] @ dec 1 @ [46] @ ascii ''vhd''"
  have "is_power_of_two (2 ^ 10)" by (rule is_power_of_two_pow)
  then have ok: "image_size_ok ?base 1024" "image_size_ok (fst ?inc) 1024" by (simp_all add: image_size_ok_def)
  obtain fb where fb: "dynamic_vhd ?base 1024 = Inr fb" "window 0 8 fb = ascii ''conectix''"
    using dynamic_vhd_opens [OF ok(1)] by blast
  obtain fi where fi: "diff_vhd (fst ?inc) 1024 (snd ?inc) = Inr fi" using diff_vhd_opens [OF ok(2)] by blast
  define env where "env = sample_env\<lparr>se_file := \<lambda>p. if p = ?P then Some fb else Some fi,
    se_parts := \<lambda>_. Some (ascii ''d'', ascii ''vhd''), se_listing := \<lambda>_. Some [?N], se_join := \<lambda>d n. n\<rparr>"
  have num: "increment_number id (ascii ''d'') (ascii ''vhd'') ?N = Some 1"
    by (rule increment_number_dec) (simp_all add: is_ascii_def)
  have "length (dec 1) \<noteq> 0" by simp
  then have neq: "?N \<noteq> ?P" by (auto dest!: arg_cong [where f = length])
  have env: "se_file env ?P = Some fb" "se_file env ?N = Some fi" "increments_of env ?P = [?N]"
    "\<not> se_ignore_bitmap env" "\<not> se_no_chain env"
    using num neq by (simp_all add: env_def sample_env_def increments_of_def find_increments_def map_filter_def del: ascii_Cons)
  have inc: "list_all2 (increment_file env 1024 (length ?base)) [?N] [?inc]"
    using ok(2) fi env(2) by (simp add: increment_file_def)
  have "base_file ?base 1024 fb" using fb(1) by (simp add: base_file_def)
  from increments_depart_from_documented_rule [OF this ok(1) env(1,3) _ inc env(4,5)] fb(2) cookies_differ
  obtain b where b: "open_backing env ?P = Inr b" "disk_bytes b = layered 1024 [?inc] ?base" by auto
  have inc: "\<not> claims 0 ?inc" "captures 1024 0 ?inc" "claims 1 ?inc" "\<not> claims 2 ?inc" "\<not> captures 1024 2 ?inc"
    by (simp_all add: claims_def captures_def block_has_present_def SECTOR_def)
  then have "layered 1024 [?inc] ?base ! 0 = 2" "layered 1024 [?inc] ?base ! 600 = 2" "layered 1024 [?inc] ?base ! 1500 = 1"
    "documented_byte [?inc] ?base 0 = 1"
    by (simp_all add: layered_def layered_byte_def documented_byte_def SECTOR_def)
  then show ?thesis
    using b(1) unfolding b(2) [symmetric] by (intro exI conjI) simp_all
qed

section \<open>The block cache\<close>

text \<open>
  C30 A cached read is exact or never returns: under the laws of the LRU map, a read inside the disk returns
  the bytes of the master, whatever the cache holds and however small its budget, within as many iterations as
  it has bytes, and keeps the cache consistent with the master and within its budget; a read that
  starts inside the disk and runs past its end takes chunks of no bytes there, so no number of
  iterations is enough, where the uncached stores answer \<open>InvalidData\<close>.
\<close>

theorem cached_reads_exact_or_stuck:
  assumes "lru_map ops view" "cache_inv view s" "off \<le> cached_size s"
  shows "if off + len \<le> cached_size s
    then \<forall>fuel \<ge> len. \<exists>s'. cached_read_at ops fuel s off len = (s', Inr (window off len (disk_bytes (cs_inner s)))) \<and>
      cache_inv view s' \<and> cs_inner s' = cs_inner s \<and> ls_bytes (cs_state s') \<le> cs_budget s
    else (\<forall>fuel. \<exists>s'. cached_read_at ops fuel s off len = (s', Inl Diverged)) \<and>
      bs_read (cs_inner s) off len = Inl InvalidData"
proof (cases "off + len \<le> cached_size s")
  case True
  have "\<exists>s'. cached_read_at ops fuel s off len = (s', Inr (window off len (disk_bytes (cs_inner s)))) \<and>
      cache_inv view s' \<and> cs_inner s' = cs_inner s \<and> ls_bytes (cs_state s') \<le> cs_budget s" if "len \<le> fuel" for fuel
    using lru_map.cached_read_loop_ok [OF assms(1,2) True that] by (auto simp: cached_read_at_def cache_inv_def)
  with True show ?thesis by simp
next
  case False
  then have out: "cached_size s < off + len" by simp
  have "\<exists>s'. cached_read_at ops fuel s off len = (s', Inl Diverged)" for fuel
    using lru_map.cached_read_loop_stuck [OF assms out] by (simp add: cached_read_at_def)
  moreover have "bs_read (cs_inner s) off len = Inl InvalidData"
    using assms(2) out dyn.read_out_of_range [of "cs_inner s" off len] by (simp add: cache_inv_def cached_size_def)
  ultimately show ?thesis using False by simp
qed

theorem cached_reads_exact_or_stuck_witness:
  "(\<exists>s'. cached_read_at list_lru 8 (cached_new list_lru sample_store 5000) 4092 8 = (s', Inr (replicate 8 7)) \<and>
     ls_bytes (cs_state s') \<le> 5000) \<and>
   (\<exists>s'. cached_read_at list_lru 1000000 (cached_new list_lru sample_store 5000) 8190 4 = (s', Inl Diverged))"
proof -
  let ?s = "cached_new list_lru sample_store 5000"
  have i: "cache_inv (\<lambda>c. c) ?s"
    by (rule list_map.cache_inv_new) (simp_all add: u64_lim_def BLOCK_def)
  have n: "cached_size ?s = 8192" "cs_inner ?s = sample_store" "cs_budget ?s = 5000"
    by (simp_all add: cached_size_def cached_new_def)
  have "\<exists>s'. cached_read_at list_lru 8 ?s 4092 8 = (s', Inr (replicate 8 7)) \<and> ls_bytes (cs_state s') \<le> 5000"
    using cached_reads_exact_or_stuck [OF list_map.lru_map_axioms i, of 4092 8] n by (auto simp: sample_file_def window_replicate)
  moreover have "\<exists>s'. cached_read_at list_lru 1000000 ?s 8190 4 = (s', Inl Diverged)"
    using cached_reads_exact_or_stuck [OF list_map.lru_map_axioms i, of 8190 4] n by simp
  ultimately show ?thesis by simp
qed

text \<open>
  Inserting a block evicts the least recently used blocks and only as many as the budget asks:
  what stays is the longest prefix of the recency order, the new block first, that fits.
\<close>

theorem insert_evicts_least_recent:
  fixes blk :: nat
  assumes "lru_map ops view" "lru_inv view st" "length data \<le> budget" "ls_bytes st \<le> budget"
    and "budget + length data < u64_lim"
  shows "\<exists>st' n. insert_block ops blk data budget st = Inr st' \<and> lru_inv view st' \<and> ls_bytes st' \<le> budget \<and>
    view (ls_cache st') = take (Suc n) ((blk, data) # without blk (view (ls_cache st))) \<and>
    (Suc n < length ((blk, data) # without blk (view (ls_cache st))) \<longrightarrow>
      budget < entry_bytes (take (Suc (Suc n)) ((blk, data) # without blk (view (ls_cache st)))))"
  by (rule lru_map.insert_block_evicts [OF assms]) blast

theorem insert_evicts_least_recent_witness:
  "\<exists>st' n. insert_block list_lru 9 [0, 0, 0] 5 \<lparr>ls_cache = [(1, [1, 1]), (2, [2, 2])], ls_bytes = 4\<rparr> = Inr st' \<and>
    ls_cache st' = take (Suc n) [(9, [0, 0, 0]), (1, [1, 1]), (2, [2, 2])] \<and> ls_bytes st' \<le> 5"
proof -
  let ?st = "\<lparr>ls_cache = [(1, [1, 1]), (2, [2, 2])] :: (nat \<times> bytes) list, ls_bytes = 4\<rparr>"
  have "lru_inv (\<lambda>c. c) ?st" "without 9 (ls_cache ?st) = ls_cache ?st"
    by (simp_all add: lru_inv_def without_def)
  then show ?thesis
    using insert_evicts_least_recent [OF list_map.lru_map_axioms, of ?st "[0, 0, 0]" 5 9]
    by (simp add: u64_lim_def del: take_Suc_Cons) blast
qed

section \<open>Files\<close>

text \<open>
  C33 The platforms read alike: on any file whose positioned reads return some of the bytes asked for,
  at least one before the end and none at it, the Windows loop of \<open>read_exact_at\<close> ends, whatever the
  sizes of the pieces, with the bytes of the range or \<open>UnexpectedEof\<close>, as the Unix call does.
\<close>

theorem platforms_read_alike:
  assumes "positioned_file seek_read f" "offset + len < u64_lim"
  shows "seek_read_exact_at seek_read offset len = read_exact_at f offset len"
  by (rule positioned_file.seek_read_exact_at_eq [OF assms])

theorem platforms_read_alike_witness:
  "seek_read_exact_at (short_read 99 sample_file) 100 4096 = Inr (replicate 4096 7) \<and>
    seek_read_exact_at (short_read 99 sample_file) 8000 4096 = Inl UnexpectedEof"
  using platforms_read_alike [OF short.positioned_file_axioms, of 100 4096 99 sample_file]
    platforms_read_alike [OF short.positioned_file_axioms, of 8000 4096 99 sample_file]
  by (simp add: read_exact_at_def sample_file_def window_replicate u64_lim_def)

section \<open>Structures on disk\<close>

text \<open>
  C34 Damage is detected: a VHD footer, a VHDX header or a VHDX region table with any one byte of its sealed
  range changed is rejected, the stored checksum itself included.
\<close>

theorem damage_is_detected:
  "(\<forall>f h. length f = 512 \<longrightarrow> footer_parse f = Inr h \<longrightarrow>
      (\<forall>k < 512. \<forall>b. b \<noteq> f ! k \<longrightarrow> footer_parse (f[k := b]) = Inl InvalidData)) \<and>
   (\<forall>h seq. parse_one_header h = Inr seq \<longrightarrow>
      (\<forall>k < 4096. \<forall>b. b \<noteq> h ! k \<longrightarrow> parse_one_header (h[k := b]) = Inl InvalidData)) \<and>
   (\<forall>rt r. parse_region_table rt = Inr r \<longrightarrow>
      (\<forall>k < 65536. \<forall>b. b \<noteq> rt ! k \<longrightarrow> parse_region_table (rt[k := b]) = Inl InvalidData))"
  using footer_detects_byte header_byte_change region_table_byte_change by blast

theorem damage_is_detected_witness:
  "(\<exists>b. footer_parse ((build_footer 0 8192)[48 := b]) = Inl InvalidData) \<and>
   (\<exists>b. parse_one_header ((header_bytes 5)[100 := b]) = Inl InvalidData)"
proof -
  note footers = damage_is_detected [THEN conjunct1, rule_format]
    and headers = damage_is_detected [THEN conjunct2, THEN conjunct1, rule_format]
  obtain b :: u8 where b: "b \<noteq> build_footer 0 8192 ! 48" by (metis zero_neq_one)
  have "footer_parse (build_footer 0 8192) = Inr \<lparr>vf_data_offset = 512, vf_current_size = 8192, vf_disk_type = DISK_TYPE_DYNAMIC\<rparr>"
    by (rule footer_parse_build) (simp add: u64_lim_def)
  from footers [OF length_build_footer this _ b]
  have "\<exists>b. footer_parse ((build_footer 0 8192)[48 := b]) = Inl InvalidData" by auto
  moreover have seq: "parse_one_header (header_bytes 5) = Inr 5" by (rule parse_header_bytes) simp
  obtain c :: u8 where c: "c \<noteq> header_bytes 5 ! 100" by (metis zero_neq_one)
  have "\<exists>b. parse_one_header ((header_bytes 5)[100 := b]) = Inl InvalidData"
    using headers [OF seq _ c] by auto
  ultimately show ?thesis by blast
qed
text \<open>
  The written footer reads back: parsing the footer \<open>flatten\<close> builds for a size gives that size,
  the dynamic type and the offset of the dynamic header, and its geometry stays within the limits
  of the format and never exceeds the disk.
\<close>

theorem footer_round_trip:
  assumes "n < u64_lim"
  shows "footer_parse (build_footer secs n)
      = Inr \<lparr>vf_data_offset = 512, vf_current_size = n, vf_disk_type = DISK_TYPE_DYNAMIC\<rparr> \<and>
    (\<forall>c h s. geometry_u64 (n div SECTOR) = (c, h, s) \<longrightarrow>
      c \<le> 65535 \<and> 4 \<le> h \<and> h \<le> 16 \<and> s \<in> {17, 31, 63, 255} \<and> c * h * s * SECTOR \<le> n)"
proof -
  have "c * h * s * SECTOR \<le> n" if "geometry_u64 (n div SECTOR) = (c, h, s)" for c h s
    using order_trans [OF mult_le_mono1 [OF geometry_u64_bounds(5) [OF that]] div_times_less_eq_dividend] .
  then show ?thesis using footer_parse_build [OF assms] geometry_u64_bounds by blast
qed

theorem footer_round_trip_witness:
  "\<exists>h. footer_parse (build_footer 0 (2 ^ 40)) = Inr h \<and> vf_current_size h = 2 ^ 40"
  using footer_round_trip [of "2 ^ 40" 0] by (simp add: u64_lim_def)

text \<open>
  C16 A VHDX image reads back: a disk of whole megabytes, up to 4096 of them, is written as a VHDX file
  that \<open>open_backing\<close> opens as a store with exactly the bytes of the disk, whichever of its blocks
  are zero and left out of the file.
\<close>

theorem vhdx_image_reads_back:
  assumes "length data mod MIB = 0" "length data \<le> 4096 * MIB"
    and "\<And>f. dynamic_vhdx data = Inr f \<Longrightarrow> se_file env path = Some f"
  shows "\<exists>f b. dynamic_vhdx data = Inr f \<and> open_backing env path = Inr b \<and> serves b \<and> disk_bytes b = data"
proof -
  obtain f v where v: "dynamic_vhdx data = Inr f" "vhdx_parse f = Inr v" "vhdx_valid v" "vhdx_content v = data"
    using dynamic_vhdx_reads_back [OF assms(1,2)] by blast
  from open_backing_vhdx [OF assms(3) [OF v(1)] v(2,3)] v(1,4) show ?thesis by auto
qed

theorem vhdx_image_reads_back_witness:
  "\<exists>f b. dynamic_vhdx (zeros MIB @ replicate MIB 5) = Inr f \<and>
    open_backing (sample_env\<lparr>se_file := \<lambda>_. Some f\<rparr>) (ascii ''disk.vhdx'') = Inr b \<and>
    bs_size b = 2 * MIB \<and> bs_read b MIB 3 = Inr [5, 5, 5]"
proof -
  let ?data = "zeros MIB @ replicate MIB 5" and ?f = "projr (dynamic_vhdx (zeros MIB @ replicate MIB 5))"
  let ?env = "sample_env\<lparr>se_file := \<lambda>_. Some ?f\<rparr>"
  have "se_file ?env (ascii ''disk.vhdx'') = Some f" if "dynamic_vhdx ?data = Inr f" for f
    using that by simp
  then obtain f b where b: "dynamic_vhdx ?data = Inr f" "open_backing ?env (ascii ''disk.vhdx'') = Inr b" "serves b"
      "disk_bytes b = ?data"
    using vhdx_image_reads_back [of ?data ?env "ascii ''disk.vhdx''"] by (auto simp: MIB_def)
  have size: "bs_size b = 2 * MIB" using dyn.content_length [OF b(3)] b(4) by simp
  have "window MIB 3 ?data = window 0 3 (replicate MIB 5)" by (simp add: window_append2)
  also have "\<dots> = [5, 5, 5]" by (simp add: window_replicate MIB_def numeral_3_eq_3)
  finally have "bs_read b MIB 3 = Inr [5, 5, 5]"
    using dyn.read_in_range [OF b(3), of MIB 3] size b(4) by (simp add: MIB_def)
  then show ?thesis using b(1,2) size by auto
qed

text \<open>
  An opened dynamic image never indexes out of its tables: looking a sector up in the BAT and
  the bitmaps gives an offset, a hole or an error, for every sector number and whatever bytes
  the file held.
\<close>

theorem dynamic_lookup_never_panics:
  assumes "dynamic_open fs path = Inr d"
  shows "sector_offset ign d sector \<noteq> Inl Panicked \<and> block_bit_count d sector \<noteq> Inl Panicked \<and>
    length (dv_bitmaps d) = length (dv_bat d) \<and> 0 < sectors_per_block d"
proof -
  have wf: "dynamic_wf d"
    using assms dynamic_parse_wf by (auto simp: dynamic_open_def split: option.splits)
  then have "length (dv_bitmaps d) = length (dv_bat d)" by (simp add: dynamic_wf_def)
  moreover from this have "block_bit_count d sector \<noteq> Inl Panicked"
    by (auto simp: block_bit_count_def bat_entry_def block_bitmap_def Let_def split: sum.splits option.splits if_splits)
  ultimately show ?thesis using wf sector_offset_no_panic sectors_per_block_pos by blast
qed

theorem dynamic_lookup_never_panics_witness:
  "\<exists>f d. dynamic_open [ascii ''flat.vhd'' \<mapsto> f] (ascii ''flat.vhd'') = Inr d \<and> sector_offset False d 99 \<noteq> Inl Panicked"
proof -
  obtain f d where "write_dynamic_vhd 0 sample_store = Inr f" "dynamic_parse f = Inr d"
    using flatten_dynamic [of sample_store 0] by auto
  then have "dynamic_open [ascii ''flat.vhd'' \<mapsto> f] (ascii ''flat.vhd'') = Inr d"
    by (simp add: dynamic_open_def)
  then show ?thesis using dynamic_lookup_never_panics by blast
qed

text \<open>
  C13 No image file can bring the server down, but for one exception that is exact: whatever the bytes
  of the files, opening an image never panics or loops, and no more does any read of the store that
  opens, in range or not; unless the image is a VHDX with a byte whose BAT slot or whose place in the
  file is \<open>2 ^ 64\<close> or more, and every such byte panics when it is read.
\<close>

theorem images_never_panic:
  "calm (open_backing env path) \<and>
   (\<forall>b. open_backing env path = Inr b \<longrightarrow>
      (\<exists>f v p. se_file env path = Some f \<and> vhdx_parse f = Inr v \<and> p < vx_virtual_size v \<and> vhdx_overflows v p) \<or>
      (\<forall>off len. calm (bs_read b off len))) \<and>
   (\<forall>b f v p. open_backing env path = Inr b \<longrightarrow> se_file env path = Some f \<longrightarrow> vhdx_parse f = Inr v \<longrightarrow>
      p < vx_virtual_size v \<longrightarrow> vhdx_overflows v p \<longrightarrow> bs_read b p 1 = Inl Panicked) \<and>
   (\<forall>v p. vhdx_wf v \<longrightarrow> p < vx_virtual_size v \<longrightarrow> vhdx_overflows v p \<longrightarrow> vhdx_read_at v p 1 = Inl Panicked)"
  using calm_open_backing open_backing_safe [of env path] open_backing_overflow [of env path] vhdx_overflow_panics
  unfolding safe_store_def by blast

theorem images_never_panic_witness:
  "\<exists>b. open_backing sample_env (ascii ''disk.img'') = Inr b \<and> calm (bs_read b 8000 900) \<and>
    vhdx_read_at \<lparr>vx_file = [], vx_virtual_size = 2097152, vx_block_size = 2097152, vx_chunk_ratio = 2048,
      vx_bat = [18446744073708503046]\<rparr> 1048576 1 = Inl Panicked"
proof -
  let ?v = "\<lparr>vx_file = [], vx_virtual_size = 2097152, vx_block_size = 2097152, vx_chunk_ratio = 2048,
      vx_bat = [18446744073708503046]\<rparr> :: vhdx"
  have "is_power_of_two (2 ^ 21)" by (rule is_power_of_two_pow)
  then have wf: "vhdx_wf ?v" by (simp add: vhdx_wf_def)
  have over: "vhdx_overflows ?v 1048576"
    by (simp add: vhdx_overflows_def vhdx_locate_def payload_index_def u64_lim_def Let_def)
  have "vhdx_read_at ?v 1048576 1 = Inl Panicked"
    by (rule images_never_panic [THEN conjunct2, THEN conjunct2, THEN conjunct2, rule_format])
      (use wf over in simp_all)
  moreover have "vhdx_parse f \<noteq> Inr v" if "se_file sample_env (ascii ''disk.img'') = Some f" for f v
    using that by (auto simp: sample_env_def sample_file_def vhdx_parse_def read_exact_at_def split: if_splits)
  then have "calm (bs_read sample_store 8000 900)"
    using images_never_panic [of sample_env "ascii ''disk.img''"] sample_open by blast
  ultimately show ?thesis using sample_open by simp
qed

end
