(* ===== verification/Command_Limits.thy ===== *)
theory Command_Limits
  imports Transport
begin

text \<open>
  The lengths and the window an initiator puts into its commands, and what the session does with them:
  the allocation length of a CDB and the expected data transfer length of a read bound no answer, and
  the command window bounds neither the writes in flight nor the memory reserved for them
  (\<open>scsi/cdb.rs\<close>, \<open>command\<close>, \<open>data_in_chunks\<close> and \<open>begin_write\<close> of \<open>iscsi/session/mod.rs\<close>).
\<close>

section \<open>Limits on the data of an answer\<close>

text \<open>Place and length of the allocation length in the CDBs that have one.\<close>

definition allocation_field :: "u8 \<Rightarrow> nat \<times> nat" where
  "allocation_field op =
     (if op = 0x12 then (3, 2) else if op = 0x03 \<or> op = 0x1a then (4, 1) else if op = 0x5a then (7, 2)
      else if op = 0xa0 then (6, 4) else if op = 0x9e then (10, 4) else (3, 0))"

definition with_limits :: "bytes \<Rightarrow> u32 \<Rightarrow> scsi_command \<Rightarrow> scsi_command" where
  "with_limits a e cmd = cmd\<lparr>sc_edtl := e,
     sc_cdb := put (fst (allocation_field (sc_cdb cmd ! 0))) a (sc_cdb cmd)\<rparr>"

lemma with_limits_sel [simp]:
  "sc_lun (with_limits a e cmd) = sc_lun cmd" "sc_itt (with_limits a e cmd) = sc_itt cmd"
  "sc_read (with_limits a e cmd) = sc_read cmd" "sc_write (with_limits a e cmd) = sc_write cmd"
  "sc_data (with_limits a e cmd) = sc_data cmd"
  by (simp_all add: with_limits_def)

lemma dispatch_allocation:
  assumes "length cdb = 16" "length a = snd (allocation_field (cdb ! 0))"
  shows "dispatch lu (put (fst (allocation_field (cdb ! 0))) a cdb) bs = dispatch lu cdb bs"
proof (cases "a = []")
  case False
  let ?k = "fst (allocation_field (cdb ! 0))" and ?p = "put (fst (allocation_field (cdb ! 0))) a cdb"
  have "3 \<le> ?k \<and> ?k + length a \<le> 16"
    using assms(2) by (simp add: allocation_field_def)
  then have "?p ! 0 = cdb ! 0" "?p ! 1 = cdb ! 1" "?p ! 2 = cdb ! 2"
    using assms(1) by (simp_all add: nth_put)
  moreover have "cdb ! 0 \<in> {0x12, 0x03, 0x1a, 0x5a, 0xa0, 0x9e}"
    using False assms(2) by (auto simp: allocation_field_def split: if_splits)
  ultimately show ?thesis
    by (auto simp: dispatch_def inquiry_def mode_sense_def)
qed simp

lemma execute_limits:
  assumes "length (sc_cdb cmd) = 16" "length a = snd (allocation_field (sc_cdb cmd ! 0))"
  shows "execute t (with_limits a e cmd) bs = execute t cmd bs"
proof -
  have "sc_cdb (with_limits a e cmd) ! 0 = sc_cdb cmd ! 0"
    using assms by (cases "a = []") (auto simp: with_limits_def allocation_field_def nth_put split: if_splits)
  then show ?thesis
    using dispatch_allocation [OF assms] by (simp add: execute_def with_limits_def split: option.split)
qed

lemma run_target_limits:
  "length (sc_cdb cmd) = 16 \<Longrightarrow> length a = snd (allocation_field (sc_cdb cmd ! 0)) \<Longrightarrow>
    run_target r c (with_limits a e cmd) bs = run_target r c cmd bs"
  by (simp add: run_target_def execute_limits split: option.split)

lemma data_in_loop_limits:
  "data_in_loop (with_limits a e cmd) bs seg c offset n = data_in_loop cmd bs seg c offset n"
proof (induction cmd bs seg c offset n rule: data_in_loop.induct)
  case (1 cmd bs seg c offset n)
  let ?stop = "min (offset + seg) (length bs)"
  let ?c = "if ?stop = length bs then bump_stat_sn c else c"
  have "data_in_loop (with_limits a e cmd) bs seg ?c ?stop (n + 1) = data_in_loop cmd bs seg ?c ?stop (n + 1)"
    if "\<not> length bs \<le> offset" "seg \<noteq> 0" "\<not> 2 ^ 32 \<le> n + 1"
    by (rule 1) (use that in auto)
  then show ?case
    unfolding data_in_loop.simps [of _ bs seg c offset n] Let_def with_limits_sel by (auto split del: if_split intro!: if_cong)
qed

lemma data_in_chunks_limits [simp]: "data_in_chunks c (with_limits a e cmd) bs = data_in_chunks c cmd bs"
  by (simp add: data_in_chunks_def data_in_loop_limits)

text \<open>An answer without the residual count of a SCSI response.\<close>

definition no_residual :: "outbound \<Rightarrow> outbound" where
  "no_residual out = (case out of ScsiRespOut p \<Rightarrow> ScsiRespOut (p\<lparr>sr_residual := 0\<rparr>) | _ \<Rightarrow> out)"

lemma no_residual_scsi_resp [simp]: "no_residual (scsi_resp c (with_limits a e cmd) oc n) = no_residual (scsi_resp c cmd oc m)"
  by (simp add: no_residual_def scsi_resp_def)

definition answers_alike :: "handled \<Rightarrow> handled \<Rightarrow> bool" where
  "answers_alike x y \<longleftrightarrow> map_sum id (map_prod id (map_prod id (map no_residual))) x =
     map_sum id (map_prod id (map_prod id (map no_residual))) y"

lemma command_limits:
  assumes "\<not> sc_write cmd" "length (sc_cdb cmd) = 16" "length a = snd (allocation_field (sc_cdb cmd ! 0))"
  shows "answers_alike (handle r c (ScsiCommand (with_limits a e cmd)) bhs) (handle r c (ScsiCommand cmd) bhs)"
proof -
  note run = run_target_limits [OF assms(2,3)]
  have "answers_alike (handle_command r c (with_limits a e cmd) bhs) (handle_command r c cmd bhs)"
    using assms(1)
    by (auto simp: handle_command_def Let_def answers_alike_def run split: sum.split)
  then show ?thesis by (simp add: handle_def answers_alike_def split: stage.split)
qed

lemma no_residual_data: "DataInOut d \<in> set outs \<Longrightarrow> DataInOut d \<in> set (map no_residual outs)"
  by (force simp: no_residual_def)

lemma command_limits_data:
  assumes "\<not> sc_write cmd" "length (sc_cdb cmd) = 16" "length a = snd (allocation_field (sc_cdb cmd ! 0))"
    and "DataInOut d \<in> set outs" "handle r c (ScsiCommand cmd) bhs = Inr (r', c', outs)"
  shows "handle r c (ScsiCommand (with_limits a e cmd)) bhs = Inr (r', c', outs)"
proof -
  note run = run_target_limits [OF assms(2,3)]
  show ?thesis
    using assms(1,4,5)
    by (auto simp: handle_def handle_command_def Let_def run scsi_resp_def rejected_def reject_pdu_def
        split: stage.splits sum.splits if_splits)
qed

section \<open>Writes in flight\<close>

text \<open>The bytes a connection has reserved for the writes whose data it waits for.\<close>

definition pending_bytes :: "connection \<Rightarrow> nat" where
  "pending_bytes c = (\<Sum>itt \<in> UNIV. case cn_in_flight c itt of None \<Rightarrow> 0 | Some p \<Rightarrow> length (pw_buf p))"

lemma pending_bytes_add:
  assumes "cn_in_flight c itt = None"
  shows "pending_bytes (c\<lparr>cn_exp_cmd_sn := s, cn_in_flight := (cn_in_flight c)(itt \<mapsto> p)\<rparr>) =
    length (pw_buf p) + pending_bytes c"
proof -
  let ?held = "\<lambda>fl :: u32 \<Rightarrow> pending_write option. \<lambda>i. case fl i of None \<Rightarrow> 0 | Some p \<Rightarrow> length (pw_buf p)"
  let ?fl = "cn_in_flight c" and ?fl' = "(cn_in_flight c)(itt \<mapsto> p)"
  have same: "sum (?held ?fl') (UNIV - {itt}) = sum (?held ?fl) (UNIV - {itt})"
    by (rule sum.cong) auto
  have "sum (?held f) UNIV = ?held f itt + sum (?held f) (UNIV - {itt})" for f
    by (rule sum.remove) simp_all
  from this [of ?fl'] this [of ?fl] same
  have "sum (?held ?fl') UNIV = length (pw_buf p) + sum (?held ?fl) UNIV"
    using assms by (simp del: sum.remove)
  then show ?thesis by (simp add: pending_bytes_def)
qed

text \<open>A WRITE without immediate data is put in flight, whatever is in flight already.\<close>

lemma write_put_in_flight:
  assumes "cn_stage c = FullFeature" "cn_target c \<noteq> None" "sc_write w" "sc_data w = []" "0 < sc_edtl w"
    and "cn_in_flight c (sc_itt w) = None"
  shows "\<exists>c' p. handle r c (ScsiCommand w) bhs = Inr (r, c', [R2tOut p]) \<and> r2_itt p = sc_itt w \<and>
    cn_stage c' = FullFeature \<and> cn_target c' = cn_target c \<and> pending_bytes c' = unat (sc_edtl w) + pending_bytes c \<and>
    (\<forall>itt. itt \<noteq> sc_itt w \<longrightarrow> cn_in_flight c' itt = cn_in_flight c itt)"
proof -
  have "0 < unat (sc_edtl w)" using assms(5) by (simp add: word_less_nat_alt)
  moreover obtain i where "cn_target c = Some i" using assms(2) by auto
  ultimately show ?thesis
    using assms pending_bytes_add [of c "sc_itt w"]
    by (simp add: handle_def handle_command_def begin_write_def Let_def r2t_pdu_def)
qed

lemma writes_pile_up:
  assumes "cn_stage c = FullFeature" "cn_target c \<noteq> None" "sc_write w" "sc_data w = []" "0 < sc_edtl w"
    and "distinct itts" "\<forall>itt \<in> set itts. cn_in_flight c itt = None"
  shows "\<exists>d ps. serve_all imm r c (map (\<lambda>itt. ScsiCommand (w\<lparr>sc_itt := itt\<rparr>)) itts) = Inr d \<and> dr_registry d = r \<and>
    dr_open d \<and> dr_sent d = encode_all (map R2tOut ps) \<and> map r2_itt ps = itts \<and>
    pending_bytes (dr_conn d) = length itts * unat (sc_edtl w) + pending_bytes c"
  using assms(1,2,6,7)
proof (induction itts arbitrary: c)
  case Nil
  then show ?case by (simp add: waiting_def encode_all_def)
next
  case (Cons itt itts)
  let ?w = "w\<lparr>sc_itt := itt\<rparr>" and ?req = "ScsiCommand (w\<lparr>sc_itt := itt\<rparr>)"
  obtain c1 p where h: "handle r c ?req (take BHS_LEN (encode_request imm ?req)) = Inr (r, c1, [R2tOut p])"
    and p: "r2_itt p = itt" and c1: "cn_stage c1 = FullFeature" "cn_target c1 = cn_target c"
      "pending_bytes c1 = unat (sc_edtl w) + pending_bytes c"
    and same: "\<forall>itt'. itt' \<noteq> itt \<longrightarrow> cn_in_flight c1 itt' = cn_in_flight c itt'"
    using write_put_in_flight [of c ?w r "take BHS_LEN (encode_request imm ?req)"] Cons.prems assms(3-5) by auto
  have "\<forall>itt' \<in> set itts. cn_in_flight c1 itt' = None" using same Cons.prems by (metis distinct.simps(2) list.set_intros(2))
  then obtain d ps where d: "serve_all imm r c1 (map (\<lambda>itt. ScsiCommand (w\<lparr>sc_itt := itt\<rparr>)) itts) = Inr d" "dr_registry d = r"
      "dr_open d" "dr_sent d = encode_all (map R2tOut ps)" "map r2_itt ps = itts"
      "pending_bytes (dr_conn d) = length itts * unat (sc_edtl w) + pending_bytes c1"
    using Cons.IH [of c1] Cons.prems c1 by auto
  then show ?case
    using h p c1
    by (intro exI [of _ "d\<lparr>dr_sent := encode_all [R2tOut p] @ dr_sent d\<rparr>"] exI [of _ "p # ps"])
      (simp add: after_sending_def encode_all_def del: encode_request.simps)
qed

lemma writes_drained:
  assumes "cn_stage c = FullFeature" "cn_target c \<noteq> None" "sc_write w" "sc_data w = []" "0 < sc_edtl w"
    and "sc_attr w < 8" "length (sc_cdb w) = 16" "distinct itts" "cn_in_flight c = (\<lambda>_. None)"
  shows "\<exists>d ps. drain r c (concat (map (\<lambda>itt. encode_request imm (ScsiCommand (w\<lparr>sc_itt := itt\<rparr>))) itts)) = Inr d \<and>
    dr_registry d = r \<and> dr_open d \<and> dr_sent d = encode_all (map R2tOut ps) \<and> map r2_itt ps = itts \<and>
    pending_bytes (dr_conn d) = length itts * unat (sc_edtl w)"
proof -
  let ?reqs = "map (\<lambda>itt. ScsiCommand (w\<lparr>sc_itt := itt\<rparr>)) itts"
  have "list_all request_ok ?reqs" using assms(4,6,7) by (simp add: list_all_iff)
  moreover have "pending_bytes c = 0" using assms(9) by (simp add: pending_bytes_def)
  ultimately show ?thesis
    using drain_requests [of ?reqs r c imm] writes_pile_up [OF assms(1-5,8), of imm r] assms(9)
    by (simp add: comp_def del: encode_request.simps)
qed

lemma distinct_tags: "n \<le> 2 ^ 32 \<Longrightarrow> distinct (map of_nat [0..<n] :: u32 list)"
  by (auto simp: distinct_map inj_on_def word_of_nat_eq_iff take_bit_nat_eq_self)

end
