(* ===== verification/Iscsi_Theorems.thy ===== *)
theory Iscsi_Theorems
  imports Samples Command_Limits
begin

text \<open>
  The properties of the iSCSI side: the PDU codec and the framing of the TCP stream, the session's
  numbering and negotiation, data transfers end to end through one connection, and SCSI command
  execution. Each is followed by an application to the states of \<open>Samples\<close>.
\<close>

section \<open>PDUs and the stream\<close>

text \<open>
  C18 Every request the initiator can send decodes to itself: decoding the encoding of a well-formed
  request gives the request and the exact number of bytes it took, whatever follows in the buffer.
\<close>

theorem request_round_trip:
  assumes "request_ok q"
  shows "decode (encode_request imm q @ rest) = Inr (q, length (encode_request imm q))"
  by (rule decode_encode [OF assms])

theorem request_round_trip_witness:
  "decode (encode_request False (ScsiCommand sample_write) @ [1, 2, 3]) =
    Inr (ScsiCommand sample_write, length (encode_request False (ScsiCommand sample_write)))"
  using request_round_trip [of "ScsiCommand sample_write"] by (simp add: sample_write_def MAX_DATA_SEGMENT_def)

text \<open>
  C10 Segmentation of the TCP stream is invisible: however the bytes of a connection are split over
  reads, the targets, the connection state, the bytes left in the buffer and the bytes sent back
  are those of receiving them in one read.
\<close>

theorem segmentation_invisible:
  "foldl feed (conn_start r) chunks = feed (conn_start r) (concat chunks)"
  by (rule feed_concat [OF settled_start])

text \<open>
  C19 Pipelined requests are served in order: draining the concatenation of any number of encoded
  requests handles exactly those requests one after the other and sends their responses in order,
  stopping at the one that closes the connection.
\<close>

theorem pipelined_requests_served_in_order:
  assumes "list_all request_ok reqs"
  shows "drain r c (concat (map (encode_request imm) reqs)) = serve_all imm r c reqs"
  by (rule drain_requests [OF assms])

theorem pipelined_requests_served_in_order_witness:
  "drain sample_registry sample_conn
      (concat (map (encode_request False) [ScsiCommand sample_read, ScsiCommand sample_write])) =
    serve_all False sample_registry sample_conn [ScsiCommand sample_read, ScsiCommand sample_write]"
  by (rule pipelined_requests_served_in_order) (simp add: sample_write_def sample_read_def MAX_DATA_SEGMENT_def)

text \<open>
  C8 Nothing is acknowledged that was not carried out: on a connection whose reads and writes may
  fail at any point, whatever the splitting of the bytes and the silences between them, what has
  been done to the targets is the first \<open>k\<close> requests received in full, what has been sent is a
  prefix of their answers, and at most the answer of the last one is missing or incomplete. If no
  write fails, all the requests received have been answered, up to one that closes the connection.
\<close>

theorem executed_and_acknowledged:
  assumes "list_all request_ok reqs" "received evs = concat (map (encode_request imm) reqs) @ rest"
    and "decode rest = Inl ShortHeader \<or> decode rest = Inl ShortData" "handle_conn wr r evs = Inr l"
  shows "\<exists>k \<le> length reqs. served_upto imm r connection_new reqs k (lk_registry l) (lk_sent l) \<and>
    ((\<forall>n. wr n = None) \<longrightarrow>
      k = length reqs \<and> map_sum id dr_sent (serve_all imm r connection_new reqs) = Inr (lk_sent l))"
proof -
  obtain l' where "drain_link wr r connection_new (concat (map (encode_request imm) reqs) @ rest) 0 = Inr l'"
      "lk_registry l' = lk_registry l" "lk_sent l' = lk_sent l"
    using effect_eq [of "drain_link wr r connection_new (received evs) 0" l] handle_conn_effect [of wr r evs] assms(2,4)
    by auto
  then show ?thesis using drain_link_served [OF assms(1,3)] by metis
qed

theorem executed_and_acknowledged_witness:
  "let bs = encode_request False (Login sample_login) in
   \<exists>l. handle_conn (\<lambda>_. Some 10) sample_registry [Read (take 20 bs), Elapsed, Read (drop 20 bs), ReadError] = Inr l \<and>
     (\<exists>k \<le> 1. served_upto False sample_registry connection_new [Login sample_login] k (lk_registry l) (lk_sent l))"
proof -
  let ?bs = "encode_request False (Login sample_login)" and ?wr = "\<lambda>_ :: nat. Some (10 :: nat)"
  let ?evs = "[Read (take 20 ?bs), Elapsed, Read (drop 20 ?bs), ReadError]"
  note d = decode_encode [OF sample_login_request_ok, of False "[]", unfolded append_Nil2]
  have "48 \<le> length bs \<Longrightarrow> received [Read (take 20 bs), Elapsed, Read (drop 20 bs), ReadError] = bs" for bs by auto
  then have rcv: "received ?evs = ?bs" using decode_consumed(1) [OF d] by (simp only: BHS_LEN_def)
  have "\<not> panics sample_registry connection_new (Login sample_login)" by (simp add: panics_def data_out_overflows_def)
  then obtain res where "handle sample_registry connection_new (Login sample_login) (take BHS_LEN ?bs) = Inr res"
    using handle_panics_lemma [OF sample_registry_ok(1) conn_inv_new request_ok_wf [OF sample_login_request_ok]] by (meson sumE)
  then obtain l where l: "handle_conn ?wr sample_registry ?evs = Inr l"
    using handle_conn_one [OF rcv d] by blast
  have "decode [] = Inl ShortHeader" by (simp add: decode_def BHS_LEN_def)
  then obtain k where "k \<le> 1" "served_upto False sample_registry connection_new [Login sample_login] k (lk_registry l) (lk_sent l)"
    using executed_and_acknowledged [of "[Login sample_login]" ?evs False "[]" ?wr sample_registry l] l sample_login_request_ok rcv
    by (auto simp del: encode_request.simps received.simps)
  with l show ?thesis by (auto simp only: Let_def)
qed

text \<open>
  C37 Every PDU sent is a complete frame: while the segment size the initiator declared and the list
  of target names are below 16 MiB, each PDU that answers a request, whatever the request, has a
  basic header, no additional header, the data segment length it states, padding to a multiple of
  four, and its sequence numbers at bytes 24 to 35. The session accepts larger segment sizes, and a
  Data-In of 16 MiB or more is not a frame: its length does not fit the 24-bit field.
\<close>

theorem responses_are_complete_frames:
  assumes "conn_inv r c" "request_wf q" "length bhs \<le> 48" "names_fit r" "sp_max_recv (cn_params c) < 2 ^ 24"
    and "handle r c q bhs = Inr (r', c', outs)"
  shows "(\<forall>out \<in> set outs. pdu_wf (encode_outbound out) \<and>
      (be32 (encode_outbound out) 24, be32 (encode_outbound out) 28, be32 (encode_outbound out) 32) = out_sn out) \<and>
    (\<forall>p. 2 ^ 24 \<le> length (di_data p) \<longrightarrow> \<not> pdu_wf (encode_outbound (DataInOut p)))"
  using handle_frames [OF _ assms(5,4,2,3,6)] data_in_overflow assms(1) by (simp add: conn_inv_def)

theorem responses_are_complete_frames_witness:
  "\<exists>c' outs. handle sample_registry sample_conn (ScsiCommand sample_read) [] = Inr (sample_registry, c', outs) \<and>
    (\<forall>out \<in> set outs. pdu_wf (encode_outbound out))"
proof -
  obtain c' outs where h: "handle sample_registry sample_conn (ScsiCommand sample_read) [] = Inr (sample_registry, c', outs)"
    using read_session [of sample_registry sample_conn 0 sample_read 0 sample_unit 3 1 "[]"] by auto
  have "request_wf (ScsiCommand sample_read)" by (simp add: sample_read_def MAX_DATA_SEGMENT_def)
  moreover have "names_fit sample_registry"
    by (simp add: names_fit_def registry_iqns_def sample_registry_def registry_insert_def registry_new_def length_encode_pairs)
  ultimately show ?thesis
    using responses_are_complete_frames [OF sample_conn_ok(1) _ _ _ _ h] h by (simp add: params_default_def)
qed

section \<open>The session\<close>

text \<open>
  C3 A written block reads back through the session: on a logged-in connection, a WRITE of a range
  inside the unit, its data sent as immediate data and in answer to each R2T in any negotiated
  burst size, ends with status GOOD, and a READ of the range then returns exactly that data.
\<close>

theorem written_data_reads_back:
  assumes "registry_inv r" "conn_inv r c" "cn_stage c = FullFeature"
    and "cn_target c = Some i" "lun_at (reg_heap r ! i) (sc_lun w) = Some (n, lu)"
    and "sc_write w" "is_write_op (sc_cdb w ! 0)" "rw_extent (sc_cdb w) = (lba, blocks)"
    and "length payload = unat (sc_edtl w)" "sc_data w = take k payload" "k \<le> length payload"
    and "0 < blocks" "lba + blocks \<le> lu_capacity lu" "length payload = blocks * lu_block_size lu"
    and "0 < sp_max_burst (cn_params c)" "cn_in_flight c (sc_itt w) = None"
    and "sc_read rd" "\<not> sc_write rd" "is_read_op (sc_cdb rd ! 0)" "rw_extent (sc_cdb rd) = (lba, blocks)"
      "sc_lun rd = sc_lun w"
  shows "\<exists>r1 c1 p c2 outs. run_write r c w bhs payload = Inr (r1, c1, [ScsiRespOut p]) \<and> sr_status p = GOOD \<and>
    handle r1 c1 (ScsiCommand rd) bhs' = Inr (r1, c2, outs) \<and> fold place outs (zeros (length payload)) = payload"
  using assms by (rule write_then_read_session)

theorem written_data_reads_back_witness:
  "\<exists>r1 c1 p c2 outs. run_write sample_registry sample_conn sample_write [] (replicate 512 9) = Inr (r1, c1, [ScsiRespOut p]) \<and>
    sr_status p = GOOD \<and> handle r1 c1 (ScsiCommand sample_read) [] = Inr (r1, c2, outs) \<and>
    fold place outs (zeros 512) = replicate 512 9"
proof -
  have "length (replicate 512 9 :: bytes) = 512" by simp
  then show ?thesis
    using written_data_reads_back [of sample_registry sample_conn 0 sample_write 0 sample_unit 3 1 "replicate 512 9" 0
        sample_read "[]" "[]"]
    by (simp add: params_default_def)
qed



text \<open>
  C38 An initiator's limits bound no answer: a command that is not a write is answered alike, on every
  branch and in every stage of the session, whatever the allocation length of its CDB and whatever
  the data transfer length it expects; only the residual count of an answer without data depends
  on them, and an answer with data is the same to the last byte. So an INQUIRY for 0 bytes is
  sent all 36.
\<close>

theorem limits_bound_no_answer:
  assumes "\<not> sc_write cmd" "length (sc_cdb cmd) = 16" "length a = snd (allocation_field (sc_cdb cmd ! 0))"
  shows "answers_alike (handle r c (ScsiCommand (with_limits a e cmd)) bhs) (handle r c (ScsiCommand cmd) bhs) \<and>
    (\<forall>r' c' outs. (\<exists>d. DataInOut d \<in> set outs) \<longrightarrow>
      handle r c (ScsiCommand cmd) bhs = Inr (r', c', outs) \<longrightarrow>
      handle r c (ScsiCommand (with_limits a e cmd)) bhs = Inr (r', c', outs))"
  using command_limits [OF assms] command_limits_data [OF assms] by blast

theorem limits_bound_no_answer_witness:
  "\<exists>c' d. handle sample_registry sample_conn (ScsiCommand (with_limits [0, 0] 0 sample_inquiry)) [] =
      Inr (sample_registry, c', [DataInOut d]) \<and> length (di_data d) = 36"
proof -
  obtain c' d where h: "handle sample_registry sample_conn (ScsiCommand sample_inquiry) [] =
      Inr (sample_registry, c', [DataInOut d])" "length (di_data d) = 36"
    using inquiry_answered by blast
  have "\<not> sc_write sample_inquiry" "length (sc_cdb sample_inquiry) = 16"
    "length [0 :: u8, 0] = snd (allocation_field (sc_cdb sample_inquiry ! 0))"
    by (simp_all add: sample_inquiry_def allocation_field_def)
  then have "handle sample_registry sample_conn (ScsiCommand (with_limits [0, 0] 0 sample_inquiry)) [] =
      Inr (sample_registry, c', [DataInOut d])"
    using limits_bound_no_answer [of sample_inquiry "[0, 0]" sample_registry sample_conn 0 "[]"] h(1)
    by (metis list.set_intros(1))
  then show ?thesis using h(2) by blast
qed

text \<open>
  C39 The command window bounds nothing: a logged-in connection that waits for no data answers any
  number of WRITE commands in one stream, all with the same CmdSN and up to one for each tag, with
  an R2T each and reserves the full length of every one of them, though it never announces room for more
  than 16 commands. What it reserves is bounded by the tags and the lengths alone.
\<close>

theorem command_window_not_enforced:
  assumes "cn_stage c = FullFeature" "cn_target c \<noteq> None" "cn_in_flight c = (\<lambda>_. None)"
    and "sc_write w" "sc_data w = []" "0 < sc_edtl w" "sc_attr w < 8" "length (sc_cdb w) = 16" "n \<le> 2 ^ 32"
  shows "\<exists>d ps. drain r c (concat (map (\<lambda>i. encode_request imm (ScsiCommand (w\<lparr>sc_itt := of_nat i\<rparr>))) [0..<n])) = Inr d \<and>
    dr_registry d = r \<and> dr_open d \<and> dr_sent d = encode_all (map R2tOut ps) \<and> map r2_itt ps = map of_nat [0..<n] \<and>
    pending_bytes (dr_conn d) = n * unat (sc_edtl w) \<and>
    max_cmd_sn (dr_conn d) - cn_exp_cmd_sn (dr_conn d) = 16"
  using writes_drained [OF assms(1,2,4-8) distinct_tags [OF assms(9)] assms(3), of r imm]
  by (simp add: comp_def max_cmd_sn_def QUEUE_DEPTH_def)

theorem command_window_not_enforced_witness:
  "\<exists>d. drain sample_registry sample_conn (concat (map (\<lambda>i. encode_request False
      (ScsiCommand (sample_write\<lparr>sc_edtl := 0xffffffff, sc_itt := of_nat i\<rparr>))) [0..<1000])) = Inr d \<and>
    pending_bytes (dr_conn d) = 4294967295000"
  using command_window_not_enforced [of sample_conn "sample_write\<lparr>sc_edtl := 0xffffffff\<rparr>" 1000 sample_registry False]
  by (auto simp: sample_write_def simp del: encode_request.simps)

text \<open>
  C40 A repeated Data-Out completes a write: the session counts the bytes it received and not the
  range they cover, so an initiator that sends the first half of a write twice gets the status of
  a command that ran with its second half zero, though no PDU carried those bytes.
\<close>

theorem repeated_data_out_completes_write:
  assumes "registry_inv r" "conn_inv r c" "cn_stage c = FullFeature"
    and "cn_in_flight c (do_itt d) = Some p" "pw_received p = 0" "pw_buf p = zeros (2 * m)" "pw_r2t_sn p = 0"
    and "do_buffer_offset d = 0" "length (do_data d) = m" "0 < m"
  shows "\<exists>c1 q r2 c2 p2 oc. handle r c (DataOut d) bhs = Inr (r, c1, [R2tOut q]) \<and>
    unat (r2_buffer_offset q) = m \<and> handle r c1 (DataOut d) bhs = Inr (r2, c2, [ScsiRespOut p2]) \<and>
    run_target r c (pw_cmd p) (do_data d @ zeros m) = Inr (r2, oc) \<and> sr_status p2 = oc_status oc"
  by (rule duplicate_completes [OF assms])

theorem repeated_data_out_completes_write_witness:
  "\<exists>r2 c1 q c2 p2. handle sample_registry sample_waiting (DataOut sample_half) [] = Inr (sample_registry, c1, [R2tOut q]) \<and>
    handle sample_registry c1 (DataOut sample_half) [] = Inr (r2, c2, [ScsiRespOut p2])"
proof -
  have "cn_in_flight sample_waiting (do_itt sample_half) =
      Some \<lparr>pw_cmd = sample_write, pw_buf = zeros (2 * 256), pw_received = 0, pw_r2t_sn = 0\<rparr>"
    by (simp add: sample_waiting_def sample_half_def)
  from repeated_data_out_completes_write [OF _ _ _ this, where r = sample_registry and m = 256 and bhs = "[]"] show ?thesis
    using sample_waiting_ok by (simp add: sample_half_def) blast
qed

section \<open>SCSI\<close>

text \<open>
  C17 Every command is executed: a target in its invariant answers any command block and data with
  an outcome, never a panic, keeps its invariant and the size of every unit, and changes no unit
  but the one its address reaches; when the address reaches none, the target is left as it was.
\<close>

theorem commands_always_answered:
  assumes "target_inv t"
  shows "\<exists>t' oc. execute t cmd buf = (t', Inr oc) \<and> target_inv t' \<and>
    (case lun_at t (sc_lun cmd) of None \<Rightarrow> t' = t | Some (n, lu) \<Rightarrow> target_step n t t')"
  by (rule execute_step [OF assms])

theorem commands_always_answered_witness:
  "\<exists>t' oc. execute sample_target (sample_write\<lparr>sc_cdb := replicate 16 255\<rparr>) [] = (t', Inr oc) \<and> target_inv t'"
  using commands_always_answered [of sample_target "sample_write\<lparr>sc_cdb := replicate 16 255\<rparr>" "[]"] by auto

text \<open>
  C25 Discovery is exact: a target of up to 256 units answers REPORT LUNS with a list of distinct
  addresses each of which reaches the unit it stands for, every unit that any address reaches is in
  the list, and a command at an address that reaches none is refused without effect.
\<close>

theorem reported_luns_are_the_reachable_ones:
  assumes "length (st_luns t) \<le> 256" "lun_at t (sc_lun cmd) \<noteq> None" "sc_cdb cmd ! 0 = 0xa0"
  shows "\<exists>oc. execute t cmd bs = (t, Inr oc) \<and> oc_status oc = GOOD \<and> distinct (listed_luns (oc_data oc)) \<and>
    (\<forall>lun \<in> set (listed_luns (oc_data oc)). lun_at t lun \<noteq> None) \<and>
    (\<forall>lun n lu. lun_at t lun = Some (n, lu) \<longrightarrow>
       (\<exists>lun' \<in> set (listed_luns (oc_data oc)). lun_at t lun' = Some (n, lu))) \<and>
    (\<forall>cmd' bs'. lun_at t (sc_lun cmd') = None \<longrightarrow>
       execute t cmd' bs' = (t, Inr (outcome_check ILLEGAL_REQUEST ASC_LUN_NOT_SUPPORTED)))"
proof -
  let ?listed = "listed_luns (oc_data (report_luns t))"
  have "execute t cmd bs = (t, Inr (report_luns t)) \<and> oc_status (report_luns t) = GOOD"
    using assms(2,3) by (auto simp: execute_def report_luns_def Let_def)
  moreover have "\<forall>lun \<in> set ?listed. lun_at t lun \<noteq> None"
    by (simp add: listed_lun_reached [OF assms(1)])
  moreover have "\<exists>lun' \<in> set ?listed. lun_at t lun' = Some (n, lu)" if "lun_at t lun = Some (n, lu)" for lun n lu
    by (rule reached_lun_listed [OF assms(1) that])
  moreover have "execute t cmd' bs' = (t, Inr (outcome_check ILLEGAL_REQUEST ASC_LUN_NOT_SUPPORTED))"
    if "lun_at t (sc_lun cmd') = None" for cmd' bs'
    using that by (simp add: execute_def)
  ultimately show ?thesis using listed_luns_distinct [OF assms(1)] by blast
qed

theorem reported_luns_are_the_reachable_ones_witness:
  "\<exists>oc. execute sample_target (sample_read\<lparr>sc_cdb := 0xa0 # zeros 15\<rparr>) [] = (sample_target, Inr oc) \<and>
    listed_luns (oc_data oc) \<noteq> [] \<and> (\<forall>lun \<in> set (listed_luns (oc_data oc)). lun_at sample_target lun \<noteq> None)"
proof -
  let ?cmd = "sample_read\<lparr>sc_cdb := 0xa0 # zeros 15\<rparr>"
  have "length (st_luns sample_target) \<le> 256" "lun_at sample_target (sc_lun ?cmd) \<noteq> None" "sc_cdb ?cmd ! 0 = 0xa0"
    using sample_target_ok(2) by (simp_all add: sample_target_def)
  then obtain oc where oc: "execute sample_target ?cmd [] = (sample_target, Inr oc)"
      "\<forall>lun \<in> set (listed_luns (oc_data oc)). lun_at sample_target lun \<noteq> None"
      "\<exists>lun' \<in> set (listed_luns (oc_data oc)). lun_at sample_target lun' = Some (0, sample_unit)"
    using reported_luns_are_the_reachable_ones [of sample_target ?cmd "[]"] sample_target_ok(2) by blast
  then have "listed_luns (oc_data oc) \<noteq> []" by auto
  with oc(1,2) show ?thesis by blast
qed

text \<open>
  C9 No disk without its login: a session only goes forward from login to full feature to closing, and
  a request that changes a target or returns data comes after a login of the same session that named
  exactly the target it touches and one that asked for full feature; no other target is changed.
\<close>

theorem disks_need_their_login:
  assumes "session h c" "handle r c q bhs = Inr (r', c', outs)"
  shows "cn_stage c \<le> cn_stage c' \<and>
    (r' \<noteq> r \<or> (\<exists>d. DataInOut d \<in> set outs) \<longrightarrow>
      (\<exists>i. cn_target c = Some i \<and> (\<exists>r0 lq. (r0, Login lq) \<in> set h \<and> names_target r0 lq i) \<and>
        (\<exists>r0 lq. (r0, Login lq) \<in> set h \<and> lq_transit lq \<and> lq_nsg lq = 3) \<and>
        (\<forall>j. j \<noteq> i \<longrightarrow> reg_heap r' ! j = reg_heap r ! j)))"
  using handle_stages(1) [OF assms(2)] session_access [OF assms] by blast

theorem disks_need_their_login_witness:
  "\<exists>h c c' outs i r0 lq. session h c \<and> handle sample_registry c (ScsiCommand sample_read) [] = Inr (sample_registry, c', outs) \<and>
    (\<exists>d. DataInOut d \<in> set outs) \<and> (r0, Login lq) \<in> set h \<and> names_target r0 lq i"
proof -
  let ?lq = "sample_login\<lparr>lq_text := [(ascii ''TargetName'', ascii ''iqn'')]\<rparr>"
  have q: "find (\<lambda>kv. fst kv = ascii ''TargetName'') (lq_text ?lq) = Some (ascii ''TargetName'', ascii ''iqn'')"
    "lq_transit ?lq" "lq_nsg ?lq = 3" by (simp_all add: sample_login_def)
  have new: "cn_stage connection_new = LoginStage" "cn_target connection_new = None" by (simp_all add: connection_new_def)
  obtain c p where c: "handle sample_registry connection_new (Login ?lq) [] = Inr (sample_registry, c, [LoginOut p])"
      "cn_stage c = FullFeature" "cn_target c = Some 0"
    using login_finds [OF sample_registry_ok(4) new q, of "[]"] by blast
  have s: "session [(sample_registry, Login ?lq)] c" using session.serve [OF session.start c(1)] by simp
  have "conn_inv sample_registry c"
    using good_handle [OF sample_registry_ok(1) conn_inv_new, of "Login ?lq" "[]"] c(1) by (simp add: good_step_def)
  then obtain c' outs where rd: "handle sample_registry c (ScsiCommand sample_read) [] = Inr (sample_registry, c', outs)"
      "fold place outs (zeros 512) = window (3 * 512) 512 sample_file"
    using read_session [OF sample_registry_ok(1) _ c(2,3), of sample_read 0 sample_unit 3 1 "[]"] by auto
  have "window (3 * 512) 512 sample_file \<noteq> zeros 512"
    by (simp add: sample_file_def window_replicate zeros_def replicate_eq_replicate)
  then have data: "\<exists>d. DataInOut d \<in> set outs" using rd(2) fold_place_no_data by metis
  then show ?thesis using disks_need_their_login [OF s rd(1)] s rd(1) by blast
qed

text \<open>
  C20 The cycle of the integration test holds for every disk: over the PDUs the test kit builds, a login that
  names a registered target, a WRITE with its data inside the PDU, a READ of the same range and a
  logout are answered with full feature, GOOD, exactly the data written, and the end of the session,
  for every target, range, payload and tags.
\<close>

theorem full_cycle_on_every_disk:
  assumes "registry_inv r" "registry_get r iqn = Some i" "lun_at (reg_heap r ! i) 0 = Some (n, lu)"
    and "text_pair_ok (ascii ''TargetName'', iqn)" "length iqn \<le> 200000"
    and "0 < unat blocks" "unat lba + unat blocks \<le> lu_capacity lu"
    and "length payload = unat blocks * lu_block_size lu" "length payload \<le> MAX_DATA_SEGMENT"
  shows "\<exists>c1 o1 r2 c2 p c3 outs c4 o4.
    kit_step r connection_new (login_pdu True 0 3 [(ascii ''TargetName'', iqn)]) = Inr (r, c1, [LoginOut o1]) \<and>
    cn_stage c1 = FullFeature \<and>
    kit_step r c1 (write10_immediate_pdu itt lba blocks payload) = Inr (r2, c2, [ScsiRespOut p]) \<and> sr_status p = GOOD \<and>
    kit_step r2 c2 (read10_pdu itt' lba blocks) = Inr (r2, c3, outs) \<and> fold place outs (zeros (length payload)) = payload \<and>
    kit_step r2 c3 (logout_pdu itt'') = Inr (r2, c4, [LogoutOut o4]) \<and> cn_stage c4 = Closing"
  by (rule kit_cycle [OF assms])

theorem full_cycle_on_every_disk_witness:
  "\<exists>c1 o1 r2 c2 p c3 outs.
    kit_step sample_registry connection_new (login_pdu True 0 3 [(ascii ''TargetName'', ascii ''iqn'')]) =
      Inr (sample_registry, c1, [LoginOut o1]) \<and>
    kit_step sample_registry c1 (write10_immediate_pdu 40 3 1 (replicate 512 119)) = Inr (r2, c2, [ScsiRespOut p]) \<and>
    kit_step r2 c2 (read10_pdu 41 3 1) = Inr (r2, c3, outs) \<and> fold place outs (zeros 512) = replicate 512 119"
proof -
  have "lun_at (reg_heap sample_registry ! 0) 0 = Some (0, sample_unit)" using sample_registry_ok(3) sample_target_ok(2) by simp
  moreover have "text_pair_ok (ascii ''TargetName'', ascii ''iqn'')" by (simp add: text_pair_ok_def is_ascii_is_utf8 is_ascii_def)
  ultimately show ?thesis
    using full_cycle_on_every_disk [OF sample_registry_ok(1,4), of 0 sample_unit 1 3 "replicate 512 119" 40 41 42]
    by (auto simp: MAX_DATA_SEGMENT_def)
qed



text \<open>
  C35 READ CAPACITY is right: both forms report the block length, the 16-byte form the last block of
  the unit and the 10-byte form the same saturated at 32 bits; on a unit that has a block, the
  last block is readable and the one after it is not.
\<close>

theorem read_capacity_reports_last_block:
  assumes "lu_inv lu" "0 < lu_capacity lu"
  shows "(\<exists>bs. read_capacity_16 lu = Inr (outcome_good bs) \<and> length bs = 32 \<and>
      be_val (window 0 8 bs) = lu_capacity lu - 1 \<and> be_val (window 8 4 bs) = lu_block_size lu) \<and>
    (\<exists>bs. read_capacity_10 lu = Inr (outcome_good bs) \<and> length bs = 8 \<and>
      be_val (window 0 4 bs) = min u32_max (lu_capacity lu - 1) \<and> be_val (window 4 4 bs) = lu_block_size lu) \<and>
    (\<forall>lba. (\<exists>bs. scsi_read lu lba 1 = Inr (outcome_good bs)) \<longleftrightarrow> lba \<le> lu_capacity lu - 1)"
  using read_capacity_16_data [OF assms(1)] read_capacity_10_data [OF assms(1)] capacity_readable [OF assms] by blast

theorem read_capacity_reports_last_block_witness:
  "\<exists>bs. read_capacity_16 sample_unit = Inr (outcome_good bs) \<and> be_val (window 0 8 bs) = 15"
  using read_capacity_reports_last_block [of sample_unit] by auto

end
