(* ===== verification/Net_Theorems.thy ===== *)
theory Net_Theorems
  imports Samples
begin

text \<open>
  The properties of the boot services: the DHCP codec and replies, the addresses the server gives
  out, and the TFTP server, its transfers and what it lets a request reach. Each is followed by
  an application to the states of \<open>Samples\<close>.
\<close>

section \<open>DHCP\<close>

text \<open>
  C36 DHCP messages survive the codec: a well-formed message encodes, and its encoding parses back to
  it whatever trails the end option; every message the parser returns is well-formed, so what was
  received can be sent again.
\<close>

theorem dhcp_round_trip:
  assumes "message_ok m"
  shows "(\<exists>bs. dhcp_encode m = Inr bs \<and> dhcp_parse (bs @ junk) = Inr m) \<and>
    (\<forall>buf m'. dhcp_parse buf = Inr m' \<longrightarrow> message_ok m')"
  using parse_encode [OF assms] dhcp_parse_ok by blast

theorem dhcp_round_trip_witness:
  "\<exists>bs. dhcp_encode sample_dhcp = Inr bs \<and> dhcp_parse (bs @ [1, 2, 3]) = Inr sample_dhcp"
  using dhcp_round_trip [OF sample_dhcp_ok(1)] by blast

text \<open>
  Addresses come from the last octet of the MAC: the address offered is in the server's /24 with a
  host number from 2 to 254, and two clients are offered the same address exactly when their last
  octets are equal or fall on the same number after 0, 1 and 255 are moved to 100, 101 and 99.
  Nothing records which addresses are in use.
\<close>

theorem assigned_addresses:
  assumes "a \<noteq> []" "b \<noteq> []" "assign_ip_from_mac a server_ip = Some ip"
  shows "take 3 ip = [server_ip ! 0, server_ip ! 1, server_ip ! 2] \<and> length ip = 4 \<and>
    2 \<le> unat (ip ! 3) \<and> unat (ip ! 3) \<le> 254 \<and>
    (assign_ip_from_mac a server_ip = assign_ip_from_mac b server_ip \<longleftrightarrow> host_octet a = host_octet b)"
  using assign_ip_host [OF assms(3)] assign_ip_collision [OF assms(1,2)] by blast

theorem assigned_addresses_witness:
  "assign_ip_from_mac [2, 0, 0, 0, 0, 0] [10, 0, 0, 1] = assign_ip_from_mac [2, 0, 0, 0, 0, 100] [10, 0, 0, 1]"
  using assigned_addresses [of "[2, 0, 0, 0, 0, 0]" "[2, 0, 0, 0, 0, 100]" "[10, 0, 0, 1]" "[10, 0, 0, 100]"]
  by (simp add: host_octet_def assign_ip_from_mac_def)

section \<open>TFTP\<close>

text \<open>
  C11 A finished TFTP download is the file: with packets lost, repeated, delayed and reordered at will
  and any datagrams sent to the server, a client that takes each block once and has finished has
  exactly the bytes of the file, for every file of fewer than 65535 full blocks.
\<close>

theorem tftp_delivers_the_file:
  assumes "0 < unat blksize" "n_blocks data (unat blksize) < 65536"
    and "net_reach uni cfg data blksize s" "tc_done (nt_client s)"
  shows "tc_got (nt_client s) = data"
proof -
  have "client_ok data (unat blksize) (nt_client s)"
    using net_reach_ok [OF assms(1-3)] by (simp add: net_ok_def)
  then show ?thesis using client_ok_done assms(1,4) by blast
qed

theorem tftp_delivers_the_file_witness:
  "\<exists>s. net_reach id (tftp_server_new []) [1, 2, 3] 8 s \<and> tc_done (nt_client s) \<and> tc_got (nt_client s) = [1, 2, 3]"
proof -
  let ?cfg = "tftp_server_new []" and ?data = "[1, 2, 3] :: bytes" and ?t = "transfer_start (tftp_server_new [])"
  let ?p = "encode_data 1 [1, 2, 3]"
  let ?s0 = "\<lparr>nt_server = Some ?t, nt_sent = {}, nt_client = \<lparr>tc_expected = 1, tc_got = [], tc_done = False\<rparr>\<rparr>"
  let ?s1 = "?s0\<lparr>nt_server := snd (after_wait id ?cfg True ?t Timeout),
    nt_sent := insert (encode_data (tr_current ?t) ?data) (set (fst (after_wait id ?cfg True ?t Timeout)) \<union> nt_sent ?s0)\<rparr>"
  let ?s2 = "?s1\<lparr>nt_client := client_recv (unat (8 :: u16)) (nt_client ?s1) ?p\<rparr>"
  have t: "tr_current ?t = 1" by (simp add: transfer_start_def)
  have "net_step id ?cfg ?data 8 ?s0 ?s1"
    by (rule net_step.server [where t = ?t and ev = Timeout])
      (simp_all add: t current_chunk_def window_def)
  then have r1: "net_reach id ?cfg ?data 8 ?s1" by (rule net_reach.step [OF net_reach.start])
  have "net_step id ?cfg ?data 8 ?s1 ?s2" by (rule net_step.client) (simp add: t)
  then have r2: "net_reach id ?cfg ?data 8 ?s2" by (rule net_reach.step [OF r1])
  have "tc_done (nt_client ?s2)" by (simp add: client_recv_def encode_data_def)
  moreover have "n_blocks ?data (unat (8 :: u16)) < 65536" by (simp add: n_blocks_def)
  ultimately show ?thesis using tftp_delivers_the_file [OF _ _ r2] r2 by (intro exI [of _ ?s2]) simp
qed

text \<open>
  C26 A TFTP transfer ends, up to 65534 full blocks and no further: whatever arrives or fails to arrive,
  after at most one more than the configured retries for each block the server has returned; it
  neither waits for ever nor panics. With one more full block, a client that acknowledges every block
  makes it panic: the 16-bit block number wraps to zero after block 65535, and the next round
  computes the position of block zero.
\<close>

theorem tftp_transfer_ends:
  assumes "0 < unat blksize"
  shows "(n_blocks data (unat blksize) < 65536 \<longrightarrow>
      n_blocks data (unat blksize) * (ts_max_retries cfg + 1) \<le> length evs \<longrightarrow>
      snd (transfer_blocks uni cfg data blksize (transfer_start cfg) evs) = Inr Returned) \<and>
    (65536 \<le> n_blocks data (unat blksize) \<longrightarrow>
      snd (transfer_blocks uni cfg data blksize (transfer_start cfg)
        (map (\<lambda>i. Received (ack_datagram (of_nat i))) [1..<65536])) = Inl Panicked)"
proof -
  have "rounds_left cfg data (unat blksize) (transfer_start cfg) = n_blocks data (unat blksize) * (ts_max_retries cfg + 1)"
    by (simp add: rounds_left_def transfer_start_def n_blocks_def)
  then show ?thesis
    using transfer_returns [OF assms _ transfer_start_ok] transfer_wraps [OF assms] by (simp add: transfer_start_def)
qed

theorem tftp_transfer_ends_witness:
  "snd (transfer_blocks id (tftp_server_new []) sample_file 512 (transfer_start (tftp_server_new [])) (replicate 102 Timeout))
      = Inr Returned \<and>
    snd (transfer_blocks id (tftp_server_new []) (replicate 524280 0) 8 (transfer_start (tftp_server_new []))
      (map (\<lambda>i. Received (ack_datagram (of_nat i))) [1..<65536])) = Inl Panicked"
proof
  have "n_blocks sample_file (unat (512 :: u16)) = 17" "ts_max_retries (tftp_server_new []) = 5"
    by (simp_all add: n_blocks_def tftp_server_new_def)
  then show "snd (transfer_blocks id (tftp_server_new []) sample_file 512 (transfer_start (tftp_server_new []))
      (replicate 102 Timeout)) = Inr Returned"
    using tftp_transfer_ends [of 512 sample_file "tftp_server_new []" "replicate 102 Timeout" id] by simp
  have "n_blocks (replicate 524280 (0 :: u8)) (unat (8 :: u16)) = 65536" by (simp only: n_blocks_def length_replicate) simp
  then show "snd (transfer_blocks id (tftp_server_new []) (replicate 524280 0) 8 (transfer_start (tftp_server_new []))
      (map (\<lambda>i. Received (ack_datagram (of_nat i))) [1..<65536])) = Inl Panicked"
    by (intro tftp_transfer_ends [THEN conjunct2, rule_format]) (simp, simp only: order_refl)
qed

text \<open>
  C28 TFTP stays below its root: the answer to a datagram does not depend on any file outside the
  root directory, and a request name that passes the check never leads, component by component,
  above the directory it starts in.
\<close>

theorem tftp_confined_to_root:
  assumes "same_under_root cfg fs fs'"
  shows "handle_request uni fs' cfg d evs = handle_request uni fs cfg d evs \<and>
    (\<forall>name dir. is_safe_path name \<longrightarrow> (\<exists>below. walk dir (split_on is_sep name) = dir @ below))"
  using handle_request_confined [OF assms] safe_path_below(1) by blast

theorem tftp_confined_to_root_witness:
  "\<forall>d evs. handle_request id (sample_fs\<lparr>fs_read := (\<lambda>p. if starts_with [ascii ''tftp''] p then fs_read sample_fs p else Some [1])\<rparr>)
      (tftp_server_new (ascii ''tftp'')) d evs =
    handle_request id sample_fs (tftp_server_new (ascii ''tftp'')) d evs"
  (is "\<forall>d evs. handle_request id ?fs ?cfg d evs = _")
proof -
  have "same_under_root ?cfg sample_fs ?fs"
    by (simp add: same_under_root_def tftp_server_new_def sample_fs_def del: ascii_Cons)
  from tftp_confined_to_root [OF this] show ?thesis by blast
qed

text \<open>
  A readable file below the root is served to the end: a plain read request for it is answered with
  its blocks in order, one for each acknowledgement, and the server returns after the last one.
\<close>

theorem tftp_request_served:
  assumes "fs_canonicalize fs (fs_join fs (ts_tftp_root cfg) filename) = Some path"
    and "fs_canonicalize fs (ts_tftp_root cfg) = Some root" "starts_with root path" "fs_read fs path = Some data"
    and "is_safe_path filename" "cstr_ok filename" "cstr_ok mode" "n_blocks data 512 < 65536"
  shows "handle_request uni fs cfg (encode_rrq filename mode [])
      (map (\<lambda>i. Received (ack_datagram (of_nat i))) [1..<Suc (n_blocks data 512)]) =
    (map (data_packet data 512) [1..<Suc (n_blocks data 512)], Inr Returned) \<and>
    concat (map (file_block data 512) [1..<Suc (n_blocks data 512)]) = data"
  using request_served [OF assms] blocks_all [of 512 data] by simp

theorem tftp_request_served_witness:
  "\<exists>acks. handle_request id sample_fs (tftp_server_new (ascii ''tftp'')) (encode_rrq (ascii ''ipxe.efi'') (ascii ''octet'') []) acks
    = (map (data_packet sample_file 512) [1..<18], Inr Returned)"
proof -
  let ?cfg = "tftp_server_new (ascii ''tftp'')" and ?name = "ascii ''ipxe.efi''"
  have "?name \<noteq> ascii ''tftp''" by simp
  then have fs: "fs_canonicalize sample_fs (fs_join sample_fs (ts_tftp_root ?cfg) ?name) = Some [ascii ''tftp'', ?name]"
    "fs_canonicalize sample_fs (ts_tftp_root ?cfg) = Some [ascii ''tftp'']"
    "starts_with [ascii ''tftp''] [ascii ''tftp'', ?name]" "fs_read sample_fs [ascii ''tftp'', ?name] = Some sample_file"
    by (simp_all add: sample_fs_def tftp_server_new_def starts_with_single del: ascii_Cons)
  have safe: "is_safe_path ?name" "cstr_ok ?name" "cstr_ok (ascii ''octet'')"
    by (simp_all add: is_safe_path_def is_sep_def cstr_ok_def starts_with_single is_ascii_is_utf8 is_ascii_def)
  have "n_blocks sample_file 512 = 17" by (simp add: n_blocks_def)
  then show ?thesis using tftp_request_served [OF fs safe] by auto
qed

section \<open>The services together\<close>

text \<open>
  C23 What ends the program: once its sockets are bound, the program goes on serving exactly as long as
  no socket operation of a loop fails, nobody presses Ctrl-C and every DHCP reply can be sent; it
  then exits with success. As long as it serves, every DHCP datagram that calls for a reply has been
  sent the one the decision made, in a form that parses back to it, and every TFTP request and every
  HTTP and iSCSI connection has been handed to a task of its own. No datagram panics a listener, and
  only a reply that cannot be sent ends one.
\<close>

theorem services_end_exactly_when:
  assumes "boot_fits cfg" "run_services cfg (all_bound @ evs) services_start = (s, res)"
  shows "res = (if list_all (harmless cfg) evs then None else Some Success) \<and>
    (res = None \<longrightarrow> map (apfst dhcp_parse) (sv_replies s) = map (apfst Inr) (decided cfg evs) \<and>
      sv_transfers s = tftp_requests evs \<and> sv_http s = http_peers evs \<and> sv_iscsi s = iscsi_peers evs) \<and>
    (\<forall>p d src can_send. harmless cfg (DhcpIn p (Arrived (d, src, can_send))) \<longleftrightarrow>
      (\<forall>reply dest. handle_datagram (take 2048 d) cfg p src = Some (reply, dest) \<longrightarrow> can_send dest))"
proof -
  obtain s0 where s0: "run_services cfg evs s0 = (s, res)" "all_up s0"
    "sv_replies s0 = [] \<and> sv_transfers s0 = [] \<and> sv_http s0 = [] \<and> sv_iscsi s0 = []"
    using run_all_bound [of cfg evs] assms(2) by metis
  have "res = (if list_all (harmless cfg) evs then None else Some Success)"
    using run_services_up [OF s0(2), of cfg evs] s0(1) by simp
  moreover have "list_all (harmless cfg) evs \<Longrightarrow> sv_replies s = dhcp_replies cfg evs \<and>
      sv_transfers s = tftp_requests evs \<and> sv_http s = http_peers evs \<and> sv_iscsi s = iscsi_peers evs"
    using run_services_out [OF s0(2) _ s0(1)] s0(3) by simp
  ultimately show ?thesis
    using replies_decided [OF assms(1)] deliverable_eq [OF assms(1)] by (auto split: if_splits)
qed

theorem services_end_exactly_when_witness:
  "let src = ([10, 0, 0, 9], 68) in \<exists>d.
    snd (run_services sample_boot (all_bound @ [TftpIn (Arrived ([0, 1], src)), DhcpIn True (Arrived (d, src, \<lambda>_. True))]) services_start) = None \<and>
    snd (run_services sample_boot (all_bound @ [DhcpIn True (Arrived (d, src, \<lambda>_. False))]) services_start) = Some Success"
proof -
  let ?src = "([10, 0, 0, 9], 68) :: sock_addr"
  obtain d0 where d0: "dhcp_encode sample_dhcp = Inr d0" "\<And>junk. dhcp_parse (d0 @ junk) = Inr sample_dhcp"
    using parse_encode [OF sample_dhcp_ok(1)] by (metis Inr_inject)
  obtain reply dest where h: "handle_datagram d0 sample_boot True ?src = Some (reply, dest)"
    using sample_dhcp_ok(3) d0(2) [of "[]"] by (simp add: handle_datagram_eq sample_plan answers_def)
  have "length d0 \<le> 2048"
    using d0(1) encode_header_fit [OF sample_dhcp_ok(1)] by (auto simp: dhcp_encode_def sample_dhcp_def MIN_LEN_def)
  then have "take 2048 d0 = d0" by simp
  then have short: "take 2048 d0 = d0" by simp
  obtain s res where run: "run_services sample_boot (all_bound @ []) services_start = (s, res)" by fastforce
  have "harmless sample_boot (DhcpIn True (Arrived (d0, ?src, f))) \<longleftrightarrow>
      (\<forall>reply dest. handle_datagram (take 2048 d0) sample_boot True ?src = Some (reply, dest) \<longrightarrow> f dest)" for f
    using services_end_exactly_when [OF sample_boot_fits run] by (elim conjE allE)
  then have handled: "harmless sample_boot (DhcpIn True (Arrived (d0, ?src, f))) \<longleftrightarrow> f dest" for f
    using h by (simp add: short del: harmless.simps split_paired_All)
  have "snd (run_services sample_boot (all_bound @ evs) services_start) =
      (if list_all (harmless sample_boot) evs then None else Some Success)" for evs
    using services_end_exactly_when [OF sample_boot_fits, of evs] by (metis prod.collapse)
  then show ?thesis
    using handled by (auto simp: Let_def simp del: harmless.simps(2) run_services.simps intro!: exI [of _ d0])
qed

end
