(* ===== verification/Config_Theorems.thy ===== *)
theory Config_Theorems
  imports Samples
begin

text \<open>
  The properties of the configuration and of the command line that reads it: what validation
  accepts, what a started server has checked, sizes with units, and the names of targets.
\<close>

text \<open>
  C29 Validation is exact: a configuration passes with no error exactly when its disk identifiers are
  distinct, every client has a well-formed, unrepeated address and disks of the right kinds, the
  default profile has too, and the boot section is usable.
\<close>

theorem validation_exact:
  "validate is_dir cfg = Inr () \<longleftrightarrow> config_ok is_dir cfg"
  using validation_errors_ok [of is_dir cfg] by (simp add: validate_def Let_def)

text \<open>
  C32 The server starts only on what it checked: when the program goes on to serve, the configuration
  it serves is valid, has a boot section, and every image of a client or of the default profile
  has been opened; no HTTP request then panics.
\<close>

theorem served_configuration_checked:
  assumes "main_cmd toml is_dir secs env args = Inr (Serving cfg boot m)"
  shows "config_ok is_dir cfg \<and> cf_boot cfg = Some boot \<and>
    (\<forall>mac c. resolve (se_lower env) m mac = Some c \<longrightarrow>
      (\<exists>s. get_store m (cc_system c) = Some s) \<and> (\<forall>g \<in> set (cc_games c). get_store m g \<noteq> None)) \<and>
    (\<forall>r req. \<exists>resp r'. http_handle (se_lower env) cfg m r req = Inr (resp, r'))"
proof -
  have s: "config_ok is_dir cfg" "cf_boot cfg = Some boot" "manager_new env cfg = Inr m"
    using serving_valid [OF assms] by blast+
  then show ?thesis using client_stores [OF s(3,1)] http_no_panic [OF s(2)] by blast
qed

theorem served_configuration_checked_witness:
  "\<exists>m. main_cmd (\<lambda>_. Some sample_cfg) (\<lambda>_. True) 0 (sample_env\<lparr>se_file := (se_file sample_env)(ascii ''xboot.toml'' \<mapsto> [])\<rparr>)
      [ascii ''xboot.toml''] = Inr (Serving sample_cfg sample_boot m) \<and>
    (\<exists>s. get_store m (ascii ''sys'') = Some s)"
proof -
  let ?env = "sample_env\<lparr>se_file := (se_file sample_env)(ascii ''xboot.toml'' \<mapsto> [])\<rparr>"
  have names: "ascii ''xboot.toml'' \<noteq> ascii ''flatten''" "ascii ''xboot.toml'' \<noteq> ascii ''dumpranges''"
    "ascii ''xboot.toml'' \<noteq> ascii ''probe''" "ascii ''disk.img'' \<noteq> ascii ''xboot.toml''"
    by simp_all
  have m: "manager_new ?env sample_cfg = Inr sample_manager"
    by (rule sample_manager_file) (use names(4) in \<open>simp add: sample_env_def del: ascii_Cons\<close>)
  have v: "validate (\<lambda>_. True) sample_cfg = Inr ()"
    using validation_errors_ok [of "\<lambda>_. True" sample_cfg] sample_cfg_ok by (simp add: validate_def Let_def)
  have "main_cmd (\<lambda>_. Some sample_cfg) (\<lambda>_. True) 0 ?env [ascii ''xboot.toml''] = Inr (Serving sample_cfg sample_boot sample_manager)"
    using m v names by (simp add: main_cmd_def start_server_def load_from_path_def read_text_def is_utf8_def del: ascii_Cons)
  moreover from served_configuration_checked [OF this]
  have "\<exists>s. get_store sample_manager (ascii ''sys'') = Some s"
    using sample_resolve by (simp add: sample_lower del: ascii_Cons)
  ultimately show ?thesis by blast
qed

text \<open>
  Clients of the default profile share one target name: any two addresses without an entry of
  their own are booted under the same name, so the target one of them is given replaces the
  other's in the registry.
\<close>

theorem default_clients_share_name:
  assumes "manager_new env cfg = Inr m" "cf_client_defaults cfg = Some d"
    and "\<forall>c \<in> set (cf_clients cfg). to_lowercase (se_lower env) (cl_mac c) \<noteq> to_lowercase (se_lower env) mac1"
    and "\<forall>c \<in> set (cf_clients cfg). to_lowercase (se_lower env) (cl_mac c) \<noteq> to_lowercase (se_lower env) mac2"
  shows "\<exists>c. resolve (se_lower env) m mac1 = Some c \<and> resolve (se_lower env) m mac2 = Some c \<and>
    client_iqn c = ascii ''iqn.2026-06.dev.xboot:'' \<and>
    (\<forall>r. registry_get (registry_insert (client_iqn c) (build_target m c (client_iqn c))
        (registry_insert (client_iqn c) (build_target m c (client_iqn c)) r)) (client_iqn c) = Some (Suc (length (reg_heap r))))"
proof -
  have "length (reg_heap (registry_insert iqn t r)) = Suc (length (reg_heap r))" for iqn t r
    by (simp add: registry_insert_def)
  then show ?thesis using defaults_share_name [OF assms] by (simp add: registry_get_insert del: ascii_Cons)
qed

theorem default_clients_share_name_witness:
  "\<exists>c. resolve id sample_manager (ascii ''02:00:00:00:00:05'') = Some c \<and>
    resolve id sample_manager (ascii ''02:00:00:00:00:06'') = Some c \<and> client_iqn c = ascii ''iqn.2026-06.dev.xboot:''"
  using default_clients_share_name [OF sample_manager_new, of _ "ascii ''02:00:00:00:00:05''" "ascii ''02:00:00:00:00:06''"]
  by (auto simp del: ascii_Cons)

end
