(* ===== verification/Fuzz.thy ===== *)
theory Fuzz
  imports Image_Safety Dhcp Tftp Iscsi_Pdu
begin

text \<open>
  The fuzz targets (\<open>fuzz/fuzz_targets\<close>) and what they look for. The decoders of the other theories
  take parts of their input with \<open>window\<close>, which cannot fail; here each is written once more with the
  code's own indices and ranges, where one outside the input panics, and shown to be the same function.
\<close>

section \<open>Indexing that can panic\<close>

definition index_at :: "bytes \<Rightarrow> nat \<Rightarrow> u8 io" where
  "index_at buf i = (if i < length buf then Inr (buf ! i) else Inl Panicked)"

definition slice :: "bytes \<Rightarrow> nat \<Rightarrow> nat \<Rightarrow> bytes io" where
  "slice buf a b = (if a \<le> b \<and> b \<le> length buf then Inr (window a (b - a) buf) else Inl Panicked)"

definition word_at :: "nat \<Rightarrow> bytes \<Rightarrow> nat \<Rightarrow> nat io" where
  "word_at n buf a = map_sum id be_val (slice buf a (a + n))"

lemma in_range [simp]:
  "i < length buf \<Longrightarrow> index_at buf i = Inr (buf ! i)"
  "a \<le> b \<Longrightarrow> b \<le> length buf \<Longrightarrow> slice buf a b = Inr (window a (b - a) buf)"
  "a + n \<le> length buf \<Longrightarrow> word_at n buf a = Inr (be_val (window a n buf))"
  by (simp_all add: index_at_def slice_def word_at_def)

section \<open>DHCP\<close>

text \<open>\<open>parse_options\<close> as the code runs it: an index that moves over the buffer.\<close>

function options_at :: "bytes \<Rightarrow> nat \<Rightarrow> (dhcp_parse_error + dhcp_option list) io" where
  "options_at buf i =
     (if length buf \<le> i then Inr (Inr [])
      else case index_at buf i of Inl e \<Rightarrow> Inl e
      | Inr code \<Rightarrow>
          if code = 0 then options_at buf (i + 1)
          else if code = 255 then Inr (Inr [])
          else if length buf \<le> i + 1 then Inr (Inl (TruncatedOption code))
          else case index_at buf (i + 1) of Inl e \<Rightarrow> Inl e
          | Inr len \<Rightarrow>
              let start = i + 2; end_pos = start + unat len in
              if length buf < end_pos then Inr (Inl (TruncatedOption code))
              else case slice buf start end_pos of Inl e \<Rightarrow> Inl e
              | Inr d \<Rightarrow> map_sum id (map_sum id ((#) \<lparr>op_code = code, op_data = d\<rparr>)) (options_at buf end_pos))"
  by pat_completeness auto
termination
  by (relation "measure (\<lambda>(buf, i). length buf - i)") auto

declare options_at.simps [simp del]

lemma options_at_eq: "options_at buf i = Inr (parse_options (drop i buf))"
proof (induction buf i rule: options_at.induct)
  case (1 buf i)
  show ?case
  proof (cases "length buf \<le> i")
    case True
    then show ?thesis by (simp add: options_at.simps [of buf i])
  next
    case False
    then have i: "drop i buf = buf ! i # drop (i + 1) buf" "index_at buf i = Inr (buf ! i)"
      by (simp_all add: Cons_nth_drop_Suc)
    show ?thesis
    proof (cases "buf ! i = 0 \<or> buf ! i = 255 \<or> length buf \<le> i + 1")
      case True
      then show ?thesis using False i 1(1) [OF False i(2)] by (auto simp: options_at.simps [of buf i])
    next
      case more: False
      let ?len = "buf ! (i + 1)" and ?stop = "i + 2 + unat (buf ! (i + 1))"
      have body: "drop (i + 1) buf = ?len # drop (i + 2) buf" "index_at buf (i + 1) = Inr ?len"
        using more by (simp_all add: Cons_nth_drop_Suc)
      show ?thesis
      proof (cases "length buf < ?stop")
        case True
        then have "length buf - (i + 2) < unat ?len" using more by linarith
        then show ?thesis using True False more i body by (simp add: options_at.simps [of buf i] Let_def)
      next
        case inside: False
        then have "\<not> length buf - (i + 2) < unat ?len" by linarith
        from inside have s: "slice buf (i + 2) ?stop = Inr (window (i + 2) (unat ?len) buf)" by simp
        have "options_at buf ?stop = Inr (parse_options (drop ?stop buf))"
          by (rule 1(2) [OF False i(2) _ _ _ body(2) refl refl _ s]) (use more inside in auto)
        then show ?thesis
          using \<open>\<not> length buf - (i + 2) < unat ?len\<close> False more inside i body s
          by (simp add: options_at.simps [of buf i] Let_def window_def add.commute split: sum.split)
      qed
    qed
  qed
qed

definition dhcp_parse_at :: "bytes \<Rightarrow> (dhcp_parse_error + dhcp_message) io" where
  "dhcp_parse_at buf =
     (if length buf < MIN_LEN then Inr (Inl (dhcp_parse_error.TooShort (length buf)))
      else case slice buf COOKIE_OFFSET MIN_LEN of Inl e \<Rightarrow> Inl e
      | Inr cookie \<Rightarrow>
          if cookie \<noteq> MAGIC_COOKIE then Inr (Inl BadCookie)
          else case (index_at buf 0, index_at buf 1, index_at buf 2, index_at buf 3, word_at 4 buf 4, word_at 2 buf 8,
              word_at 2 buf 10, slice buf 12 16, slice buf 16 20, slice buf 20 24, slice buf 24 28, slice buf 28 44,
              slice buf MIN_LEN (length buf)) of
            (Inr op, Inr htype, Inr hlen, Inr hops, Inr xid, Inr secs, Inr flags, Inr ci, Inr yi, Inr si, Inr gi, Inr ch, Inr rest) \<Rightarrow>
              map_sum id (map_sum id (\<lambda>opts. \<lparr>dm_op = op, dm_htype = htype, dm_hlen = hlen, dm_hops = hops,
                dm_xid = of_nat xid, dm_secs = of_nat secs, dm_flags = of_nat flags, dm_ciaddr = ci, dm_yiaddr = yi,
                dm_siaddr = si, dm_giaddr = gi, dm_chaddr = ch, dm_options = opts\<rparr>)) (options_at rest 0)
          | _ \<Rightarrow> Inl Panicked)"

lemma dhcp_parse_at_eq: "dhcp_parse_at buf = Inr (dhcp_parse buf)"
proof (cases "length buf < MIN_LEN")
  case False
  then have "240 \<le> length buf" by (simp add: MIN_LEN_def)
  then have "index_at buf 0 = Inr (buf ! 0)" "index_at buf 1 = Inr (buf ! 1)" "index_at buf 2 = Inr (buf ! 2)"
    "index_at buf 3 = Inr (buf ! 3)" by (intro in_range(1); linarith)+
  then show ?thesis using \<open>240 \<le> length buf\<close>
    by (simp add: dhcp_parse_at_def dhcp_parse_def options_at_eq MIN_LEN_def COOKIE_OFFSET_def be32_def be16_def
        window_def del: One_nat_def split: sum.split)
qed (simp add: dhcp_parse_at_def dhcp_parse_def)

section \<open>TFTP\<close>

definition cstr_at :: "bytes \<Rightarrow> nat \<Rightarrow> (tftp_parse_error + rstr \<times> nat) io" where
  "cstr_at buf pos =
     (case slice buf pos (length buf) of Inl e \<Rightarrow> Inl e
      | Inr tail \<Rightarrow>
          (case position (\<lambda>b. b = 0) tail of
             None \<Rightarrow> Inr (Inl MissingNull)
           | Some e \<Rightarrow>
               let abs_end = pos + e in
               case slice buf pos abs_end of Inl err \<Rightarrow> Inl err
               | Inr raw \<Rightarrow>
                   let s = from_utf8_lossy raw in
                   Inr (if s = [] then Inl EmptyField else Inr (s, abs_end + 1))))"

lemma cstr_at_eq: "pos \<le> length buf \<Longrightarrow> cstr_at buf pos = Inr (read_cstr buf pos)"
proof -
  assume "pos \<le> length buf"
  moreover have "pos + e \<le> length buf" if "position (\<lambda>b. b = 0) (drop pos buf) = Some e" for e
    using that by (auto simp: position_Some)
  ultimately show ?thesis
    by (simp add: cstr_at_def read_cstr_def Let_def window_def split: option.split)
qed

lemma cstr_at_pos: "cstr_at buf pos = Inr (Inr (s, p)) \<Longrightarrow> pos < p \<and> p \<le> length buf"
  by (auto simp: cstr_at_def slice_def Let_def position_Some split: option.splits if_splits)

function options_pairs_at :: "(rstr \<Rightarrow> rstr) \<Rightarrow> bytes \<Rightarrow> nat \<Rightarrow> (tftp_parse_error + (rstr \<times> rstr) list) io" where
  "options_pairs_at uni tail pos =
     (if pos < length tail then
        (case cstr_at tail pos of
           Inl e \<Rightarrow> Inl e
         | Inr (Inl e) \<Rightarrow> Inr (Inl e)
         | Inr (Inr (key, p1)) \<Rightarrow>
             if length tail \<le> p1 then Inr (Inr [])
             else (case cstr_at tail p1 of
                Inl e \<Rightarrow> Inl e
              | Inr (Inl e) \<Rightarrow> Inr (Inl e)
              | Inr (Inr (val, p2)) \<Rightarrow>
                  map_sum id (map_sum id ((#) (to_lowercase uni key, val))) (options_pairs_at uni tail p2)))
      else Inr (Inr []))"
  by pat_completeness auto
termination
  by (relation "measure (\<lambda>(uni, tail, pos). length tail - pos)")
    (auto dest!: sym [of _ "cstr_at _ _"] cstr_at_pos)

declare options_pairs_at.simps [simp del]

lemma options_pairs_at_eq: "options_pairs_at uni tail pos = Inr (rq_options uni tail pos)"
proof (induction uni tail pos rule: rq_options.induct)
  case (1 uni tail pos)
  show ?case
  proof (cases "pos < length tail")
    case True
    then have first: "cstr_at tail pos = Inr (read_cstr tail pos)" by (simp add: cstr_at_eq)
    show ?thesis
    proof (cases "read_cstr tail pos")
      case (Inl e)
      then show ?thesis using True first by (simp add: options_pairs_at.simps [of uni tail pos] rq_options.simps [of uni tail pos])
    next
      case (Inr kp)
      obtain key p1 where kp: "read_cstr tail pos = Inr (key, p1)" using Inr by (cases kp) simp
      then have second: "cstr_at tail p1 = Inr (read_cstr tail p1)" using read_cstr_pos [OF kp] by (simp add: cstr_at_eq)
      have "options_pairs_at uni tail p2 = Inr (rq_options uni tail p2)"
        if "\<not> length tail \<le> p1" "read_cstr tail p1 = Inr (val, p2)" for val p2
        by (rule 1 [OF True kp refl that(1) that(2) refl])
      then show ?thesis using True first kp second
        by (auto simp: options_pairs_at.simps [of uni tail pos] rq_options.simps [of uni tail pos] split: sum.split prod.split)
    qed
  qed (simp add: options_pairs_at.simps [of uni tail pos] rq_options.simps [of uni tail pos])
qed

definition rq_at :: "(rstr \<Rightarrow> rstr) \<Rightarrow> u16 \<Rightarrow> bytes \<Rightarrow> (tftp_parse_error + tftp_packet) io" where
  "rq_at uni opcode tail =
     (case cstr_at tail 0 of
        Inl e \<Rightarrow> Inl e
      | Inr (Inl e) \<Rightarrow> Inr (Inl e)
      | Inr (Inr (filename, p1)) \<Rightarrow>
          (case cstr_at tail p1 of
             Inl e \<Rightarrow> Inl e
           | Inr (Inl e) \<Rightarrow> Inr (Inl e)
           | Inr (Inr (mode, p2)) \<Rightarrow>
               if opcode = OP_WRQ then Inr (Inr (Wrq filename mode))
               else map_sum id (map_sum id (Rrq filename mode)) (options_pairs_at uni tail p2)))"

definition ack_at :: "bytes \<Rightarrow> (tftp_parse_error + tftp_packet) io" where
  "ack_at tail =
     (if length tail \<noteq> 2 then Inr (Inl (BadAckLength (length tail + 2)))
      else map_sum id (\<lambda>block. Inr (Ack (of_nat block))) (word_at 2 tail 0))"

definition error_at :: "bytes \<Rightarrow> (tftp_parse_error + tftp_packet) io" where
  "error_at tail =
     (if length tail < 3 then Inr (Inl tftp_parse_error.TooShort)
      else case word_at 2 tail 0 of Inl e \<Rightarrow> Inl e
      | Inr code \<Rightarrow> map_sum id (\<lambda>message. Inr (Error (of_nat code) (from_utf8_lossy message)))
          (slice tail 2 (length tail - 1)))"

definition tftp_parse_at :: "(rstr \<Rightarrow> rstr) \<Rightarrow> bytes \<Rightarrow> (tftp_parse_error + tftp_packet) io" where
  "tftp_parse_at uni buf =
     (if length buf < 2 then Inr (Inl tftp_parse_error.TooShort)
      else case word_at 2 buf 0 of Inl e \<Rightarrow> Inl e
      | Inr op \<Rightarrow>
          let opcode = of_nat op in
          case slice buf 2 (length buf) of Inl e \<Rightarrow> Inl e
          | Inr tail \<Rightarrow>
              if opcode = OP_RRQ \<or> opcode = OP_WRQ then rq_at uni opcode tail
              else if opcode = OP_ACK then ack_at tail
              else if opcode = OP_ERROR then error_at tail
              else Inr (Inl (UnknownOpcode opcode)))"

lemma rq_at_eq: "rq_at uni opcode tail = Inr (parse_rq uni opcode tail)"
proof (cases "read_cstr tail 0")
  case (Inr kp)
  obtain name p1 where name: "read_cstr tail 0 = Inr (name, p1)" using Inr by (cases kp) simp
  then have "cstr_at tail p1 = Inr (read_cstr tail p1)" using read_cstr_pos [OF name] by (simp add: cstr_at_eq)
  then show ?thesis using name
    by (auto simp: rq_at_def parse_rq_def cstr_at_eq options_pairs_at_eq split: sum.split prod.split)
qed (simp add: rq_at_def parse_rq_def cstr_at_eq)

lemma tftp_parse_at_eq: "tftp_parse_at uni buf = Inr (tftp_parse uni buf)"
  by (simp add: tftp_parse_at_def tftp_parse_def rq_at_eq ack_at_def parse_ack_def error_at_def parse_error_def
      be16_def Let_def window_def numeral_2_eq_2)

section \<open>iSCSI\<close>

text \<open>The fields of the header lie inside it: bytes after it change nothing.\<close>

lemma decode_request_header: "length h = BHS_LEN \<Longrightarrow> decode_request (h @ after) d = decode_request h d"
  by (simp add: decode_request_def BHS_LEN_def Let_def be16_def be32_def be64_def window_append1 nth_append)

definition pair_at :: "bytes \<Rightarrow> (rstr \<times> rstr) option io" where
  "pair_at chunk =
     (if chunk = [] then Inr None
      else case position (\<lambda>b. b = 61) chunk of
        None \<Rightarrow> Inr None
      | Some eq \<Rightarrow>
          (case slice chunk 0 eq of Inl e \<Rightarrow> Inl e
           | Inr key \<Rightarrow>
               if key = [] then Inr None
               else map_sum id (\<lambda>val. Some (from_utf8_lossy key, from_utf8_lossy val)) (slice chunk (eq + 1) (length chunk))))"

lemma pair_at_eq: "pair_at chunk = Inr (parse_pair chunk)"
proof (cases "position (\<lambda>b. b = 61) chunk")
  case (Some eq)
  then have "eq < length chunk" by (simp add: position_Some)
  then show ?thesis using Some by (simp add: pair_at_def parse_pair_def Let_def window_def)
qed (simp add: pair_at_def parse_pair_def)

definition decode_at :: "bytes \<Rightarrow> (pdu_error + request \<times> nat) io" where
  "decode_at buf =
     (if length buf < BHS_LEN then Inr (Inl ShortHeader)
      else case slice buf 0 BHS_LEN of Inl e \<Rightarrow> Inl e
      | Inr h \<Rightarrow>
          (case index_at h 4 of Inl e \<Rightarrow> Inl e
           | Inr ahs \<Rightarrow>
               if ahs \<noteq> 0 then Inr (Inl UnexpectedAhs)
               else case word_at 3 h 5 of Inl e \<Rightarrow> Inl e
               | Inr data_len \<Rightarrow>
                   if MAX_DATA_SEGMENT < data_len then Inr (Inl DataSegmentTooLong)
                   else
                     let total = BHS_LEN + data_len + pad4 data_len in
                     if length buf < total then Inr (Inl ShortData)
                     else map_sum id (\<lambda>d. Inr (decode_request h d, total)) (slice buf BHS_LEN (BHS_LEN + data_len))))"

lemma decode_at_eq: "decode_at buf = Inr (decode buf)"
proof (cases "length buf < BHS_LEN")
  case False
  then have "index_at (take BHS_LEN buf) 4 = Inr (take BHS_LEN buf ! 4)" by (intro in_range(1)) (simp add: BHS_LEN_def)
  moreover have "word_at 3 (take BHS_LEN buf) 5 = Inr (be24 (take BHS_LEN buf) 5)"
    using False by (simp add: be24_def BHS_LEN_def)
  ultimately show ?thesis using False by (simp add: decode_at_def decode_def window_def Let_def)
qed (simp add: decode_at_def decode_def)

section \<open>VHD footer\<close>

definition footer_at :: "bytes \<Rightarrow> vhd_footer io" where
  "footer_at bytes =
     (if length bytes < 512 then Inl InvalidData
      else case slice bytes 0 512 of Inl e \<Rightarrow> Inl e
      | Inr f \<Rightarrow>
          (case (slice f 0 8, word_at 4 f 64, word_at 8 f 16, word_at 8 f 48, word_at 4 f 60) of
             (Inr cookie, Inr stored, Inr data_offset, Inr current_size, Inr disk_type) \<Rightarrow>
               if cookie \<noteq> ascii ''conectix'' then Inl InvalidData
               else if checksum f 64 68 \<noteq> of_nat stored then Inl InvalidData
               else Inr \<lparr>vf_data_offset = data_offset, vf_current_size = current_size, vf_disk_type = of_nat disk_type\<rparr>
           | _ \<Rightarrow> Inl Panicked))"

lemma footer_at_eq: "footer_at bytes = footer_parse bytes"
  by (simp add: footer_at_def footer_parse_def be_u32_def Let_def del: ascii_Cons)

section \<open>The targets\<close>

text \<open>\<open>let _ = \<dots>\<close>: an error value is dropped, a panic or a loop is not.\<close>

definition ignore :: "'a io \<Rightarrow> unit io" where
  "ignore r = (if r = Inl Panicked then Inl Panicked else if r = Inl Diverged then Inl Diverged else Inr ())"

definition fuzz_dhcp_decode :: "bytes \<Rightarrow> unit io" where
  "fuzz_dhcp_decode d = ignore (dhcp_parse_at d)"

definition fuzz_tftp_decode :: "(rstr \<Rightarrow> rstr) \<Rightarrow> bytes \<Rightarrow> unit io" where
  "fuzz_tftp_decode uni d = ignore (tftp_parse_at uni d)"

definition fuzz_iscsi_pdu :: "bytes \<Rightarrow> unit io" where
  "fuzz_iscsi_pdu d = ignore (decode_at d)"

definition fuzz_vhd_footer :: "bytes \<Rightarrow> unit io" where
  "fuzz_vhd_footer d = ignore (footer_at d)"

text \<open>The path of the temporary file, when it could be created and written.\<close>

definition fuzz_open_backing :: "storage_env \<Rightarrow> rstr option \<Rightarrow> bytes \<Rightarrow> unit io" where
  "fuzz_open_backing env temp d =
     (case temp of None \<Rightarrow> Inr ()
      | Some path \<Rightarrow> ignore (open_backing (env\<lparr>se_file := (se_file env)(path \<mapsto> d)\<rparr>) path))"

lemma ignore_calm: "ignore r = Inr () \<longleftrightarrow> calm r"
  by (simp add: ignore_def calm_def)

lemma fuzz_targets_pass:
  "fuzz_dhcp_decode d = Inr () \<and> fuzz_tftp_decode uni d = Inr () \<and> fuzz_iscsi_pdu d = Inr () \<and>
    fuzz_vhd_footer d = Inr () \<and> fuzz_open_backing env temp d = Inr ()"
  by (simp add: fuzz_dhcp_decode_def fuzz_tftp_decode_def fuzz_iscsi_pdu_def fuzz_vhd_footer_def fuzz_open_backing_def
      ignore_calm dhcp_parse_at_eq tftp_parse_at_eq decode_at_eq footer_at_eq calm_footer calm_open_backing split: option.split)

end
