(* ===== verification/Spec2Isabelle.thy ===== *)
theory Spec2Isabelle
  imports Interleaved Disk_Theorems Iscsi_Theorems Net_Theorems Config_Theorems Fuzz
begin

text \<open>
  XBoot boots diskless clients: a proxyDHCP server points their firmware at a boot loader, a TFTP
  server delivers it, an HTTP server answers with an iPXE script, and an iSCSI target serves each
  client a disk made of a shared read-only image under a volatile overlay of its own. This library
  models the crates \<open>xboot-core\<close> and \<open>xboot\<close> and proves what makes them correct.

  The parts, bottom up, with the theory that holds each one.

  \<^item> \<open>Prelude\<close>, \<open>Rust_Str\<close>: 64-bit limits and checked arithmetic, slices of a buffer (\<open>window\<close>, \<open>put\<close>),
    big- and little-endian fields, and the string functions of the Rust standard library that the code
    uses. Results are sums, with \<open>Panicked\<close> for a panic and \<open>Diverged\<close> for a loop that does not end.

  \<^item> \<open>Storage\<close> (\<open>storage/mod.rs\<close>, \<open>file_ext.rs\<close>, \<open>blockmap.rs\<close>, \<open>raw.rs\<close>): the trait \<open>BackingStore\<close> as the locale
    \<open>backing_store\<close>, which every reader below interprets, and boxed stores as the type \<open>backing\<close>. \<open>Positioned\<close>
    shows that the Windows loop of \<open>file_ext.rs\<close>, over the locale \<open>positioned_file\<close>, is the same reading of files.

  \<^item> \<open>Vhd_Footer\<close>, \<open>Vhd_Dynamic\<close>, \<open>Vhd_Chain\<close>, \<open>Vhd_Write\<close>, \<open>Vhdx\<close>, \<open>Backing\<close> (\<open>storage/vhd/\<close>,
    \<open>storage/vhdx/\<close>, \<open>storage/mod.rs\<close>): the image formats, the increment chain, the writer behind \<open>flatten\<close>, and
    the choice of a reader for a file. \<open>Vhdx_Image\<close> (\<open>storage/vhdx/fixtures.rs\<close>) is the builder of VHDX
    images, read back byte for byte; \<open>Vhd_Image\<close> (\<open>storage/vhd/fixtures.rs\<close>) builds fixed, dynamic and
    differential VHDs, and \<open>Vhd_Layers\<close> reads a base and its increments back by the layering rule of the code, which
    is not the one its documents give; \<open>Image_Safety\<close> shows what damaged files can and cannot do.

  \<^item> \<open>Volume\<close>, \<open>Volume_Ops\<close> (\<open>volume/\<close>): the copy-on-write volume, as the locales \<open>overlay_store\<close> and
    \<open>writable_disk\<close>; sequences of operations against a flat array, and writers that interleave.

  \<^item> \<open>Cache\<close> (\<open>cache/mod.rs\<close>): the block cache over an LRU map, a parameter with laws.

  \<^item> \<open>Iscsi_Pdu\<close>, \<open>Scsi\<close>, \<open>Luns\<close>, \<open>Session\<close>, \<open>Session_Props\<close>, \<open>Session_Data\<close>, \<open>Transport\<close>,
    \<open>Link\<close>, \<open>Replies\<close> (\<open>iscsi/\<close>): the PDU codec, SCSI commands on logical units, the connection's state machine, its
    invariant and numbering, data transfers, the framing of the TCP stream, and the life of a
    connection whose reads and writes can fail; which replies are complete frames. \<open>Luns\<close> compares REPORT
    LUNS with the addresses commands reach, \<open>Session_Stages\<close> follows the stages of whole sessions, and \<open>Testkit\<close>
    (\<open>testkit.rs\<close>) drives one with the PDUs of the integration test. \<open>Command_Limits\<close> shows what the session
    makes of the lengths and of the command window an initiator works with.

  \<^item> \<open>Config\<close> (\<open>config/\<close>), \<open>Boot\<close> (\<open>manager/mod.rs\<close>, \<open>net/http/mod.rs\<close>), \<open>Dhcp\<close> (\<open>net/dhcp/\<close>), \<open>Tftp\<close>
    (\<open>net/tftp/\<close>), \<open>System\<close> (the HTTP server and the connections over one registry of targets), \<open>Cli\<close>
    (the commands of \<open>main.rs\<close>), \<open>Services\<close> (the \<open>serve\<close> loops of the four services, as the locale \<open>service\<close>,
    and the \<open>select\<close> of \<open>main\<close> over them).

  \<^item> \<open>Power_On\<close>: a client from its first DHCP request over the boot file to its script.

  \<^item> \<open>Server\<close>: all of it running together, the service loops with one task and one receive buffer per
    connection over the shared registry, a PDU at a time; it refines the world of \<open>System\<close>.

  \<^item> \<open>Sections\<close>, \<open>Interleaved\<close>: the same at the grain of the locks. The code holds none over a command; a
    command is the sequence of critical sections of the overlay's lock it runs through (\<open>execute_sections\<close> for
    \<open>execute\<close>, down to \<open>read_at\<close> and \<open>write_at\<close> of \<open>volume/mod.rs\<close>), and anything else the server does may
    happen in between. While no two tasks are inside commands of one target, that is simulated by \<open>Server\<close>,
    whose steps are whole PDUs. What the levels need of runs is in \<open>Runs\<close>: the locales \<open>labelled_runs\<close>,
    \<open>stuttering_simulation\<close> and \<open>stuttering_refinement\<close>, interpreted on them.

  \<^item> \<open>Fuzz\<close> (\<open>fuzz/fuzz_targets\<close>): the decoders with the code's own indices and ranges, where one outside the
    input panics, and the targets that run them.

  \<^item> \<open>Samples\<close> holds concrete states; \<open>Disk_Theorems\<close>, \<open>Iscsi_Theorems\<close>, \<open>Net_Theorems\<close>, \<open>Config_Theorems\<close> and
    this theory hold the properties, each with an application to those states.

  How the state of the code appears. A struct is a record and an enum a datatype with the same
  fields and constructors. Values the code shares behind \<open>Arc\<close> and a lock (volumes, the registry
  of targets) are passed and returned; the registry keeps targets in a heap indexed by number, so that
  a connection still holds the target it logged in to when its name is registered again. \<open>u64\<close>
  offsets are natural numbers with the overflow checks of the code written out, PDU fields and
  sequence numbers are words of their width. A checked build is assumed: integer overflow panics.

  What is a parameter: the file system (\<open>storage_env\<close>, \<open>tftp_fs\<close>), the parser of TOML, Unicode lowercasing
  outside ASCII, the clock, the LRU map of the crate \<open>lru\<close>. The laws of the LRU map are the locale \<open>lru_map\<close>,
  and hold of the list instance.

  Bounds. Recursions are structural or have a measure, except three. \<open>evict\<close> takes one unit of fuel per
  entry, which \<open>insert_evicts_least_recent\<close> shows is enough. \<open>cached_read_loop\<close> takes the number of
  iterations allowed: the length of the read is enough inside the disk, and past
  its end no number is (\<open>cached_reads_exact_or_stuck\<close>). \<open>drive_write\<close> plays the initiator for at most one
  turn per byte, which \<open>written_data_reads_back\<close> shows is enough. \<open>write_dynamic_vhd\<close> is shown to
  succeed up to 2040 GiB, the limit of the format.

  What the outside does is an event or a parameter: what a socket brings or that it fails, whether a
  write or a reply goes through, that time passes. A spawned task has no way back to its service.

  The grain of the steps. In \<open>System\<close> and \<open>Server\<close> a step is a whole request, so the properties over their runs
  (C1, C2, C5 and all on one connection) hold of the running program where \<open>Interleaved\<close> says it behaves so:
  while two connections are not inside commands of one target at once. Two that are can lose an update
  (\<open>writers_of_distinct_blocks\<close>, in \<open>Volume_Ops\<close>). A boot request touches the registry once, under its lock.

  Not modelled: the scheduler of the runtime (any enabled step may come next), the HTTP framing of hyper, what ends a
  task when \<open>main\<close> returns, log lines and the counters only they read, the layout of the probe
  report, the derivations of serde and Display, the unused trait \<open>NetIo\<close>.
\<close>

section \<open>From power-on to the disk\<close>

text \<open>
  C1 A client boots its own image: in any state of the server, the boot script request of a client
  is answered 200 and registers a target for it; after any further activity that does not touch
  that target, a login with the target's name succeeds while the name is still the client's, and
  a READ then returns the bytes of the image the configuration names for the client.
\<close>

theorem client_boots_its_image:
  assumes "manager_new env cfg = Inr m" "config_ok is_dir cfg" "images_ok m" "world_inv m w"
    and "boot_request mac req" "resolve (se_lower env) m mac = Some c" "cf_boot cfg = Some b"
    and "sc_lun rd = 0"
    and "find (\<lambda>kv. fst kv = ascii ''TargetName'') (lq_text q) = Some (ascii ''TargetName'', client_iqn c)"
      "lq_transit q" "lq_nsg q = 3"
    and "sc_read rd" "\<not> sc_write rd" "is_read_op (sc_cdb rd ! 0)" "rw_extent (sc_cdb rd) = (lba, blocks)"
    and "0 < blocks" "blocks < 2 ^ 23"
  shows "\<exists>image resp r1. get_store m (cc_system c) = Some image \<and>
    http_handle (se_lower env) cfg m (wd_registry w) req = Inr (resp, r1) \<and> hr_status resp = 200 \<and>
    (\<forall>es w2. run_without (se_lower env) cfg m (length (reg_heap (wd_registry w))) es (w\<lparr>wd_registry := r1\<rparr>) w2 \<longrightarrow>
      registry_get (wd_registry w2) (client_iqn c) = Some (length (reg_heap (wd_registry w))) \<longrightarrow>
      (lba + blocks) * 512 \<le> bs_size image \<longrightarrow>
      (\<exists>c1 p c2 outs. handle (wd_registry w2) connection_new (Login q) bhs = Inr (wd_registry w2, c1, [LoginOut p]) \<and>
         lr_status_class p = 0 \<and>
         handle (wd_registry w2) c1 (ScsiCommand rd) bhs' = Inr (wd_registry w2, c2, outs) \<and>
         fold place outs (zeros (blocks * 512)) = window (lba * 512) (blocks * 512) (disk_bytes image)))"
  by (rule boot_login_read [OF assms])

theorem client_boots_its_image_witness:
  "\<exists>resp r1 c1 p c2 outs. http_handle id sample_cfg sample_manager registry_new sample_request = Inr (resp, r1) \<and>
    hr_status resp = 200 \<and> handle r1 connection_new (Login sample_login) [] = Inr (r1, c1, [LoginOut p]) \<and>
    handle r1 c1 (ScsiCommand sample_read) [] = Inr (r1, c2, outs) \<and> fold place outs (zeros 512) = replicate 512 7"
proof -
  let ?c = "\<lparr>cc_mac = [], cc_name = None, cc_system = ascii ''sys'', cc_games = [], cc_writeback = ascii ''wb''\<rparr>"
  let ?mac = "ascii ''02:00:00:00:00:05''"
  have q: "find (\<lambda>kv. fst kv = ascii ''TargetName'') (lq_text sample_login) = Some (ascii ''TargetName'', client_iqn ?c)"
    "lq_transit sample_login" "lq_nsg sample_login = 3"
    by (simp_all add: sample_login_def client_iqn_def)
  have res: "resolve (se_lower sample_env) sample_manager ?mac = Some ?c"
    by (simp add: sample_resolve del: ascii_Cons)
  have "(3 + 1) * 512 \<le> bs_size sample_store" "get_store sample_manager (ascii ''sys'') = Some sample_store"
    by (simp_all add: get_store_def sample_manager_def del: ascii_Cons)
  moreover have reg: "registry_get r1 (client_iqn ?c) = Some 0"
    if "http_handle id sample_cfg sample_manager registry_new sample_request = Inr (resp, r1)" for resp r1
    using http_boot [OF sample_boot_request res sample_cfg_sel(1), of registry_new] that
    by (auto simp: registry_get_insert simp del: ascii_Cons) (simp add: registry_new_def)
  moreover have data: "window (3 * 512) (1 * 512) sample_file = replicate 512 7"
    by (simp add: sample_file_def window_replicate)
  ultimately show ?thesis
    using client_boots_its_image [OF sample_manager_new sample_cfg_ok sample_images world_inv_start sample_boot_request res
        sample_cfg_sel(1) sample_read_ok(5) q sample_read_ok(1-4), of "[]" "[]"]
    by (auto simp: world_start_def registry_new_def simp del: ascii_Cons dest!: spec [of _ "[]"])
qed

text \<open>
  C2 Clients are isolated: however many boot requests, connections and iSCSI requests are served,
  as long as none is a request on a connection bound to a target, that target, its overlays and
  its images stay exactly as they were, even when its name is registered again.
\<close>

theorem other_clients_leave_target_alone:
  assumes "run_without uni cfg m j es w w'" "j < length (reg_heap (wd_registry w))" "world_inv m w" "images_ok m"
  shows "reg_heap (wd_registry w') ! j = reg_heap (wd_registry w) ! j \<and> world_inv m w' \<and>
    j < length (reg_heap (wd_registry w'))"
  by (rule run_isolated [OF assms])

theorem other_clients_leave_target_alone_witness:
  "\<exists>w'. run_without id sample_cfg sample_manager 0 [Accept, Http sample_request]
      \<lparr>wd_registry = sample_registry, wd_conns = []\<rparr> w' \<and> reg_heap (wd_registry w') ! 0 = sample_target"
proof -
  let ?w = "\<lparr>wd_registry = sample_registry, wd_conns = []\<rparr>"
  have "from_images sample_manager sample_target"
    by (auto simp: from_images_def target_masters_def sample_target_def sample_unit_def fresh_unit_def lu_new_def vol_new_def
        get_store_def sample_manager_def)
  moreover have "sector_blocks sample_target"
    by (simp add: sector_blocks_def sample_target_def sample_unit_def fresh_unit_def lu_new_def)
  ultimately have inv: "world_inv sample_manager ?w"
    using sample_registry_ok(1,3) by (simp add: world_inv_def sample_registry_def registry_insert_def registry_new_def)
  obtain resp r' where "http_handle id sample_cfg sample_manager sample_registry sample_request = Inr (resp, r')"
    using http_boot [OF sample_boot_request sample_resolve sample_cfg_sel(1)] by blast
  then have "run_without id sample_cfg sample_manager 0 [Accept, Http sample_request] ?w
      \<lparr>wd_registry = r', wd_conns = [connection_new]\<rparr>"
    by (simp add: world_step_simps)
  from this other_clients_leave_target_alone [OF this _ inv sample_images] show ?thesis by auto
qed

text \<open>
  C5 Images are never replaced: in every reachable state of the server, every target is in its
  invariant, every unit of every target still stands on an image the configuration opened, and
  handling one more request leaves each unit on the image it had.
\<close>

theorem targets_stay_on_their_images:
  assumes "world_run uni cfg m es world_start w" "images_ok m"
  shows "(\<forall>t \<in> set (reg_heap (wd_registry w)). target_inv t \<and>
      (\<forall>b. Some b \<in> set (target_masters t) \<longrightarrow> (\<exists>i. get_store m i = Some b))) \<and>
    (\<forall>c \<in> set (wd_conns w). \<forall>q bhs r' c' outs. handle (wd_registry w) c q bhs = Inr (r', c', outs) \<longrightarrow>
      map target_masters (reg_heap r') = map target_masters (reg_heap (wd_registry w)))"
proof -
  have "world_inv m w" by (rule world_run_inv [OF assms(1) world_inv_start assms(2)])
  then show ?thesis
    using handle_masters by (auto simp: world_inv_def registry_inv_def from_images_def list_all_iff)
qed

theorem targets_stay_on_their_images_witness:
  "\<exists>w. world_run id sample_cfg sample_manager [Http sample_request, Accept] world_start w \<and>
    length (reg_heap (wd_registry w)) = 1 \<and> (\<forall>t \<in> set (reg_heap (wd_registry w)). target_inv t)"
proof -
  obtain resp r' where h: "http_handle id sample_cfg sample_manager registry_new sample_request = Inr (resp, r')"
    "length (reg_heap r') = 1"
    using http_boot [OF sample_boot_request sample_resolve sample_cfg_sel(1), of registry_new]
    by (auto simp: registry_insert_def registry_new_def)
  then have run: "world_run id sample_cfg sample_manager [Http sample_request, Accept] world_start
      \<lparr>wd_registry = r', wd_conns = [connection_new]\<rparr>"
    by (simp add: world_step_simps world_start_def)
  from run targets_stay_on_their_images [OF run sample_images] h(2) show ?thesis by auto
qed

text \<open>
  C6 Tasks overlap inside commands without its showing, as long as no two of them are inside commands of one
  target. At the grain of the overlay's lock, where a task goes through its command section by section and
  anything may happen in between, every run in which that holds is matched by a run of whole PDUs, and so
  by one of boot requests and iSCSI requests: same connections, same bytes sent, same names,
  and the same targets but for those somebody is working on. Conversely every run of whole PDUs is
  such a run. And however commands overlap, there is one task per accepted connection, a receive buffer
  holds at most one incomplete PDU and one read, and a task whose connection is closing or whose link has
  ended serves nothing more. The condition holds when each target has one connection at work; where two are, an
  update can get lost (C31).
\<close>

theorem overlapping_commands_follow_whole_requests:
  assumes "live_run uni cfg m boot wr as live_start l" "images_ok m"
  shows "(exclusive_run uni cfg m boot wr as live_start l \<longrightarrow>
      (\<exists>bs es s. server_run uni cfg m boot wr bs server_start s \<and> world_run uni cfg m es world_start (server_world s) \<and>
        sr_tasks s = sr_tasks (lv_server l) \<and> reg_targets (sr_registry s) = reg_targets (sr_registry (lv_server l)) \<and>
        length (reg_heap (sr_registry s)) = length (reg_heap (sr_registry (lv_server l))) \<and>
        (\<forall>i < length (reg_heap (sr_registry s)). at_rest l i \<longrightarrow>
          reg_heap (sr_registry (lv_server l)) ! i = reg_heap (sr_registry s) ! i) \<and>
        (lv_busy l = Map.empty \<longrightarrow> s = lv_server l))) \<and>
    (\<forall>bs s. server_run uni cfg m boot wr bs server_start s \<longrightarrow>
      (\<exists>cs. exclusive_run uni cfg m boot wr cs live_start (settled s))) \<and>
    length (sr_tasks (lv_server l)) = length (sv_iscsi (sr_services (lv_server l))) \<and>
    (\<forall>t \<in> set (sr_tasks (lv_server l)). length (tk_buf t) \<le> BUF_LIMIT \<and> (tk_end t \<noteq> Reading \<longrightarrow> tk_buf t = []) \<and>
       (cn_stage (tk_conn t) = Closing \<longrightarrow> tk_end t \<noteq> Reading))"
proof (intro conjI impI allI)
  assume "exclusive_run uni cfg m boot wr as live_start l"
  then obtain bs s where s: "server_run uni cfg m boot wr bs server_start s" "linked m l s"
    using exclusive_run_linked assms(2) by blast
  moreover obtain es where "world_run uni cfg m es world_start (server_world s)"
    using server_run_world [OF s(1)] by (auto simp: server_world_start)
  ultimately show "\<exists>bs es s. server_run uni cfg m boot wr bs server_start s \<and> world_run uni cfg m es world_start (server_world s) \<and>
        sr_tasks s = sr_tasks (lv_server l) \<and> reg_targets (sr_registry s) = reg_targets (sr_registry (lv_server l)) \<and>
        length (reg_heap (sr_registry s)) = length (reg_heap (sr_registry (lv_server l))) \<and>
        (\<forall>i < length (reg_heap (sr_registry s)). at_rest l i \<longrightarrow>
          reg_heap (sr_registry (lv_server l)) ! i = reg_heap (sr_registry s) ! i) \<and>
        (lv_busy l = Map.empty \<longrightarrow> s = lv_server l)"
    using linked_sel(2-5) [OF s(2)] linked_idle_state [OF s(2)] by blast
next
  fix bs s assume "server_run uni cfg m boot wr bs server_start s"
  from server_run_live [OF this server_inv_start assms(2)]
  show "\<exists>cs. exclusive_run uni cfg m boot wr cs live_start (settled s)" by (simp add: settled_def live_start_def)
qed (use live_run_tasks [OF assms(1)] in \<open>auto simp: tasks_inv_def list_all_iff task_inv_def\<close>)

theorem overlapping_commands_follow_whole_requests_witness:
  "\<exists>cs bs s. exclusive_run id sample_cfg sample_manager sample_boot (\<lambda>_ _. None) cs live_start (settled s) \<and>
    server_run id sample_cfg sample_manager sample_boot (\<lambda>_ _. None) bs server_start s \<and> length (sr_tasks s) = 1"
proof -
  let ?run = "exclusive_run id sample_cfg sample_manager sample_boot (\<lambda>_ _. None)"
  have "live_run id sample_cfg sample_manager sample_boot (\<lambda>_ _. None) [] live_start live_start" by simp
  from overlapping_commands_follow_whole_requests [OF this sample_images]
  obtain cs where cs: "?run cs live_start (settled sample_server)" using sample_server_run by blast
  from overlapping_commands_follow_whole_requests [OF exclusive_live [OF cs] sample_images] cs
  obtain bs s where "server_run id sample_cfg sample_manager sample_boot (\<lambda>_ _. None) bs server_start s"
      "lv_busy (settled sample_server) = Map.empty \<longrightarrow> s = lv_server (settled sample_server)" by blast
  then have "server_run id sample_cfg sample_manager sample_boot (\<lambda>_ _. None) bs server_start sample_server"
    by (simp add: settled_def)
  moreover have "length (sr_tasks sample_server) = 1" by (simp add: sample_server_def)
  ultimately show ?thesis using cs by blast
qed



text \<open>
  C22 A client is led from power-on to its script: the datagram the DHCP server sends to firmware it supports
  names this server and a boot file that the TFTP server then delivers whole; the one it sends to
  iPXE names the script's URL with the client's address in it, and the HTTP server answers that
  path and query with the client's boot script and a registered target for it.
\<close>

theorem power_on_reaches_the_script:
  assumes "boot_fits boot" "cf_boot cfg = Some boot" "resolve uni m (format_mac (hw_addr ix)) = Some c"
    and "dhcp_parse (take 2048 d1) = Inr fw" "\<not> is_ipxe fw"
    and "bootable fw" "answers p1 fw" "reply_role p1 fw \<noteq> DhcpServer"
    and "servable fs (tftp_server_new (bc_tftp_root boot)) (boot_file boot fw) data" "cstr_ok mode"
    and "dhcp_parse (take 2048 d2) = Inr ix" "is_ipxe ix"
    and "bootable ix" "answers p2 ix" "reply_role p2 ix \<noteq> DhcpServer"
  shows "(\<exists>bs dest offer name. listener_step boot p1 d1 src1 = Inr (Some (bs, dest)) \<and> dhcp_parse bs = Inr offer \<and>
      msg_option offer BOOTFILE_NAME = Some name \<and> dm_siaddr offer = bc_server_ip boot \<and>
      handle_request uni fs (tftp_server_new (bc_tftp_root boot)) (encode_rrq name mode []) (acks_for data 512) =
        (map (data_packet data 512) [1..<Suc (n_blocks data 512)], Inr Returned)) \<and>
    (\<exists>bs dest offer query r'. listener_step boot p2 d2 src2 = Inr (Some (bs, dest)) \<and> dhcp_parse bs = Inr offer \<and>
      msg_option offer BOOTFILE_NAME = Some (bc_http_script_url boot @ [63] @ query) \<and>
      http_handle uni cfg m r \<lparr>hq_get = True, hq_path = ascii ''/boot.ipxe'', hq_query = Some query\<rparr> =
        Inr (\<lparr>hr_status = 200, hr_body = boot_script (client_iqn c) (ipv4_string (bc_server_ip boot))\<rparr>, r') \<and>
      registry_get r' (client_iqn c) = Some (length (reg_heap r)))"
  using firmware_gets_file [OF assms(1,4-10), of src1 uni] ipxe_gets_script [OF assms(1,11-15,2,3), of src2 r] by blast

theorem power_on_reaches_the_script_witness:
  "\<exists>d1 d2 bs1 bs2 dest1 dest2 name query r' resp. dhcp_parse d1 = Inr sample_firmware \<and> dhcp_parse d2 = Inr sample_dhcp \<and>
    listener_step sample_boot True d1 ([0, 0, 0, 0], 68) = Inr (Some (bs1, dest1)) \<and>
    handle_request id sample_fs (tftp_server_new (bc_tftp_root sample_boot)) (encode_rrq name (ascii ''octet'') [])
      (acks_for sample_file 512) = (map (data_packet sample_file 512) [1..<Suc (n_blocks sample_file 512)], Inr Returned) \<and>
    listener_step sample_boot True d2 ([0, 0, 0, 0], 68) = Inr (Some (bs2, dest2)) \<and>
    http_handle id sample_cfg sample_manager registry_new
      \<lparr>hq_get = True, hq_path = ascii ''/boot.ipxe'', hq_query = Some query\<rparr> = Inr (resp, r') \<and> hr_status resp = 200"
proof -
  obtain d1 where d1: "dhcp_parse d1 = Inr sample_firmware" "dhcp_parse (take 2048 d1) = Inr sample_firmware" using sample_datagrams(1) by blast
  obtain d2 where d2: "dhcp_parse d2 = Inr sample_dhcp" "dhcp_parse (take 2048 d2) = Inr sample_dhcp" using sample_datagrams(2) by blast
  have fw: "bootable sample_firmware" "answers True sample_firmware" "reply_role True sample_firmware \<noteq> DhcpServer"
    using sample_firmware_ok by (simp_all add: bootable_def answers_def ARCH_UEFI_X64_def)
  have ix: "bootable sample_dhcp" "answers True sample_dhcp" "reply_role True sample_dhcp \<noteq> DhcpServer"
    using sample_dhcp_ok by (simp_all add: bootable_def answers_def)
  have srv: "servable sample_fs (tftp_server_new (bc_tftp_root sample_boot)) (boot_file sample_boot sample_firmware) sample_file"
    "cstr_ok (ascii ''octet'')"
    using sample_servable sample_firmware_ok(4)
    by (simp_all add: boot_file_def ARCH_BIOS_X86_def sample_boot_def cstr_ok_def is_ascii_is_utf8 is_ascii_def)
  show ?thesis
    using power_on_reaches_the_script [OF sample_boot_fits sample_cfg_sel(1) sample_resolve d1(2) sample_firmware_ok(2) fw srv
        d2(2) sample_dhcp_ok(2) ix, of "([0, 0, 0, 0], 68)" "([0, 0, 0, 0], 68)" registry_new] d1(1) d2(1)
    by fastforce
qed

section \<open>Any input\<close>

text \<open>
  C27 The decoders stay inside their input: run with the code's own indices and ranges, of which one outside
  the buffer would panic, the DHCP, TFTP, iSCSI and VHD footer decoders and the splitting of a text
  pair return on every input what their models return, and no field of an iSCSI request lies outside
  the header; so every fuzz target passes on every input, the one that opens an image included.
\<close>

theorem decoders_stay_inside_their_input:
  assumes "length h = BHS_LEN"
  shows "dhcp_parse_at d = Inr (dhcp_parse d) \<and> tftp_parse_at uni d = Inr (tftp_parse uni d) \<and>
    decode_at d = Inr (decode d) \<and> decode_request (h @ after) d = decode_request h d \<and>
    pair_at d = Inr (parse_pair d) \<and> footer_at d = footer_parse d \<and>
    fuzz_dhcp_decode d = Inr () \<and> fuzz_tftp_decode uni d = Inr () \<and> fuzz_iscsi_pdu d = Inr () \<and>
    fuzz_vhd_footer d = Inr () \<and> fuzz_open_backing env temp d = Inr ()"
  using decode_request_header [OF assms] fuzz_targets_pass
  by (simp add: dhcp_parse_at_eq tftp_parse_at_eq decode_at_eq pair_at_eq footer_at_eq)

theorem decoders_stay_inside_their_input_witness:
  "decode_request (zeros 48 @ [255]) [] = decode_request (zeros 48) [] \<and>
    tftp_parse_at id [0, 4, 1, 2] = Inr (Inr (Ack 258)) \<and> fuzz_open_backing sample_env (Some (ascii ''fuzz'')) [99, 120] = Inr ()"
proof -
  have "tftp_parse id [0, 4, 1, 2] = Inr (Ack 258)"
    by (simp add: tftp_parse_def parse_ack_def be16_def window_def be_val_def OP_RRQ_def OP_WRQ_def OP_ACK_def)
  then show ?thesis
    using decoders_stay_inside_their_input [of "zeros 48" "[0, 4, 1, 2]" id "[255]" sample_env "Some (ascii ''fuzz'')"]
      decoders_stay_inside_their_input [of "zeros 48" "[]" id "[255]" sample_env "Some (ascii ''fuzz'')"]
      decoders_stay_inside_their_input [of "zeros 48" "[99, 120]" id "[255]" sample_env "Some (ascii ''fuzz'')"]
    by (simp add: BHS_LEN_def)
qed

end
